(* ===== verification/Prelude.thy ===== *)
theory Prelude
  imports Main "HOL-Library.Word" "HOL-Library.Multiset"
begin

section \<open>Shared notions: atomics, reachability, list windows\<close>

text \<open>
  What the components share: the C++ atomic operations the code uses, written as pure
  functions on the old value; reachability of a step relation with the invariant rule as a
  locale that every concurrent component interprets; and lemmas on lists read through an
  index window.

  Atomics are modelled sequentially consistent: one atomic access is one step, and steps of
  different threads interleave. The memory orders of the source are not part of the model.
\<close>

unbundle bit_operations_syntax

named_theorems window_simps \<open>reading a window of an array\<close>
named_theorems atomic_simps \<open>atomic read-modify-write operations, evaluated\<close>

type_synonym u16 = "16 word"
type_synonym u32 = "32 word"
type_synonym u64 = "64 word"

subsection \<open>Atomic read-modify-write operations\<close>

text \<open>
  \<open>x.compare_exchange_strong(expected, desired)\<close> takes \<open>expected\<close> by reference: on failure
  the value read is stored into it. The result is the success flag, the new value of the
  atomic, and the new value of \<open>expected\<close>.
\<close>

definition compare_exchange :: "'a \<Rightarrow> 'a \<Rightarrow> 'a \<Rightarrow> bool \<times> 'a \<times> 'a" where
  "compare_exchange obj expected desired =
     (if obj = expected then (True, desired, expected) else (False, obj, obj))"

lemma compare_exchange_hit [atomic_simps, simp]: "compare_exchange x x d = (True, d, x)"
  by (simp add: compare_exchange_def)

lemma compare_exchange_miss [atomic_simps, simp]:
  "x \<noteq> e \<Longrightarrow> compare_exchange x e d = (False, x, x)"
  by (simp add: compare_exchange_def)

text \<open>\<open>fetch_add\<close> and \<open>fetch_sub\<close> return the old value and wrap at the width.\<close>

definition fetch_add :: "'w::len word \<Rightarrow> 'w word \<Rightarrow> 'w word \<times> 'w word" where
  "fetch_add obj n = (obj, obj + n)"

definition fetch_sub :: "'w::len word \<Rightarrow> 'w word \<Rightarrow> 'w word \<times> 'w word" where
  "fetch_sub obj n = (obj, obj - n)"

lemma fst_fetch_add [atomic_simps, simp]: "fst (fetch_add x n) = x"
  and snd_fetch_add [atomic_simps, simp]: "snd (fetch_add x n) = x + n"
  and fst_fetch_sub [atomic_simps, simp]: "fst (fetch_sub x n) = x"
  and snd_fetch_sub [atomic_simps, simp]: "snd (fetch_sub x n) = x - n"
  by (simp_all add: fetch_add_def fetch_sub_def)

subsection \<open>Reachable states and the invariant rule\<close>

inductive reach :: "('s \<Rightarrow> bool) \<Rightarrow> ('s \<Rightarrow> 's \<Rightarrow> bool) \<Rightarrow> 's \<Rightarrow> bool"
  for ini :: "'s \<Rightarrow> bool" and stp :: "'s \<Rightarrow> 's \<Rightarrow> bool" where
  reach_init: "ini s \<Longrightarrow> reach ini stp s"
| reach_step: "reach ini stp s \<Longrightarrow> stp s t \<Longrightarrow> reach ini stp t"

locale invariant_system =
  fixes ini :: "'s \<Rightarrow> bool"
    and stp :: "'s \<Rightarrow> 's \<Rightarrow> bool"
    and inv :: "'s \<Rightarrow> bool"
  assumes inv_init: "ini s \<Longrightarrow> inv s"
    and inv_step: "inv s \<Longrightarrow> stp s t \<Longrightarrow> inv t"
begin

lemma reach_inv: "reach ini stp s \<Longrightarrow> inv s"
  by (induction rule: reach.induct) (auto intro: inv_init inv_step)

lemma steps_inv: "stp\<^sup>*\<^sup>* s t \<Longrightarrow> inv s \<Longrightarrow> inv t"
  by (induction rule: rtranclp_induct) (auto intro: inv_step)

end

lemma reach_steps: "stp\<^sup>*\<^sup>* s t \<Longrightarrow> reach ini stp s \<Longrightarrow> reach ini stp t"
  by (induction rule: rtranclp_induct) (auto intro: reach_step)

subsection \<open>Windows of an array\<close>

text \<open>\<open>slice i j xs\<close> is the part of an array between two indices, the first included.\<close>

definition slice :: "nat \<Rightarrow> nat \<Rightarrow> 'a list \<Rightarrow> 'a list" where
  "slice i j xs = map (\<lambda>k. xs ! k) [i..<j]"

lemma length_slice [window_simps, simp]: "length (slice i j xs) = j - i"
  by (simp add: slice_def)

lemma nth_slice [window_simps, simp]: "k < j - i \<Longrightarrow> slice i j xs ! k = xs ! (i + k)"
  by (simp add: slice_def)

lemma slice_empty [window_simps, simp]: "j \<le> i \<Longrightarrow> slice i j xs = []"
  by (simp add: slice_def)

lemma slice_eq_Nil [window_simps, simp]: "slice i j xs = [] \<longleftrightarrow> j \<le> i"
  by (auto simp: slice_def)

lemma slice_Suc: "i \<le> j \<Longrightarrow> slice i (Suc j) xs = slice i j xs @ [xs ! j]"
  by (simp add: slice_def)

lemma slice_Cons: "i < j \<Longrightarrow> slice i j xs = xs ! i # slice (Suc i) j xs"
  by (simp add: slice_def upt_conv_Cons)

lemma slice_cong:
  "(\<And>k. i \<le> k \<Longrightarrow> k < j \<Longrightarrow> xs ! k = ys ! k) \<Longrightarrow> slice i j xs = slice i j ys"
  by (simp add: slice_def)

lemma slice_update_out: "k < i \<or> j \<le> k \<Longrightarrow> slice i j (xs[k := x]) = slice i j xs"
  by (rule slice_cong) auto

lemma slice_update_in: "i \<le> k \<Longrightarrow> j \<le> length xs \<Longrightarrow> slice i j (xs[k := x]) = (slice i j xs)[k - i := x]"
proof (rule nth_equalityI)
  fix a assume "i \<le> k" "j \<le> length xs" and "a < length (slice i j (xs[k := x]))"
  then show "slice i j (xs[k := x]) ! a = (slice i j xs)[k - i := x] ! a"
    by (cases "i + a = k") (auto simp: nth_list_update)
qed simp

lemma slice_append:
  assumes "i \<le> j" and "j \<le> k"
  shows "slice i j xs @ slice j k xs = slice i k xs"
proof -
  from assms(2) obtain d where k: "k = j + d" by (rule less_eqE)
  with assms(1) show ?thesis by (simp add: slice_def upt_add_eq_append [of i j d])
qed

lemma set_slice: "set (slice i j xs) = {xs ! k | k. i \<le> k \<and> k < j}"
  by (auto simp: slice_def)

lemma hd_slice: "i < j \<Longrightarrow> hd (slice i j xs) = xs ! i"
  by (simp add: slice_Cons)

lemma last_slice: "i < j \<Longrightarrow> last (slice i j xs) = xs ! (j - 1)"
  by (cases j) (auto simp: slice_Suc)

end
