(* ===== verification/Access_Modes.thy ===== *)
theory Access_Modes
  imports Prelude
begin

section \<open>Access modes (resources.hpp)\<close>

text \<open>
  The access modes and the relation that says which accesses must be serialised. The resource
  objects that hand out accesses are in \<open>Resources\<close>.
\<close>

datatype access_mode = Read | Write | AAdd | AMul

definition is_serial_access :: "access_mode \<Rightarrow> access_mode \<Rightarrow> bool" where
  "is_serial_access a b \<longleftrightarrow>
     (a \<noteq> Read \<or> b \<noteq> Read) \<and> (a \<noteq> AAdd \<or> b \<noteq> AAdd) \<and> (a \<noteq> AMul \<or> b \<noteq> AMul)"

lemma is_serial_access_iff: "is_serial_access a b \<longleftrightarrow> a \<noteq> b \<or> a = Write"
  by (cases a; cases b) (simp_all add: is_serial_access_def)

lemma parallel_iff: "\<not> is_serial_access a b \<longleftrightarrow> a = b \<and> a \<noteq> Write"
  by (auto simp: is_serial_access_iff)

end
