(* ===== verification/Resource_Node.thy ===== *)
theory Resource_Node
  imports Access_Modes
begin

section \<open>One resource queue, run without interference (ResourceNode.hpp)\<close>

text \<open>
  A \<open>ResourceNode\<close> is the queue of the tasks that access one resource: an array of 1024
  entries with three indices, \<open>first\<close> (oldest entry not retired), \<open>firstNotReady\<close> (first
  entry still blocked) and \<open>last\<close> (one past the newest entry). This theory translates
  \<open>add_task\<close> and \<open>remove_task\<close> as they run when no other thread touches the node, every
  \<open>compare_exchange_strong\<close> included; an array access outside \<open>std::array<task_access,
  1024>\<close> and a null \<open>waitCounter_p\<close> are error values.
\<close>

subsection \<open>State\<close>

text \<open>
  Handles and wait counters are addresses; \<open>0\<close> is \<open>nullptr\<close>. A default-constructed entry
  leaves its access mode indeterminate: the model takes that value as an argument \<open>g\<close>.
\<close>

record task_access =
  ta_handle :: nat
  ta_wait :: nat
  ta_mode :: access_mode
  ta_removed :: bool

definition default_access :: "access_mode \<Rightarrow> task_access" where
  "default_access g = \<lparr>ta_handle = 0, ta_wait = 0, ta_mode = g, ta_removed = False\<rparr>"

definition make_access :: "nat \<Rightarrow> access_mode \<Rightarrow> nat \<Rightarrow> task_access" where
  "make_access h m w = \<lparr>ta_handle = h, ta_wait = w, ta_mode = m, ta_removed = False\<rparr>"

record resource_node =
  rn_first :: nat
  rn_fnr :: nat
  rn_last :: nat
  rn_uid :: u32
  rn_tasks :: "task_access list"

definition node_capacity :: nat where
  "node_capacity = 1024"

definition new_node :: "access_mode \<Rightarrow> u32 \<Rightarrow> resource_node" where
  "new_node g uid = \<lparr>rn_first = 0, rn_fnr = 0, rn_last = 0, rn_uid = uid,
     rn_tasks = replicate node_capacity (default_access g)\<rparr>"

text \<open>
  What the operations read and write besides the node: the wait counters of the tasks, by
  address, and the handles given to \<open>ThreadPool::addTask\<close>, oldest first.
\<close>

record world =
  node :: resource_node
  counters :: "nat \<Rightarrow> u32"
  added :: "nat list"

datatype node_error = OutOfBounds nat | NullCounter

definition task_at :: "nat \<Rightarrow> world \<Rightarrow> task_access" where
  "task_at k w = rn_tasks (node w) ! k"

subsection \<open>Writes to the node\<close>

definition set_first :: "nat \<Rightarrow> world \<Rightarrow> world" where
  "set_first f w = w\<lparr>node := (node w)\<lparr>rn_first := f\<rparr>\<rparr>"

definition set_fnr :: "nat \<Rightarrow> world \<Rightarrow> world" where
  "set_fnr f w = w\<lparr>node := (node w)\<lparr>rn_fnr := f\<rparr>\<rparr>"

definition push_entry :: "task_access \<Rightarrow> world \<Rightarrow> world" where
  "push_entry t w = w\<lparr>node := (node w)\<lparr>rn_tasks := (rn_tasks (node w))[rn_last (node w) := t],
     rn_last := rn_last (node w) + 1\<rparr>\<rparr>"

definition mark_removed :: "nat \<Rightarrow> world \<Rightarrow> world" where
  "mark_removed k w = w\<lparr>node := (node w)\<lparr>rn_tasks :=
     (rn_tasks (node w))[k := (task_at k w)\<lparr>ta_removed := True\<rparr>]\<rparr>\<rparr>"

text \<open>\<open>waitCounter_p->fetch_sub(1)\<close>; the old value and the new world.\<close>

definition count_down :: "nat \<Rightarrow> world \<Rightarrow> node_error + u32 \<times> world" where
  "count_down p w =
     (if p = 0 then Inl NullCounter
      else let (old, new) = fetch_sub (counters w p) 1
           in Inr (old, w\<lparr>counters := (counters w)(p := new)\<rparr>))"

text \<open>The notification of a released entry: count down, and pass the handle to the pool when
  the task waits for nothing else.\<close>

definition release_task :: "nat \<Rightarrow> world \<Rightarrow> node_error + world" where
  "release_task k w =
     (case count_down (ta_wait (task_at k w)) w of
        Inl e \<Rightarrow> Inl e
      | Inr (old, w') \<Rightarrow>
          Inr (if old = 1 then w'\<lparr>added := added w' @ [ta_handle (task_at k w')]\<rparr> else w'))"

subsection \<open>\<open>add_task\<close>\<close>

definition take_slot :: "task_access \<Rightarrow> nat \<Rightarrow> nat \<Rightarrow> world \<Rightarrow> node_error + world" where
  "take_slot t old_last fnr w =
     (case compare_exchange (rn_fnr (node w)) old_last (fnr + 1) of
        (True, fnr', _) \<Rightarrow> map_sum id snd (count_down (ta_wait t) (set_fnr fnr' w))
      | (False, _, _) \<Rightarrow> Inr w)"

definition add_task :: "task_access \<Rightarrow> world \<Rightarrow> node_error + world" where
  "add_task t w =
     (let old_last = rn_last (node w) in
      if node_capacity \<le> old_last then Inl (OutOfBounds old_last)
      else let w1 = push_entry t w; fnr = rn_fnr (node w1) in
        if fnr = old_last then
          if rn_first (node w1) = old_last then take_slot t old_last fnr w1
          else if old_last = 0 then Inl (OutOfBounds (2 ^ 32 - 1))
          else if \<not> is_serial_access (ta_mode t) (ta_mode (task_at (old_last - 1) w1))
          then take_slot t old_last fnr w1
          else Inr w1
        else Inr w1)"

subsection \<open>\<open>remove_task\<close>\<close>

text \<open>How a loop of \<open>remove_task\<close> ends: the function returns from inside it, or the loop is
  left with the flag it set, the index and the world.\<close>

datatype loop_end = Returned world | Left_loop bool nat world

text \<open>
  The loop over entries already marked as removed. The call
  \<open>first.compare_exchange_strong(cur, ++cur, ...)\<close> takes \<open>cur\<close> by reference as the
  expected value, and the increment is evaluated before the call: both the expected and the
  desired value are the incremented \<open>cur\<close>.
\<close>

function skip_removed :: "nat \<Rightarrow> world \<Rightarrow> node_error + loop_end" where
  "skip_removed cur w =
     (if node_capacity \<le> cur then Inl (OutOfBounds cur)
      else let found = ta_removed (task_at cur w) in
        if found \<and> cur \<noteq> rn_fnr (node w) then
          (case compare_exchange (rn_first (node w)) (cur + 1) (cur + 1) of
             (True, first', cur') \<Rightarrow> skip_removed cur' (set_first first' w)
           | (False, _, _) \<Rightarrow> Inr (Returned w))
        else Inr (Left_loop found cur w))"
  by pat_completeness auto
termination
  by (relation "measure (\<lambda>(cur, w). node_capacity - cur)")
    (auto simp: compare_exchange_def split: if_splits)

declare skip_removed.simps [simp del]

text \<open>The search for the entry of the handle among the ready entries.\<close>

function find_entry :: "nat \<Rightarrow> nat \<Rightarrow> nat \<Rightarrow> world \<Rightarrow> node_error + loop_end" where
  "find_entry h cur fnr w =
     (if cur = fnr then Inr (Left_loop True cur w)
      else if node_capacity \<le> cur then Inl (OutOfBounds cur)
      else if ta_handle (task_at cur w) = h then
        let w1 = mark_removed cur w in
        (case compare_exchange (rn_first (node w1)) (cur + 1) (cur + 1) of
           (True, first', cur') \<Rightarrow>
             (case skip_removed cur' (set_first first' w1) of
                Inr (Left_loop found cur'' w2) \<Rightarrow>
                  Inr (if found then Left_loop found cur'' w2 else Returned w2)
              | r \<Rightarrow> r)
         | (False, _, _) \<Rightarrow> Inr (Returned w1))
      else find_entry h (cur + 1) fnr w)"
  by pat_completeness auto
termination
  by (relation "measure (\<lambda>(h, cur, fnr, w). node_capacity - cur)") auto

declare find_entry.simps [simp del]

text \<open>The inner loop that releases the entries parallel to the one just released.\<close>

function release_run ::
  "access_mode \<Rightarrow> nat \<Rightarrow> nat \<Rightarrow> bool \<Rightarrow> world \<Rightarrow> node_error + loop_end" where
  "release_run mode fnr temp_last parallel_exit w =
     (if fnr = temp_last then Inr (Left_loop parallel_exit fnr w)
      else if node_capacity \<le> fnr then Inl (OutOfBounds fnr)
      else if \<not> is_serial_access mode (ta_mode (task_at fnr w)) then
        (case compare_exchange (rn_fnr (node w)) fnr (fnr + 1) of
           (True, fnr', _) \<Rightarrow>
             (case release_task fnr (set_fnr fnr' w) of
                Inl e \<Rightarrow> Inl e
              | Inr w' \<Rightarrow> release_run mode (fnr + 1) temp_last True w')
         | (False, _, _) \<Rightarrow> Inr (Returned w))
      else Inr (Left_loop False fnr w))"
  by pat_completeness auto
termination
  by (relation "measure (\<lambda>(mode, fnr, temp_last, pe, w). node_capacity - fnr)") auto

declare release_run.simps [simp del]

lemmas world_ops_def = set_first_def set_fnr_def push_entry_def mark_removed_def

text \<open>What the writes leave alone.\<close>

lemma node_frame [simp]:
  "rn_first (node (set_first f w)) = f"
  "rn_fnr (node (set_first f w)) = rn_fnr (node w)"
  "rn_last (node (set_first f w)) = rn_last (node w)"
  "rn_tasks (node (set_first f w)) = rn_tasks (node w)"
  "rn_uid (node (set_first f w)) = rn_uid (node w)"
  "rn_first (node (set_fnr f w)) = rn_first (node w)"
  "rn_fnr (node (set_fnr f w)) = f"
  "rn_last (node (set_fnr f w)) = rn_last (node w)"
  "rn_tasks (node (set_fnr f w)) = rn_tasks (node w)"
  "rn_uid (node (set_fnr f w)) = rn_uid (node w)"
  "rn_first (node (push_entry t w)) = rn_first (node w)"
  "rn_fnr (node (push_entry t w)) = rn_fnr (node w)"
  "rn_last (node (push_entry t w)) = Suc (rn_last (node w))"
  "rn_tasks (node (push_entry t w)) = (rn_tasks (node w))[rn_last (node w) := t]"
  "rn_first (node (mark_removed k w)) = rn_first (node w)"
  "rn_fnr (node (mark_removed k w)) = rn_fnr (node w)"
  "rn_last (node (mark_removed k w)) = rn_last (node w)"
  by (simp_all add: world_ops_def)

lemma effect_frame [simp]:
  "counters (set_first f w) = counters w" "added (set_first f w) = added w"
  "counters (set_fnr f w) = counters w" "added (set_fnr f w) = added w"
  "counters (push_entry t w) = counters w" "added (push_entry t w) = added w"
  "counters (mark_removed k w) = counters w" "added (mark_removed k w) = added w"
  by (simp_all add: world_ops_def)

lemma task_at_frame [simp]:
  "task_at k (set_first f w) = task_at k w"
  "task_at k (set_fnr f w) = task_at k w"
  by (simp_all add: task_at_def)

text \<open>What releasing an entry does to the counters and to the pool.\<close>

definition signal :: "task_access \<Rightarrow> world \<Rightarrow> world" where
  "signal t w =
     (let p = ta_wait t; old = counters w p in
      w\<lparr>counters := (counters w)(p := old - 1),
        added := added w @ (if old = 1 then [ta_handle t] else [])\<rparr>)"

lemma node_signal [simp]: "node (signal t w) = node w"
  by (simp add: signal_def Let_def)

lemma node_fold_signal [simp]: "node (fold signal ts w) = node w"
  by (induction ts arbitrary: w) simp_all

lemma signal_set_fnr [simp]: "signal t (set_fnr f w) = set_fnr f (signal t w)"
  by (simp add: signal_def set_fnr_def Let_def)

lemma set_fnr_set_fnr [simp]: "set_fnr f (set_fnr f' w) = set_fnr f w"
  by (simp add: set_fnr_def)

lemma fold_signal_set_fnr [simp]: "fold signal ts (set_fnr f w) = set_fnr f (fold signal ts w)"
  by (induction ts arbitrary: w) simp_all

lemma set_fnr_same [simp]: "set_fnr (rn_fnr (node w)) w = w"
  by (simp add: set_fnr_def)

lemma task_at_signal [simp]: "task_at j (signal t w) = task_at j w"
  by (simp add: task_at_def)

lemma release_task_eq:
  "release_task k w =
     (if ta_wait (task_at k w) = 0 then Inl NullCounter else Inr (signal (task_at k w) w))"
  by (simp add: release_task_def count_down_def signal_def Let_def fetch_sub_def task_at_def)

lemma release_task_node: "release_task k w = Inr w' \<Longrightarrow> node w' = node w"
  by (auto simp: release_task_eq split: if_splits)

text \<open>One turn of the inner loop, with the atomics evaluated.\<close>

lemma release_run_step:
  "fnr \<noteq> temp_last \<Longrightarrow> fnr < node_capacity \<Longrightarrow>
   \<not> is_serial_access mode (ta_mode (task_at fnr w)) \<Longrightarrow> rn_fnr (node w) = fnr \<Longrightarrow>
   ta_wait (task_at fnr w) \<noteq> 0 \<Longrightarrow>
   release_run mode fnr temp_last pe w =
     release_run mode (fnr + 1) temp_last True (set_fnr (fnr + 1) (signal (task_at fnr w) w))"
  by (subst release_run.simps) (simp add: release_task_eq)

lemma release_run_stop:
  "fnr = temp_last \<or> node_capacity \<le> fnr \<or> is_serial_access mode (ta_mode (task_at fnr w)) \<or>
   rn_fnr (node w) \<noteq> fnr \<or> ta_wait (task_at fnr w) = 0 \<Longrightarrow>
   release_run mode fnr temp_last pe w =
     (if fnr = temp_last then Inr (Left_loop pe fnr w)
      else if node_capacity \<le> fnr then Inl (OutOfBounds fnr)
      else if is_serial_access mode (ta_mode (task_at fnr w)) then Inr (Left_loop False fnr w)
      else if rn_fnr (node w) \<noteq> fnr then Inr (Returned w)
      else Inl NullCounter)"
  by (subst release_run.simps) (auto simp: release_task_eq compare_exchange_def)

lemma release_run_last:
  "release_run mode fnr temp_last pe w = Inr (Left_loop pe' fnr' w') \<Longrightarrow>
   rn_last (node w') = rn_last (node w)"
proof (induction "node_capacity - fnr" arbitrary: fnr pe w rule: less_induct)
  case less
  show ?case
  proof (cases "fnr \<noteq> temp_last \<and> fnr < node_capacity \<and>
      \<not> is_serial_access mode (ta_mode (task_at fnr w)) \<and> rn_fnr (node w) = fnr \<and>
      ta_wait (task_at fnr w) \<noteq> 0")
    case True
    with less.prems have "release_run mode (fnr + 1) temp_last True
        (set_fnr (fnr + 1) (signal (task_at fnr w) w)) = Inr (Left_loop pe' fnr' w')"
      by (simp add: release_run_step)
    with True less.hyps [of "fnr + 1"] show ?thesis by fastforce
  next
    case False
    then show ?thesis
      using less.prems release_run_stop [of fnr temp_last mode w pe] by (auto split: if_splits)
  qed
qed

text \<open>The outer \<open>do ... while\<close> loop, which runs the inner one again when tasks were added.\<close>

function release_all :: "access_mode \<Rightarrow> nat \<Rightarrow> bool \<Rightarrow> world \<Rightarrow> node_error + world" where
  "release_all mode fnr parallel_exit w =
     (let temp_last = rn_last (node w) in
      case release_run mode fnr temp_last parallel_exit w of
        Inl e \<Rightarrow> Inl e
      | Inr (Returned w') \<Rightarrow> Inr w'
      | Inr (Left_loop pe fnr' w') \<Rightarrow>
          if \<not> pe then Inr w'
          else if temp_last \<noteq> rn_last (node w') then release_all mode fnr' pe w'
          else Inr w')"
  by pat_completeness auto
termination
  by (relation "{}") (auto dest: release_run_last)

declare release_all.simps [simp del]

text \<open>From the comment \<open>start updating tasks\<close> to the end of \<open>remove_task\<close>.\<close>

definition update_ready :: "nat \<Rightarrow> world \<Rightarrow> node_error + world" where
  "update_ready cur w =
     (let fnr = rn_fnr (node w); temp_last = rn_last (node w) in
      if fnr = cur \<and> temp_last \<noteq> cur then
        (case compare_exchange (rn_fnr (node w)) fnr (fnr + 1) of
           (True, fnr', _) \<Rightarrow>
             let w1 = set_fnr fnr' w in
             if node_capacity \<le> fnr then Inl (OutOfBounds fnr)
             else let mode = ta_mode (task_at fnr w1) in
               (case release_task fnr w1 of
                  Inl e \<Rightarrow> Inl e
                | Inr w2 \<Rightarrow> release_all mode (fnr + 1) False w2)
         | (False, _, _) \<Rightarrow> Inr w)
      else Inr w)"

definition finish_removal :: "node_error + loop_end \<Rightarrow> node_error + world" where
  "finish_removal r =
     (case r of Inl e \<Rightarrow> Inl e
      | Inr (Returned w) \<Rightarrow> Inr w
      | Inr (Left_loop _ cur w) \<Rightarrow> update_ready cur w)"

definition remove_task :: "nat \<Rightarrow> world \<Rightarrow> node_error + world" where
  "remove_task h w =
     (let cur = rn_first (node w) in
      if node_capacity \<le> cur then Inl (OutOfBounds cur)
      else if ta_handle (task_at cur w) = h then
        finish_removal (skip_removed (rn_first (node w) + 1) (set_first (rn_first (node w) + 1) w))
      else finish_removal (find_entry h (cur + 1) (rn_fnr (node w)) w))"


subsection \<open>Well-formed nodes\<close>

text \<open>
  The state between two operations: the indices are ordered, the ready entries
  \<open>[first, firstNotReady)\<close> are pairwise parallel, the first blocked entry conflicts with the newest
  ready one, and no blocked entry is marked as removed. When entries are retired oldest first, no
  ready one is either.
\<close>

definition node_shape :: "world \<Rightarrow> bool" where
  "node_shape w \<longleftrightarrow>
     (let n = node w in
      length (rn_tasks n) = node_capacity \<and>
      rn_first n \<le> rn_fnr n \<and> rn_fnr n \<le> rn_last n \<and> rn_last n \<le> node_capacity \<and>
      (\<forall>k \<in> {rn_fnr n..<node_capacity}. \<not> ta_removed (rn_tasks n ! k)) \<and>
      (\<forall>k \<in> {rn_first n..<rn_last n}. ta_wait (rn_tasks n ! k) \<noteq> 0) \<and>
      (\<forall>i \<in> {rn_first n..<rn_fnr n}. \<forall>j \<in> {rn_first n..<rn_fnr n}. i \<noteq> j \<longrightarrow>
         \<not> is_serial_access (ta_mode (rn_tasks n ! i)) (ta_mode (rn_tasks n ! j))) \<and>
      (rn_fnr n < rn_last n \<longrightarrow> rn_first n < rn_fnr n \<and>
         is_serial_access (ta_mode (rn_tasks n ! rn_fnr n))
           (ta_mode (rn_tasks n ! (rn_fnr n - 1)))))"

definition node_ok :: "world \<Rightarrow> bool" where
  "node_ok w \<longleftrightarrow>
     (let n = node w in
      length (rn_tasks n) = node_capacity \<and>
      rn_first n \<le> rn_fnr n \<and> rn_fnr n \<le> rn_last n \<and> rn_last n \<le> node_capacity \<and>
      (\<forall>k \<in> {rn_first n..<node_capacity}. \<not> ta_removed (rn_tasks n ! k)) \<and>
      (\<forall>k \<in> {rn_first n..<rn_last n}. ta_wait (rn_tasks n ! k) \<noteq> 0) \<and>
      (\<forall>i \<in> {rn_first n..<rn_fnr n}. \<forall>j \<in> {rn_first n..<rn_fnr n}. i \<noteq> j \<longrightarrow>
         \<not> is_serial_access (ta_mode (rn_tasks n ! i)) (ta_mode (rn_tasks n ! j))) \<and>
      (rn_fnr n < rn_last n \<longrightarrow> rn_first n < rn_fnr n \<and>
         is_serial_access (ta_mode (rn_tasks n ! rn_fnr n))
           (ta_mode (rn_tasks n ! (rn_fnr n - 1)))))"

definition ready_unremoved :: "world \<Rightarrow> bool" where
  "ready_unremoved w \<longleftrightarrow> (\<forall>k \<in> {rn_first (node w)..<rn_fnr (node w)}. \<not> ta_removed (rn_tasks (node w) ! k))"

lemma ball_split: "a \<le> b \<Longrightarrow> b \<le> c \<Longrightarrow> (\<forall>k \<in> {a..<c}. P k) \<longleftrightarrow> (\<forall>k \<in> {b..<c}. P k) \<and> (\<forall>k \<in> {a..<b}. P k)"
  for a b c :: nat
  by (auto simp flip: ivl_disj_un_two(3) [of a b c])

lemma node_ok_iff: "node_ok w \<longleftrightarrow> node_shape w \<and> ready_unremoved w"
proof (cases "rn_first (node w) \<le> rn_fnr (node w) \<and> rn_fnr (node w) \<le> node_capacity")
  case True
  then show ?thesis
    unfolding node_ok_def node_shape_def ready_unremoved_def Let_def by (subst ball_split) auto
qed (auto simp: node_ok_def node_shape_def Let_def)

lemma node_ok_shape: "node_ok w \<Longrightarrow> node_shape w"
  by (simp add: node_ok_iff)

lemma node_ok_new: "node w = new_node g uid \<Longrightarrow> node_ok w"
  by (simp add: node_ok_def new_node_def default_access_def Let_def)

subsection \<open>The contract: a first-in first-out queue with groups\<close>

text \<open>
  What the node promises, on two lists: the entries that may run now and the entries that
  wait. A new entry runs at once when nothing waits and it is parallel to what runs. When
  the last running entry is retired, the oldest waiting entry and the run of entries right
  behind it that are parallel to it start.
\<close>

type_synonym queues = "task_access list \<times> task_access list"

definition parallel_with :: "task_access \<Rightarrow> task_access \<Rightarrow> bool" where
  "parallel_with t u \<longleftrightarrow> \<not> is_serial_access (ta_mode t) (ta_mode u)"

definition starts_now :: "task_access \<Rightarrow> queues \<Rightarrow> bool" where
  "starts_now t q \<longleftrightarrow> snd q = [] \<and> (fst q = [] \<or> parallel_with t (last (fst q)))"

definition spec_add :: "task_access \<Rightarrow> queues \<Rightarrow> queues" where
  "spec_add t q = (if starts_now t q then (fst q @ [t], []) else (fst q, snd q @ [t]))"

fun next_group :: "task_access list \<Rightarrow> task_access list" where
  "next_group [] = []"
| "next_group (t # ts) = t # takeWhile (parallel_with t) ts"

definition spec_admitted :: "queues \<Rightarrow> task_access list" where
  "spec_admitted q = (if tl (fst q) = [] then next_group (snd q) else [])"

lemma admitted_prefix:
  "spec_admitted q = take (length (spec_admitted q)) (snd q)"
  by (cases "snd q") (auto simp: spec_admitted_def simp flip: takeWhile_eq_take)

definition spec_retire :: "queues \<Rightarrow> queues" where
  "spec_retire q = (tl (fst q) @ spec_admitted q, drop (length (spec_admitted q)) (snd q))"

definition queues_of :: "world \<Rightarrow> queues" where
  "queues_of w = (slice (rn_first (node w)) (rn_fnr (node w)) (rn_tasks (node w)),
     slice (rn_fnr (node w)) (rn_last (node w)) (rn_tasks (node w)))"

subsection \<open>The release loop\<close>

text \<open>
  With no interference the inner loop releases exactly the longest run of parallel entries
  and moves \<open>firstNotReady\<close> behind it; the outer loop does not run it again.
\<close>

definition run_of :: "access_mode \<Rightarrow> nat \<Rightarrow> world \<Rightarrow> task_access list" where
  "run_of mode k w =
     takeWhile (\<lambda>t. \<not> is_serial_access mode (ta_mode t)) (slice k (rn_last (node w)) (rn_tasks (node w)))"

lemma run_of_Cons:
  "k < rn_last (node w) \<Longrightarrow> \<not> is_serial_access mode (ta_mode (task_at k w)) \<Longrightarrow>
   run_of mode k w = task_at k w # run_of mode (Suc k) w"
  by (simp add: run_of_def slice_Cons task_at_def)

lemma run_of_Nil:
  "rn_last (node w) \<le> k \<or> is_serial_access mode (ta_mode (task_at k w)) \<Longrightarrow> run_of mode k w = []"
  by (cases "rn_last (node w) \<le> k") (auto simp: run_of_def slice_Cons task_at_def not_le)

lemma run_of_Write [simp]: "run_of Write k w = []"
  by (auto simp: run_of_def is_serial_access_iff takeWhile_eq_Nil_iff)

lemma run_of_frame [simp]:
  "run_of mode k (set_fnr f w) = run_of mode k w"
  "run_of mode k (signal t w) = run_of mode k w"
  by (simp_all add: run_of_def)

lemma release_run_all:
  assumes "rn_fnr (node w) = fnr" and "fnr \<le> rn_last (node w)" and "rn_last (node w) \<le> node_capacity"
    and "\<forall>k \<in> {fnr..<rn_last (node w)}. ta_wait (task_at k w) \<noteq> 0"
  shows "\<exists>pe'. release_run mode fnr (rn_last (node w)) pe w =
     Inr (Left_loop pe' (fnr + length (run_of mode fnr w))
       (set_fnr (fnr + length (run_of mode fnr w)) (fold signal (run_of mode fnr w) w)))"
  using assms
proof (induction "rn_last (node w) - fnr" arbitrary: fnr pe w)
  case 0
  then show ?case by (simp add: release_run_stop run_of_Nil)
next
  case (Suc d)
  show ?case
  proof (cases "is_serial_access mode (ta_mode (task_at fnr w))")
    case True
    with Suc.prems Suc.hyps(2) show ?thesis by (auto simp: release_run_stop run_of_Nil)
  next
    case False
    let ?w = "set_fnr (fnr + 1) (signal (task_at fnr w) w)"
    have lt: "fnr < rn_last (node w)" using Suc.hyps(2) by simp
    have "\<exists>pe'. release_run mode (fnr + 1) (rn_last (node ?w)) True ?w =
       Inr (Left_loop pe' (fnr + 1 + length (run_of mode (fnr + 1) ?w))
         (set_fnr (fnr + 1 + length (run_of mode (fnr + 1) ?w)) (fold signal (run_of mode (fnr + 1) ?w) ?w)))"
      by (rule Suc.hyps(1)) (use Suc.hyps(2) Suc.prems lt in auto)
    moreover have "release_run mode fnr (rn_last (node w)) pe w =
        release_run mode (fnr + 1) (rn_last (node w)) True ?w"
      by (rule release_run_step) (use Suc.prems lt False in auto)
    ultimately show ?thesis
      using lt False by (simp add: run_of_Cons)
  qed
qed

lemma release_all_eq:
  assumes "rn_fnr (node w) = fnr" and "fnr \<le> rn_last (node w)" and "rn_last (node w) \<le> node_capacity"
    and "\<forall>k \<in> {fnr..<rn_last (node w)}. ta_wait (task_at k w) \<noteq> 0"
  shows "release_all mode fnr pe w =
     Inr (set_fnr (fnr + length (run_of mode fnr w)) (fold signal (run_of mode fnr w) w))"
  using release_run_all [OF assms, of mode pe]
  by (subst release_all.simps) (auto simp: Let_def)

lemma length_run_of: "k + length (run_of mode k w) \<le> max k (rn_last (node w))"
proof -
  have "length (run_of mode k w) \<le> rn_last (node w) - k"
    unfolding run_of_def by (rule order_trans [OF length_takeWhile_le]) simp
  then show ?thesis by simp
qed

text \<open>Entries in the run have the mode that starts it; the one behind it does not.\<close>

lemma run_of_parallel:
  assumes "k \<le> i" and "i < k + length (run_of mode k w)"
  shows "ta_mode (task_at i w) = mode \<and> mode \<noteq> Write"
proof -
  let ?xs = "slice k (rn_last (node w)) (rn_tasks (node w))"
  have len: "length (run_of mode k w) \<le> rn_last (node w) - k"
    unfolding run_of_def by (rule order_trans [OF length_takeWhile_le]) simp
  have "run_of mode k w ! (i - k) = ?xs ! (i - k)"
    unfolding run_of_def by (rule takeWhile_nth) (use assms in \<open>simp add: run_of_def\<close>)
  then have "run_of mode k w ! (i - k) = task_at i w"
    using assms len by (simp add: task_at_def)
  moreover have "run_of mode k w ! (i - k) \<in> set (run_of mode k w)"
    by (rule nth_mem) (use assms in simp)
  ultimately show ?thesis
    using set_takeWhileD [of "task_at i w" _ ?xs] unfolding run_of_def
    by (metis parallel_iff)
qed

lemma run_of_stops:
  assumes "k + length (run_of mode k w) < rn_last (node w)"
  shows "is_serial_access mode (ta_mode (task_at (k + length (run_of mode k w)) w))"
proof -
  let ?xs = "slice k (rn_last (node w)) (rn_tasks (node w))"
  let ?P = "\<lambda>t. \<not> is_serial_access mode (ta_mode t)"
  have "length (takeWhile ?P ?xs) < length ?xs"
    using assms by (simp add: run_of_def)
  then have "\<not> ?P (?xs ! length (takeWhile ?P ?xs))"
    by (rule nth_length_takeWhile)
  then show ?thesis using assms by (simp add: run_of_def task_at_def)
qed

subsection \<open>\<open>add_task\<close> on a well-formed node\<close>

lemma add_task_eq:
  assumes "rn_last (node w) < node_capacity" and "ta_wait t \<noteq> 0" and "node_shape w"
  shows "add_task t w = Inr
     (if starts_now t (queues_of w)
      then set_fnr (Suc (rn_last (node w)))
        ((push_entry t w)\<lparr>counters := (counters w)(ta_wait t := counters w (ta_wait t) - 1)\<rparr>)
      else push_entry t w)"
proof -
  let ?n = "node w"
  have le: "rn_first ?n \<le> rn_fnr ?n" "rn_fnr ?n \<le> rn_last ?n"
    using assms(3) by (auto simp: node_shape_def Let_def)
  show ?thesis
  proof (cases "rn_fnr ?n = rn_last ?n \<and> rn_first ?n < rn_last ?n")
    case True
    then have "0 < rn_last ?n" and "rn_first ?n < rn_fnr ?n" by linarith+
    then show ?thesis
      using assms le True
      by (auto simp: add_task_def Let_def take_slot_def count_down_def fetch_sub_def
          starts_now_def queues_of_def last_slice parallel_with_def task_at_def set_fnr_def)
  next
    case False
    then show ?thesis
      using assms le
      by (auto simp: add_task_def Let_def take_slot_def count_down_def fetch_sub_def
          starts_now_def queues_of_def set_fnr_def)
  qed
qed

lemma node_counters_update [simp]: "node (w\<lparr>counters := c\<rparr>) = node w"
  by simp

lemma add_task_queues:
  assumes "rn_last (node w) < node_capacity" and "ta_wait t \<noteq> 0" and ok: "node_shape w"
    and "add_task t w = Inr w'"
  shows "queues_of w' = spec_add t (queues_of w)"
proof -
  let ?n = "node w"
  have le: "rn_first ?n \<le> rn_fnr ?n" "rn_fnr ?n \<le> rn_last ?n"
    "rn_last ?n < length (rn_tasks ?n)"
    using ok assms(1) by (auto simp: node_shape_def Let_def)
  have fresh: "(rn_tasks ?n)[rn_last ?n := t] ! rn_last ?n = t"
    using le(3) by simp
  have w': "w' = (if starts_now t (queues_of w)
      then set_fnr (Suc (rn_last (node w)))
        ((push_entry t w)\<lparr>counters := (counters w)(ta_wait t := counters w (ta_wait t) - 1)\<rparr>)
      else push_entry t w)"
    using add_task_eq [OF assms(1,2) ok] assms(4) by simp
  show ?thesis
  proof (cases "starts_now t (queues_of w)")
    case True
    then have "rn_fnr ?n = rn_last ?n"
      using le by (auto simp: starts_now_def queues_of_def)
    with True w' le fresh show ?thesis
      by (simp add: queues_of_def spec_add_def slice_Suc slice_update_out)
  next
    case False
    with w' le fresh show ?thesis
      by (simp add: queues_of_def spec_add_def slice_Suc slice_update_out)
  qed
qed

lemma queues_of_blocked:
  "node_shape w \<Longrightarrow> \<not> starts_now t (queues_of w) \<Longrightarrow> rn_fnr (node w) = rn_last (node w) \<Longrightarrow>
   rn_first (node w) < rn_fnr (node w) \<and>
   is_serial_access (ta_mode t) (ta_mode (rn_tasks (node w) ! (rn_fnr (node w) - 1)))"
  by (cases "rn_first (node w) < rn_fnr (node w)")
    (auto simp: starts_now_def queues_of_def last_slice parallel_with_def node_shape_def Let_def)

lemma add_task_shape:
  assumes "rn_last (node w) < node_capacity" and "ta_wait t \<noteq> 0" and "\<not> ta_removed t"
    and ok: "node_shape w" and "add_task t w = Inr w'"
  shows "node_shape w'"
proof -
  let ?n = "node w"
  note facts = ok [unfolded node_shape_def Let_def]
  have le: "rn_first ?n \<le> rn_fnr ?n" "rn_fnr ?n \<le> rn_last ?n" "length (rn_tasks ?n) = node_capacity"
    using facts by auto
  have w': "w' = (if starts_now t (queues_of w)
      then set_fnr (Suc (rn_last (node w)))
        ((push_entry t w)\<lparr>counters := (counters w)(ta_wait t := counters w (ta_wait t) - 1)\<rparr>)
      else push_entry t w)"
    using add_task_eq [OF assms(1,2) ok] assms(5) by simp
  show ?thesis
  proof (cases "starts_now t (queues_of w)")
    case True
    then have fnr: "rn_fnr ?n = rn_last ?n"
      and par: "rn_first ?n < rn_last ?n \<Longrightarrow> parallel_with t (rn_tasks ?n ! (rn_last ?n - 1))"
      using le by (auto simp: starts_now_def queues_of_def last_slice)
    have "\<not> is_serial_access (ta_mode (rn_tasks ?n ! i)) (ta_mode t)
        \<and> \<not> is_serial_access (ta_mode t) (ta_mode (rn_tasks ?n ! i))"
      if "rn_first ?n \<le> i" "i < rn_last ?n" for i
    proof -
      have p: "ta_mode t = ta_mode (rn_tasks ?n ! (rn_last ?n - 1)) \<and> ta_mode t \<noteq> Write"
        using par that by (auto simp: parallel_with_def parallel_iff)
      have "ta_mode (rn_tasks ?n ! i) = ta_mode (rn_tasks ?n ! (rn_last ?n - 1))"
        using facts fnr that by (cases "i = rn_last ?n - 1") (auto simp: parallel_iff)
      with p show ?thesis unfolding parallel_iff by metis
    qed
    with True w' facts assms(1,2,3) fnr show ?thesis
      by (auto simp: node_shape_def Let_def nth_list_update less_Suc_eq)
  next
    case False
    have "rn_fnr ?n = rn_last ?n \<Longrightarrow> rn_first ?n < rn_fnr ?n \<and>
        is_serial_access (ta_mode t) (ta_mode (rn_tasks ?n ! (rn_fnr ?n - 1)))"
      using queues_of_blocked [OF ok False] .
    with False w' facts assms(1,2,3) show ?thesis
      by (auto simp: node_shape_def Let_def nth_list_update less_Suc_eq)
  qed
qed

subsection \<open>\<open>remove_task\<close> of the oldest entry\<close>

text \<open>What \<open>remove_task\<close> computes for the entry at \<open>first\<close> of a well-formed node.\<close>

definition admitted :: "world \<Rightarrow> task_access list" where
  "admitted w =
     (let n = node w in
      if rn_first n + 1 = rn_fnr n \<and> rn_fnr n < rn_last n
      then task_at (rn_fnr n) w # run_of (ta_mode (task_at (rn_fnr n) w)) (rn_fnr n + 1) w
      else [])"

lemma remove_first_eq:
  assumes ok: "node_shape w" and lt: "rn_first (node w) < rn_fnr (node w)"
    and room: "rn_first (node w) + 1 < node_capacity"
    and h: "ta_handle (task_at (rn_first (node w)) w) = h"
  shows "remove_task h w = Inr (set_fnr (rn_fnr (node w) + length (admitted w))
     (fold signal (admitted w) (set_first (rn_first (node w) + 1) w)))"
proof -
  let ?n = "node w"
  let ?w1 = "set_first (rn_first ?n + 1) w"
  note facts = ok [unfolded node_shape_def Let_def]
  have "skip_removed (rn_first ?n + 1) ?w1 =
      Inr (if ta_removed (task_at (rn_first ?n + 1) w) \<and> rn_first ?n + 1 \<noteq> rn_fnr ?n then Returned ?w1
        else Left_loop (ta_removed (task_at (rn_first ?n + 1) w)) (rn_first ?n + 1) ?w1)"
    using room by (subst skip_removed.simps) (simp add: Let_def)
  moreover have "rn_first ?n + 1 \<noteq> rn_fnr ?n \<Longrightarrow> update_ready (rn_first ?n + 1) ?w1 = Inr ?w1"
    by (auto simp: update_ready_def)
  ultimately have *: "remove_task h w = update_ready (rn_first ?n + 1) ?w1"
    using room h by (simp add: remove_task_def finish_removal_def Let_def)
  show ?thesis
  proof (cases "rn_first ?n + 1 = rn_fnr ?n \<and> rn_fnr ?n < rn_last ?n")
    case True
    let ?f = "rn_fnr ?n"
    let ?t = "task_at ?f w"
    let ?w2 = "set_fnr (?f + 1) (signal ?t ?w1)"
    have wait: "ta_wait ?t \<noteq> 0" and cap: "?f < node_capacity"
      using facts True by (auto simp: task_at_def)
    have "update_ready ?f ?w1 = release_all (ta_mode ?t) (?f + 1) False ?w2"
      using True wait cap by (simp add: update_ready_def release_task_eq Let_def)
    also have "\<dots> = Inr (set_fnr (?f + 1 + length (run_of (ta_mode ?t) (?f + 1) ?w2))
        (fold signal (run_of (ta_mode ?t) (?f + 1) ?w2) ?w2))"
      by (rule release_all_eq) (use facts True in \<open>auto simp: task_at_def\<close>)
    also have "run_of (ta_mode ?t) (?f + 1) ?w2 = run_of (ta_mode ?t) (?f + 1) w"
      by (simp add: run_of_def)
    finally show ?thesis
      using * True by (simp add: admitted_def Let_def)
  next
    case False
    then have "admitted w = []" by (auto simp: admitted_def Let_def)
    moreover have "update_ready (rn_first ?n + 1) ?w1 = Inr ?w1"
      using False facts lt by (auto simp: update_ready_def)
    moreover have "set_fnr (rn_fnr ?n) ?w1 = ?w1"
      using set_fnr_same [of ?w1] by simp
    ultimately show ?thesis
      using * by simp
  qed
qed

lemma admitted_spec:
  assumes "node_shape w" and "rn_first (node w) < rn_fnr (node w)"
  shows "admitted w = spec_admitted (queues_of w)"
proof -
  let ?n = "node w"
  have le: "rn_fnr ?n \<le> rn_last ?n" using assms by (auto simp: node_shape_def Let_def)
  have tl: "tl (slice (rn_first ?n) (rn_fnr ?n) (rn_tasks ?n)) =
      slice (rn_first ?n + 1) (rn_fnr ?n) (rn_tasks ?n)"
    using assms(2) by (simp add: slice_Cons)
  show ?thesis
    using assms(2) le tl
    by (cases "rn_fnr ?n < rn_last ?n")
      (auto simp: admitted_def spec_admitted_def queues_of_def Let_def slice_Cons task_at_def
        run_of_def parallel_with_def [abs_def])
qed

lemma length_admitted:
  assumes "node_shape w"
  shows "rn_fnr (node w) + length (admitted w) \<le> rn_last (node w)"
  using assms length_run_of [of "rn_fnr (node w) + 1" _ w]
  by (auto simp: admitted_def Let_def node_shape_def max_def split: if_splits)

lemma remove_first_queues:
  assumes ok: "node_shape w" and lt: "rn_first (node w) < rn_fnr (node w)"
    and w': "w' = set_fnr (rn_fnr (node w) + length (admitted w))
       (fold signal (admitted w) (set_first (rn_first (node w) + 1) w))"
  shows "queues_of w' = spec_retire (queues_of w)"
proof -
  let ?n = "node w"
  let ?k = "length (admitted w)"
  have le: "rn_fnr ?n + ?k \<le> rn_last ?n" by (rule length_admitted [OF ok])
  have split: "slice (rn_fnr ?n) (rn_last ?n) (rn_tasks ?n) =
      slice (rn_fnr ?n) (rn_fnr ?n + ?k) (rn_tasks ?n)
      @ slice (rn_fnr ?n + ?k) (rn_last ?n) (rn_tasks ?n)"
    using le by (simp add: slice_append)
  have "admitted w = take ?k (snd (queues_of w))"
  proof (cases "admitted w = []")
    case False
    then have "snd (queues_of w) \<noteq> []" by (auto simp: admitted_def Let_def queues_of_def split: if_splits)
    then obtain t ts where q: "snd (queues_of w) = t # ts" by (meson list.exhaust)
    with False have "admitted w = t # takeWhile (parallel_with t) ts"
      by (auto simp: admitted_spec [OF ok lt] spec_admitted_def split: if_splits)
    then show ?thesis using q by (simp flip: takeWhile_eq_take)
  qed simp
  then have adm: "admitted w = slice (rn_fnr ?n) (rn_fnr ?n + ?k) (rn_tasks ?n)"
    using split by (simp add: queues_of_def)
  have "slice (rn_first ?n + 1) (rn_fnr ?n + ?k) (rn_tasks ?n) =
      slice (rn_first ?n + 1) (rn_fnr ?n) (rn_tasks ?n) @ admitted w"
    using lt by (subst adm) (simp add: slice_append)
  moreover have "tl (fst (queues_of w)) = slice (rn_first ?n + 1) (rn_fnr ?n) (rn_tasks ?n)"
    using lt by (simp add: queues_of_def slice_Cons)
  moreover have "drop ?k (snd (queues_of w)) = slice (rn_fnr ?n + ?k) (rn_last ?n) (rn_tasks ?n)"
    using split by (simp add: queues_of_def)
  ultimately show ?thesis
    by (simp add: w' queues_of_def [of "set_fnr f v" for f v] spec_retire_def
        flip: admitted_spec [OF ok lt])
qed

lemma remove_first_shape:
  assumes ok: "node_shape w" and lt: "rn_first (node w) < rn_fnr (node w)"
    and w': "w' = set_fnr (rn_fnr (node w) + length (admitted w))
       (fold signal (admitted w) (set_first (rn_first (node w) + 1) w))"
  shows "node_shape w'"
proof -
  let ?n = "node w"
  note facts = ok [unfolded node_shape_def Let_def]
  have n': "node w' = ?n\<lparr>rn_first := rn_first ?n + 1, rn_fnr := rn_fnr ?n + length (admitted w)\<rparr>"
    by (simp add: w' set_fnr_def set_first_def)
  show ?thesis
  proof (cases "rn_first ?n + 1 = rn_fnr ?n \<and> rn_fnr ?n < rn_last ?n")
    case False
    then have "admitted w = []" by (auto simp: admitted_def Let_def)
    with facts lt n' False show ?thesis by (auto simp: node_shape_def Let_def)
  next
    case True
    let ?m = "ta_mode (task_at (rn_fnr ?n) w)"
    let ?f = "rn_fnr ?n + length (admitted w)"
    have adm: "length (admitted w) = Suc (length (run_of ?m (rn_fnr ?n + 1) w))"
      using True by (simp add: admitted_def Let_def)
    have le: "?f \<le> rn_last ?n" by (rule length_admitted [OF ok])
    have mode: "ta_mode (rn_tasks ?n ! i) = ?m \<and> (?m \<noteq> Write \<or> i = rn_fnr ?n \<and> ?f = rn_fnr ?n + 1)"
      if "rn_fnr ?n \<le> i" "i < ?f" for i
      using run_of_parallel [of "rn_fnr ?n + 1" i ?m w] that adm
      by (cases "i = rn_fnr ?n"; cases "?m = Write") (auto simp: task_at_def)
    have stop: "is_serial_access (ta_mode (rn_tasks ?n ! ?f)) ?m" if "?f < rn_last ?n"
      using run_of_stops [of "rn_fnr ?n + 1" ?m w] that adm
      by (auto simp: task_at_def is_serial_access_iff)
    have "\<not> is_serial_access (ta_mode (rn_tasks ?n ! i)) (ta_mode (rn_tasks ?n ! j))"
      if "rn_fnr ?n \<le> i" "i < ?f" "rn_fnr ?n \<le> j" "j < ?f" "i \<noteq> j" for i j
      using mode [OF that(1,2)] mode [OF that(3,4)] that unfolding parallel_iff by auto
    moreover have "is_serial_access (ta_mode (rn_tasks ?n ! ?f)) (ta_mode (rn_tasks ?n ! (?f - 1)))"
      if "?f < rn_last ?n"
      using stop [OF that] mode [of "?f - 1"] adm by simp
    ultimately show ?thesis
      using facts lt n' True le adm by (simp add: node_shape_def Let_def)
  qed
qed

text \<open>With no ready entry removed, none is afterwards.\<close>

lemma add_task_ok:
  assumes "rn_last (node w) < node_capacity" and "ta_wait t \<noteq> 0" and "\<not> ta_removed t"
    and ok: "node_ok w" and w': "add_task t w = Inr w'"
  shows "node_ok w'"
proof -
  have s: "node_shape w" and u: "ready_unremoved w" using ok by (simp_all add: node_ok_iff)
  have le: "rn_fnr (node w) \<le> rn_last (node w)" "length (rn_tasks (node w)) = node_capacity"
    using s by (auto simp: node_shape_def Let_def)
  have "starts_now t (queues_of w) \<Longrightarrow> rn_fnr (node w) = rn_last (node w)"
    using le by (auto simp: starts_now_def queues_of_def)
  then have "ready_unremoved w'"
    using w' add_task_eq [OF assms(1,2) s] u le assms(1,3)
    by (auto simp: ready_unremoved_def nth_list_update less_Suc_eq split: if_splits)
  then show ?thesis using add_task_shape [OF assms(1-3) s w'] by (simp add: node_ok_iff)
qed

lemma remove_first_ok:
  assumes ok: "node_ok w" and lt: "rn_first (node w) < rn_fnr (node w)"
    and w': "w' = set_fnr (rn_fnr (node w) + length (admitted w))
       (fold signal (admitted w) (set_first (rn_first (node w) + 1) w))"
  shows "node_ok w'"
proof -
  have s: "node_shape w" by (rule node_ok_shape [OF ok])
  have "rn_fnr (node w) + length (admitted w) \<le> node_capacity"
    using length_admitted [OF s] s by (simp add: node_shape_def Let_def)
  then have "ready_unremoved w'"
    using ok by (auto simp: ready_unremoved_def node_ok_def Let_def w')
  then show ?thesis using remove_first_shape [OF s lt w'] by (simp add: node_ok_iff)
qed

lemma remove_needs_room:
  assumes "remove_task h w = Inr w'" and "ta_handle (task_at (rn_first (node w)) w) = h"
  shows "rn_first (node w) + 1 < node_capacity"
proof (rule ccontr)
  assume full: "\<not> rn_first (node w) + 1 < node_capacity"
  then have "skip_removed (rn_first (node w) + 1) v = Inl (OutOfBounds (rn_first (node w) + 1))" for v
    by (subst skip_removed.simps) simp
  then show False using assms by (simp add: remove_task_def finish_removal_def Let_def split: if_splits)
qed

subsection \<open>\<open>remove_task\<close> of another entry\<close>

text \<open>The search marks the first entry behind \<open>first\<close> that has the handle, and gives up at its exchange.\<close>

lemma find_entry_hit:
  assumes "rn_first (node w) < cur" and "cur \<le> k" and "k < fnr" and "fnr \<le> node_capacity"
    and "ta_handle (task_at k w) = h"
  shows "\<exists>j \<ge> cur. j < fnr \<and> ta_handle (task_at j w) = h \<and> find_entry h cur fnr w = Inr (Returned (mark_removed j w))"
  using assms
proof (induction "k - cur" arbitrary: cur)
  case 0
  then show ?case
    by (intro exI [of _ cur]) (subst find_entry.simps, auto)
next
  case (Suc d)
  show ?case
  proof (cases "ta_handle (task_at cur w) = h")
    case True
    with Suc.prems show ?thesis
      by (intro exI [of _ cur]) (subst find_entry.simps, auto)
  next
    case False
    from Suc.hyps(2) Suc.prems
    have "\<exists>j \<ge> cur + 1. j < fnr \<and> ta_handle (task_at j w) = h \<and> find_entry h (cur + 1) fnr w = Inr (Returned (mark_removed j w))"
      by (intro Suc.hyps(1)) auto
    moreover have "find_entry h cur fnr w = find_entry h (cur + 1) fnr w"
      using False Suc.prems by (subst find_entry.simps) auto
    ultimately show ?thesis by (metis add_leD1)
  qed
qed

text \<open>Removing a ready entry that is not the oldest only marks an entry.\<close>

lemma remove_behind_first:
  assumes "rn_first (node w) < k" and "k < rn_fnr (node w)" and "rn_fnr (node w) \<le> node_capacity"
    and "ta_handle (task_at k w) \<noteq> ta_handle (task_at (rn_first (node w)) w)"
  shows "\<exists>j. rn_first (node w) < j \<and> j < rn_fnr (node w) \<and> ta_handle (task_at j w) = ta_handle (task_at k w) \<and>
     remove_task (ta_handle (task_at k w)) w = Inr (mark_removed j w)"
proof -
  obtain j where "j \<ge> rn_first (node w) + 1" and "j < rn_fnr (node w)" and "ta_handle (task_at j w) = ta_handle (task_at k w)"
    and "find_entry (ta_handle (task_at k w)) (rn_first (node w) + 1) (rn_fnr (node w)) w =
      Inr (Returned (mark_removed j w))"
    using find_entry_hit [of w "rn_first (node w) + 1" k "rn_fnr (node w)"] assms by auto
  then show ?thesis
    using assms by (intro exI [of _ j]) (auto simp: remove_task_def finish_removal_def Let_def)
qed

lemma mark_removed_shape:
  assumes "node_shape w" and "j < rn_fnr (node w)"
  shows "node_shape (mark_removed j w)"
proof -
  have "ta_mode (rn_tasks (node (mark_removed j w)) ! k) = ta_mode (rn_tasks (node w) ! k) \<and>
      ta_wait (rn_tasks (node (mark_removed j w)) ! k) = ta_wait (rn_tasks (node w) ! k) \<and>
      (j \<noteq> k \<longrightarrow> ta_removed (rn_tasks (node (mark_removed j w)) ! k) = ta_removed (rn_tasks (node w) ! k))" for k
    by (cases "j < length (rn_tasks (node w))"; cases "k = j") (simp_all add: mark_removed_def task_at_def list_update_beyond)
  moreover have "length (rn_tasks (node (mark_removed j w))) = length (rn_tasks (node w))"
    by (simp add: mark_removed_def)
  ultimately show ?thesis using assms by (simp add: node_shape_def Let_def)
qed

lemma mark_removed_queues:
  assumes "node_shape w" and "rn_first (node w) \<le> j" and "j < rn_fnr (node w)"
  shows "queues_of (mark_removed j w) =
    ((fst (queues_of w))[j - rn_first (node w) := (task_at j w)\<lparr>ta_removed := True\<rparr>], snd (queues_of w))"
  using assms by (simp add: queues_of_def mark_removed_def node_shape_def Let_def slice_update_in slice_update_out)

end
