(* ===== verification/Resource_Node_Props.thy ===== *)
theory Resource_Node_Props
  imports Resource_Node
begin

section \<open>What a resource queue guarantees, and where it stops\<close>

text \<open>
  The properties of \<open>add_task\<close> and \<open>remove_task\<close>: they implement the grouped first-in
  first-out queue of \<open>spec_add\<close> and \<open>spec_retire\<close> when entries are retired oldest first;
  along any such history the running entries never conflict and something runs whenever
  something waits; retiring everything drains the queue. Then the behaviour outside that
  use: an entry retired out of order strands the queue for good, a handle that is not
  registered starts a conflicting entry, and the last array slot cannot be retired.
\<close>

subsection \<open>Histories that retire oldest first\<close>

text \<open>One operation on a node: a fresh entry is added, or the oldest running task ends.\<close>

inductive node_step :: "world \<Rightarrow> world \<Rightarrow> bool" where
  step_add: "rn_last (node w) < node_capacity \<Longrightarrow> p \<noteq> 0 \<Longrightarrow>
     add_task (make_access h m p) w = Inr w' \<Longrightarrow> node_step w w'"
| step_retire: "rn_first (node w) < rn_fnr (node w) \<Longrightarrow> rn_first (node w) + 1 < node_capacity \<Longrightarrow>
     remove_task (ta_handle (task_at (rn_first (node w)) w)) w = Inr w' \<Longrightarrow> node_step w w'"

definition fresh_world :: "world \<Rightarrow> bool" where
  "fresh_world w \<longleftrightarrow> (\<exists>g uid. node w = new_node g uid)"

lemma make_access_simps [simp]:
  "ta_handle (make_access h m p) = h" "ta_wait (make_access h m p) = p"
  "ta_mode (make_access h m p) = m" "\<not> ta_removed (make_access h m p)"
  by (simp_all add: make_access_def)

lemma node_step_ok: "node_step w w' \<Longrightarrow> node_ok w \<Longrightarrow> node_ok w'"
proof (induction rule: node_step.induct)
  case (step_add w p h m w')
  then show ?case using add_task_ok [of w "make_access h m p" w'] by simp
next
  case (step_retire w w')
  then show ?case using remove_first_ok [of w] remove_first_eq [of w] node_ok_shape by simp
qed

interpretation fifo: invariant_system fresh_world node_step node_ok
  by unfold_locales (auto simp: fresh_world_def node_ok_new node_step_ok)

subsection \<open>Properties\<close>

text \<open>
  C6. Adding a task to a queue with room implements the contract: the new entry joins the
  running group exactly when nothing waits and it does not conflict with the newest running
  entry, and then its wait counter is decremented once; otherwise it is appended to the
  waiting entries and no counter changes. No handle is passed to the pool.
\<close>

theorem add_task_refines:
  assumes "node_ok w" and "rn_last (node w) < node_capacity" and "p \<noteq> 0"
  shows "\<exists>w'. add_task (make_access h m p) w = Inr w' \<and> node_ok w' \<and>
     queues_of w' = spec_add (make_access h m p) (queues_of w) \<and>
     counters w' = (if starts_now (make_access h m p) (queues_of w)
       then (counters w)(p := counters w p - 1) else counters w) \<and>
     added w' = added w"
proof -
  let ?t = "make_access h m p"
  have room: "rn_last (node w) < node_capacity" "ta_wait ?t \<noteq> 0" "\<not> ta_removed ?t"
    using assms by simp_all
  note shape = node_ok_shape [OF assms(1)]
  note eq = add_task_eq [OF room(1,2) shape]
  then obtain w' where w': "add_task ?t w = Inr w'" by auto
  then show ?thesis
    using eq add_task_queues [OF room(1,2) shape w'] add_task_ok [OF room assms(1) w']
    by (auto split: if_splits)
qed

text \<open>A small queue used by the witnesses: a reader runs, a writer and a reader wait.\<close>

definition demo_world :: world where
  "demo_world = \<lparr>node = \<lparr>rn_first = 0, rn_fnr = 1, rn_last = 3, rn_uid = 0,
     rn_tasks = [make_access 11 Read 1, make_access 12 Write 2, make_access 13 Read 3]
       @ replicate 1021 (default_access Read)\<rparr>,
     counters = (\<lambda>_. 1), added = []\<rparr>"

lemma demo_ok: "node_ok demo_world"
  by (auto simp: node_ok_def demo_world_def Let_def node_capacity_def nth_append nth_Cons
      default_access_def is_serial_access_def split: nat.splits)

theorem add_task_refines_witness:
  "\<exists>w'. add_task (make_access 14 Read 4) demo_world = Inr w' \<and> node_ok w' \<and>
     queues_of w' = spec_add (make_access 14 Read 4) (queues_of demo_world) \<and>
     counters w' = (if starts_now (make_access 14 Read 4) (queues_of demo_world)
       then (counters demo_world)(4 := counters demo_world 4 - 1) else counters demo_world) \<and>
     added w' = added demo_world"
  by (rule add_task_refines [OF demo_ok]) (simp_all add: demo_world_def node_capacity_def)

text \<open>
  C7. Retiring the oldest running entry implements the contract: it leaves the running
  group, and if it was the last one, the oldest waiting entry starts together with the run
  of entries behind it that are parallel to it; the wait counters of exactly these are
  decremented, in queue order, and those whose counter was 1 are handed to the pool.
\<close>

theorem remove_oldest_refines:
  assumes "node_ok w" and "rn_first (node w) < rn_fnr (node w)"
    and "rn_first (node w) + 1 < node_capacity"
    and "ta_handle (task_at (rn_first (node w)) w) = h"
  shows "\<exists>w'. remove_task h w = Inr w' \<and> node_ok w' \<and>
     queues_of w' = spec_retire (queues_of w) \<and>
     counters w' = counters (fold signal (spec_admitted (queues_of w)) w) \<and>
     added w' = added (fold signal (spec_admitted (queues_of w)) w)"
proof -
  let ?w' = "set_fnr (rn_fnr (node w) + length (admitted w))
     (fold signal (admitted w) (set_first (rn_first (node w) + 1) w))"
  have "signal t (set_first f v) = set_first f (signal t v)" for t f v
    by (simp add: signal_def set_first_def Let_def)
  then have "fold signal ts (set_first f v) = set_first f (fold signal ts v)" for ts f v
    by (induction ts arbitrary: v) simp_all
  then show ?thesis
    using remove_first_eq [OF node_ok_shape [OF assms(1)] assms(2-)]
      remove_first_queues [OF node_ok_shape [OF assms(1)] assms(2) refl]
      remove_first_ok [OF assms(1,2) refl] admitted_spec [OF node_ok_shape [OF assms(1)] assms(2)]
    by (intro exI [of _ ?w']) simp
qed

theorem remove_oldest_refines_witness:
  "\<exists>w'. remove_task 11 demo_world = Inr w' \<and> node_ok w' \<and>
     queues_of w' = spec_retire (queues_of demo_world) \<and>
     counters w' = counters (fold signal (spec_admitted (queues_of demo_world)) demo_world) \<and>
     added w' = added (fold signal (spec_admitted (queues_of demo_world)) demo_world)"
  by (rule remove_oldest_refines [OF demo_ok])
    (simp_all add: demo_world_def node_capacity_def task_at_def)

text \<open>
  Mutual exclusion: in every world reached from a new node by adding tasks and retiring
  the oldest running one, two different running entries never have conflicting modes; so a
  writer runs alone.
\<close>

theorem running_entries_parallel:
  assumes "reach fresh_world node_step w"
    and "i < length (fst (queues_of w))" and "j < length (fst (queues_of w))" and "i \<noteq> j"
  shows "\<not> is_serial_access (ta_mode (fst (queues_of w) ! i)) (ta_mode (fst (queues_of w) ! j))"
  using fifo.reach_inv [OF assms(1)] assms(2-) by (simp add: node_ok_def queues_of_def Let_def)

text \<open>Adding to a reachable node, on the queues.\<close>

lemma reach_add:
  assumes "reach fresh_world node_step w" and "rn_last (node w) < node_capacity" and "p \<noteq> 0"
  shows "\<exists>w'. reach fresh_world node_step w' \<and>
     queues_of w' = spec_add (make_access h m p) (queues_of w) \<and>
     rn_last (node w') = Suc (rn_last (node w))"
proof -
  have ok: "node_shape w" using fifo.reach_inv [OF assms(1)] by (rule node_ok_shape)
  then obtain w' where w': "add_task (make_access h m p) w = Inr w'"
    using add_task_eq [of w "make_access h m p"] assms by fastforce
  then have "rn_last (node w') = Suc (rn_last (node w))"
    using add_task_eq [of w "make_access h m p"] assms ok by (auto split: if_splits)
  moreover have "reach fresh_world node_step w'"
    using assms w' by (blast intro: reach_step step_add)
  ultimately show ?thesis
    using add_task_queues [OF assms(2) _ ok w'] assms(3) by auto
qed

lemma reach_fresh:
  "\<exists>w. reach fresh_world node_step w \<and> queues_of w = ([], []) \<and> rn_last (node w) = 0"
proof -
  let ?w = "\<lparr>node = new_node Read 0, counters = (\<lambda>_. 1), added = []\<rparr>"
  have "reach fresh_world node_step ?w"
    by (rule reach_init) (auto simp: fresh_world_def)
  then show ?thesis by (rule exI [of _ ?w, OF conjI]) (simp add: queues_of_def new_node_def)
qed

lemma reach_readers_writer:
  "\<exists>w. reach fresh_world node_step w \<and> rn_last (node w) = 3 \<and>
     queues_of w = ([make_access 11 Read 1, make_access 12 Read 2], [make_access 13 Write 3])"
proof -
  obtain w where w: "reach fresh_world node_step w" "queues_of w = ([], [])" "rn_last (node w) = 0"
    using reach_fresh by blast
  obtain w1 where w1: "reach fresh_world node_step w1" "rn_last (node w1) = 1"
      "queues_of w1 = ([make_access 11 Read 1], [])"
    using reach_add [OF w(1), of 1 11 Read] w
    by (auto simp: node_capacity_def spec_add_def starts_now_def)
  obtain w2 where w2: "reach fresh_world node_step w2" "rn_last (node w2) = 2"
      "queues_of w2 = ([make_access 11 Read 1, make_access 12 Read 2], [])"
    using reach_add [OF w1(1), of 2 12 Read] w1
    by (auto simp: node_capacity_def spec_add_def starts_now_def parallel_with_def
        is_serial_access_def)
  show ?thesis
    using reach_add [OF w2(1), of 3 13 Write] w2
    by (auto simp: node_capacity_def spec_add_def starts_now_def parallel_with_def
        is_serial_access_def)
qed

theorem running_entries_parallel_witness:
  "\<exists>w. reach fresh_world node_step w \<and> length (fst (queues_of w)) = 2 \<and>
     \<not> is_serial_access (ta_mode (fst (queues_of w) ! 0)) (ta_mode (fst (queues_of w) ! 1))"
proof -
  obtain w where w: "reach fresh_world node_step w"
      "queues_of w = ([make_access 11 Read 1, make_access 12 Read 2], [make_access 13 Write 3])"
    using reach_readers_writer by blast
  then have "\<not> is_serial_access (ta_mode (fst (queues_of w) ! 0)) (ta_mode (fst (queues_of w) ! 1))"
    by (intro running_entries_parallel) auto
  with w show ?thesis by auto
qed

subsection \<open>Draining\<close>

text \<open>Retire the oldest entry \<open>n\<close> times, each time by its own handle.\<close>

fun retire_n :: "nat \<Rightarrow> world \<Rightarrow> node_error + world" where
  "retire_n 0 w = Inr w"
| "retire_n (Suc n) w =
     (case remove_task (ta_handle (task_at (rn_first (node w)) w)) w of
        Inl e \<Rightarrow> Inl e | Inr w' \<Rightarrow> retire_n n w')"

lemma fold_signal_cong:
  "counters v = counters w \<Longrightarrow> added v = added w \<Longrightarrow>
   counters (fold signal ts v) = counters (fold signal ts w) \<and>
   added (fold signal ts v) = added (fold signal ts w)"
  by (induction ts arbitrary: v w) (simp_all add: signal_def Let_def)

lemma drain:
  assumes "node_ok w" and "rn_last (node w) < node_capacity"
    and "rn_last (node w) - rn_first (node w) = n"
  shows "\<exists>w'. retire_n n w = Inr w' \<and> queues_of w' = ([], []) \<and>
     counters w' = counters (fold signal (snd (queues_of w)) w) \<and>
     added w' = added (fold signal (snd (queues_of w)) w)"
  using assms
proof (induction n arbitrary: w)
  case 0
  then show ?case by (auto simp: queues_of_def node_ok_def Let_def)
next
  case (Suc n)
  let ?q = "queues_of w"
  let ?h = "ta_handle (task_at (rn_first (node w)) w)"
  let ?w' = "set_fnr (rn_fnr (node w) + length (admitted w))
     (fold signal (admitted w) (set_first (rn_first (node w) + 1) w))"
  have s: "node_shape w" by (rule node_ok_shape [OF Suc.prems(1)])
  have lt: "rn_first (node w) < rn_fnr (node w)"
    using Suc.prems by (cases "rn_fnr (node w) < rn_last (node w)") (auto simp: node_ok_def Let_def)
  have room: "rn_first (node w) + 1 < node_capacity"
    using Suc.prems by linarith
  note rem = remove_first_eq [OF s lt room refl]
  have eff: "counters ?w' = counters (fold signal (admitted w) w) \<and>
      added ?w' = added (fold signal (admitted w) w)"
    using fold_signal_cong [of "set_first (rn_first (node w) + 1) w" w "admitted w"] by simp
  have adm: "admitted w = spec_admitted ?q" by (rule admitted_spec [OF s lt])
  have "\<exists>w''. retire_n n ?w' = Inr w'' \<and> queues_of w'' = ([], []) \<and>
      counters w'' = counters (fold signal (snd (queues_of ?w')) ?w') \<and>
      added w'' = added (fold signal (snd (queues_of ?w')) ?w')"
    by (rule Suc.IH) (use Suc.prems remove_first_ok [OF Suc.prems(1) lt refl] in auto)
  moreover have "snd (queues_of ?w') = drop (length (admitted w)) (snd ?q)"
    using remove_first_queues [OF s lt refl] adm by (simp add: spec_retire_def)
  moreover have "snd ?q = admitted w @ drop (length (admitted w)) (snd ?q)"
    using admitted_prefix [of ?q] adm by (metis append_take_drop_id)
  ultimately show ?case
    using rem eff fold_signal_cong [of ?w' "fold signal (admitted w) w"
        "drop (length (admitted w)) (snd ?q)"]
    by (metis fold_append comp_apply retire_n.simps(2) sum.simps(6))
qed

text \<open>
  No starvation when entries are retired oldest first: in a reachable world with a free
  slot, retiring as many times as there are entries empties both queues, never fails, and
  releases every waiting entry exactly once, in the order in which they were added.
\<close>

theorem fifo_drains:
  assumes "reach fresh_world node_step w" and "rn_last (node w) < node_capacity"
  shows "\<exists>w'. retire_n (rn_last (node w) - rn_first (node w)) w = Inr w' \<and>
     queues_of w' = ([], []) \<and>
     counters w' = counters (fold signal (snd (queues_of w)) w) \<and>
     added w' = added (fold signal (snd (queues_of w)) w)"
  using drain [OF fifo.reach_inv [OF assms(1)] assms(2) refl] .

theorem fifo_drains_witness:
  "\<exists>w w'. reach fresh_world node_step w \<and> snd (queues_of w) = [make_access 13 Write 3] \<and>
     retire_n (rn_last (node w) - rn_first (node w)) w = Inr w' \<and> queues_of w' = ([], [])"
proof -
  obtain w where w: "reach fresh_world node_step w" "rn_last (node w) = 3"
      "queues_of w = ([make_access 11 Read 1, make_access 12 Read 2], [make_access 13 Write 3])"
    using reach_readers_writer by blast
  then show ?thesis
    using fifo_drains [OF w(1)] by (auto simp: node_capacity_def)
qed

subsection \<open>Retiring out of order\<close>

text \<open>
  A queue is stranded when its oldest entry has already been marked as removed while an
  entry is blocked: the marked entry's task is over, so nobody will retire it again.
\<close>

definition stranded :: "world \<Rightarrow> bool" where
  "stranded w \<longleftrightarrow>
     (let n = node w in
      length (rn_tasks n) = node_capacity \<and> rn_first n < rn_fnr n \<and> rn_fnr n < rn_last n \<and>
      rn_last n \<le> node_capacity \<and> ta_removed (rn_tasks n ! rn_first n))"

text \<open>What may still happen: any task is added, or a task whose entry is ready, other than
  the one at \<open>first\<close>, ends.\<close>

inductive later_step :: "world \<Rightarrow> world \<Rightarrow> bool" where
  later_add: "add_task t w = Inr w' \<Longrightarrow> later_step w w'"
| later_remove: "rn_first (node w) < k \<Longrightarrow> k < rn_fnr (node w) \<Longrightarrow>
     ta_handle (task_at k w) \<noteq> ta_handle (task_at (rn_first (node w)) w) \<Longrightarrow>
     remove_task (ta_handle (task_at k w)) w = Inr w' \<Longrightarrow> later_step w w'"

definition frozen_from :: "world \<Rightarrow> world \<Rightarrow> bool" where
  "frozen_from w v \<longleftrightarrow> stranded v \<and> rn_first (node v) = rn_first (node w) \<and>
     rn_fnr (node v) = rn_fnr (node w) \<and> counters v = counters w \<and> added v = added w"

lemma later_step_frozen: "later_step v v' \<Longrightarrow> frozen_from w v \<Longrightarrow> frozen_from w v'"
proof (induction rule: later_step.induct)
  case (later_add t v v')
  then have "rn_fnr (node v) \<noteq> rn_last (node v)" by (auto simp: frozen_from_def stranded_def Let_def)
  with later_add have "v' = push_entry t v \<and> rn_last (node v) < node_capacity"
    by (auto simp: add_task_def Let_def split: if_splits)
  with later_add.prems show ?case
    by (auto simp: frozen_from_def stranded_def Let_def nth_list_update)
next
  case (later_remove v k v')
  then obtain j where j: "rn_first (node v) < j" "v' = mark_removed j v"
    using remove_behind_first [of v k] by (auto simp: frozen_from_def stranded_def Let_def)
  then have "rn_tasks (node v') ! rn_first (node v) = rn_tasks (node v) ! rn_first (node v)"
    by (simp add: mark_removed_def)
  with j later_remove.prems show ?case
    by (auto simp: frozen_from_def stranded_def Let_def) (simp_all add: mark_removed_def)
qed

interpretation frozen: invariant_system "\<lambda>v. v = w \<and> stranded w" later_step "frozen_from w"
  for w :: world
  by unfold_locales (clarsimp simp: frozen_from_def, rule later_step_frozen)

text \<open>
  When the second oldest of several running tasks ends before the oldest one and an
  entry is blocked, the queue is stranded: after both have ended no counter was decremented,
  no handle was handed to the pool, and \<open>first\<close> rests on an entry already marked as removed.
  The cause is the call \<open>first.compare_exchange_strong(cur, ++cur, ...)\<close>, whose expected
  value is already incremented.
\<close>

theorem out_of_order_strands:
  assumes ok: "node_ok w" and grp: "rn_first (node w) + 1 < rn_fnr (node w)"
    and blk: "rn_fnr (node w) < rn_last (node w)"
    and h1: "ta_handle (task_at (rn_first (node w)) w) = h1"
    and h2: "ta_handle (task_at (rn_first (node w) + 1) w) = h2" and ne: "h1 \<noteq> h2"
  shows "\<exists>w1 w2. remove_task h2 w = Inr w1 \<and> remove_task h1 w1 = Inr w2 \<and> stranded w2 \<and>
     rn_fnr (node w2) = rn_fnr (node w) \<and> counters w2 = counters w \<and> added w2 = added w"
proof -
  let ?f = "rn_first (node w)"
  let ?w1 = "mark_removed (?f + 1) w"
  let ?w2 = "set_first (?f + 1) ?w1"
  have cap: "rn_last (node w) \<le> node_capacity" "length (rn_tasks (node w)) = node_capacity"
    using ok by (auto simp: node_ok_def Let_def)
  have "find_entry h2 (?f + 1) (rn_fnr (node w)) w = Inr (Returned ?w1)"
    using grp blk cap h2 by (subst find_entry.simps) auto
  then have r1: "remove_task h2 w = Inr ?w1"
    using h1 ne grp blk cap by (simp add: remove_task_def finish_removal_def Let_def)
  have t: "task_at ?f ?w1 = task_at ?f w" and m: "ta_removed (task_at (?f + 1) ?w1)"
    using grp blk cap by (simp_all add: task_at_def mark_removed_def)
  have "skip_removed (?f + 1) ?w2 = Inr (Returned ?w2)"
    using grp blk cap m by (subst skip_removed.simps) simp
  then have r2: "remove_task h1 ?w1 = Inr ?w2"
    using h1 t grp blk cap by (simp add: remove_task_def finish_removal_def Let_def)
  show ?thesis
    using r1 r2 grp blk cap m
    by (intro exI [of _ ?w1] exI [of _ ?w2])
      (simp add: stranded_def Let_def task_at_def, simp add: mark_removed_def)
qed

definition two_readers :: world where
  "two_readers = \<lparr>node = \<lparr>rn_first = 0, rn_fnr = 2, rn_last = 3, rn_uid = 0,
     rn_tasks = [make_access 11 Read 1, make_access 12 Read 2, make_access 13 Write 3]
       @ replicate 1021 (default_access Read)\<rparr>,
     counters = (\<lambda>_. 1), added = []\<rparr>"

lemma two_readers_ok: "node_ok two_readers"
  by (auto simp: node_ok_def two_readers_def Let_def node_capacity_def nth_append nth_Cons
      default_access_def is_serial_access_def split: nat.splits)

theorem out_of_order_strands_witness:
  "\<exists>w1 w2. remove_task 12 two_readers = Inr w1 \<and> remove_task 11 w1 = Inr w2 \<and> stranded w2 \<and>
     rn_fnr (node w2) = rn_fnr (node two_readers) \<and> counters w2 = counters two_readers \<and>
     added w2 = added two_readers"
  by (rule out_of_order_strands [OF two_readers_ok]) (simp_all add: two_readers_def task_at_def)

text \<open>
  A stranded queue stays stranded: whatever tasks are added and whichever other ready
  entries end, \<open>first\<close> and \<open>firstNotReady\<close> never move again and no blocked task is ever
  released.
\<close>

theorem stranded_forever:
  assumes "stranded w" and "later_step\<^sup>*\<^sup>* w v"
  shows "stranded v \<and> rn_first (node v) = rn_first (node w) \<and>
     rn_fnr (node v) = rn_fnr (node w) \<and> counters v = counters w \<and> added v = added w"
  using frozen.steps_inv [OF assms(2), of w] assms(1) by (simp add: frozen_from_def)

definition stranded_demo :: world where
  "stranded_demo = \<lparr>node = \<lparr>rn_first = 1, rn_fnr = 2, rn_last = 3, rn_uid = 0,
     rn_tasks = [make_access 11 Read 1, (make_access 12 Read 2)\<lparr>ta_removed := True\<rparr>,
       make_access 13 Write 3] @ replicate 1021 (default_access Read)\<rparr>,
     counters = (\<lambda>_. 1), added = []\<rparr>"

theorem stranded_forever_witness:
  "\<exists>v. add_task (make_access 14 Read 4) stranded_demo = Inr v \<and> stranded v \<and>
     counters v 3 = 1 \<and> added v = []"
proof -
  let ?v = "push_entry (make_access 14 Read 4) stranded_demo"
  have add: "add_task (make_access 14 Read 4) stranded_demo = Inr ?v"
    by (simp add: add_task_def Let_def stranded_demo_def node_capacity_def push_entry_def)
  have "stranded stranded_demo"
    by (simp add: stranded_def Let_def stranded_demo_def node_capacity_def)
  moreover have "later_step\<^sup>*\<^sup>* stranded_demo ?v"
    using add by (blast intro: later_add r_into_rtranclp)
  ultimately have "stranded ?v \<and> counters ?v = counters stranded_demo \<and> added ?v = added stranded_demo"
    using stranded_forever [of stranded_demo ?v] by blast
  with add show ?thesis by (auto simp: stranded_demo_def)
qed

subsection \<open>A handle that is not registered\<close>

lemma find_entry_miss:
  assumes "cur \<le> fnr" and "fnr \<le> node_capacity"
    and "\<forall>k \<in> {cur..<fnr}. ta_handle (task_at k w) \<noteq> h"
  shows "find_entry h cur fnr w = Inr (Left_loop True fnr w)"
  using assms
proof (induction "fnr - cur" arbitrary: cur)
  case 0
  then show ?case by (subst find_entry.simps) simp
next
  case (Suc d)
  then have "find_entry h (cur + 1) fnr w = Inr (Left_loop True fnr w)"
    by (intro Suc.hyps(1)) auto
  with Suc show ?case by (subst find_entry.simps) auto
qed

text \<open>
  The comment on \<open>remove_task\<close> says that the task need not be registered in the node.
  But for a handle that no ready entry has, the search runs to \<open>firstNotReady\<close> and falls
  into the update: the first blocked entry is released although the running entries it
  conflicts with have not ended.
\<close>

theorem remove_unregistered_breaks_exclusion:
  assumes ok: "node_ok w" and blk: "rn_fnr (node w) < rn_last (node w)"
    and un: "\<forall>k \<in> {rn_first (node w)..<rn_fnr (node w)}. ta_handle (task_at k w) \<noteq> h"
  shows "\<exists>w' i j. remove_task h w = Inr w' \<and> rn_first (node w') = rn_first (node w) \<and>
     i < length (fst (queues_of w')) \<and> j < length (fst (queues_of w')) \<and> i \<noteq> j \<and>
     is_serial_access (ta_mode (fst (queues_of w') ! i)) (ta_mode (fst (queues_of w') ! j))"
proof -
  let ?n = "node w"
  let ?f = "rn_fnr ?n"
  let ?t = "task_at ?f w"
  note facts = ok [unfolded node_ok_def Let_def]
  have lt: "rn_first ?n < ?f" and cap: "?f < node_capacity" and w: "ta_wait ?t \<noteq> 0"
    and ser: "is_serial_access (ta_mode (rn_tasks ?n ! ?f)) (ta_mode (rn_tasks ?n ! (?f - 1)))"
    using facts blk by (auto simp: task_at_def)
  let ?w1 = "set_fnr (?f + 1) (signal ?t w)"
  let ?r = "run_of (ta_mode ?t) (?f + 1) ?w1"
  let ?w' = "set_fnr (?f + 1 + length ?r) (fold signal ?r ?w1)"
  have "find_entry h (rn_first ?n + 1) ?f w = Inr (Left_loop True ?f w)"
    by (rule find_entry_miss) (use lt cap un in auto)
  then have "remove_task h w = update_ready ?f w"
    using lt cap un by (auto simp: remove_task_def finish_removal_def Let_def)
  also have "\<dots> = release_all (ta_mode ?t) (?f + 1) False ?w1"
    using blk cap w by (simp add: update_ready_def release_task_eq Let_def)
  also have "\<dots> = Inr ?w'"
    by (rule release_all_eq) (use facts blk in \<open>auto simp: task_at_def\<close>)
  finally have r: "remove_task h w = Inr ?w'" .
  show ?thesis
    by (rule exI [of _ ?w'], rule exI [of _ "?f - rn_first ?n"],
        rule exI [of _ "?f - 1 - rn_first ?n"])
      (use r lt ser in \<open>auto simp: queues_of_def\<close>)
qed

theorem remove_unregistered_breaks_exclusion_witness:
  "\<exists>w' i j. remove_task 99 demo_world = Inr w' \<and> rn_first (node w') = rn_first (node demo_world) \<and>
     i < length (fst (queues_of w')) \<and> j < length (fst (queues_of w')) \<and> i \<noteq> j \<and>
     is_serial_access (ta_mode (fst (queues_of w') ! i)) (ta_mode (fst (queues_of w') ! j))"
  by (rule remove_unregistered_breaks_exclusion [OF demo_ok])
    (auto simp: demo_world_def task_at_def)

subsection \<open>The end of the array\<close>

text \<open>
  The indices never wrap, so a node serves 1024 tasks in its life: the next \<open>add_task\<close>
  writes outside the array, and retiring the entry in the last slot reads outside it.
\<close>

theorem node_exhausted:
  "(rn_last (node w) = node_capacity \<longrightarrow> add_task t w = Inl (OutOfBounds node_capacity)) \<and>
    (rn_first (node w) = node_capacity - 1 \<and> rn_fnr (node w) = node_capacity \<longrightarrow>
       remove_task (ta_handle (task_at (rn_first (node w)) w)) w = Inl (OutOfBounds node_capacity))"
  by (auto simp: add_task_def remove_task_def finish_removal_def skip_removed.simps Let_def
      node_capacity_def)

definition full_world :: world where
  "full_world = \<lparr>node = \<lparr>rn_first = node_capacity - 1, rn_fnr = node_capacity,
     rn_last = node_capacity, rn_uid = 0, rn_tasks = replicate node_capacity (make_access 11 Write 1)\<rparr>,
     counters = (\<lambda>_. 1), added = []\<rparr>"

theorem node_exhausted_witness:
  "add_task (make_access 12 Write 2) full_world = Inl (OutOfBounds node_capacity) \<and>
   remove_task (ta_handle (task_at (rn_first (node full_world)) full_world)) full_world =
     Inl (OutOfBounds node_capacity)"
  using node_exhausted [of full_world "make_access 12 Write 2"] by (simp add: full_world_def)

end
