(* ===== verification/Resource_Node_Conc.thy ===== *)
theory Resource_Node_Conc
  imports Resource_Node
begin

section \<open>A resource queue under interleaving (ResourceNode.hpp)\<close>

text \<open>
  \<open>add_task\<close> and \<open>remove_task\<close> on one node, run concurrently: one thread at a time adds, as the
  comment on \<open>add_task\<close> demands, and any number of threads remove. Every access to \<open>first\<close>,
  \<open>firstNotReady\<close>, \<open>last\<close>, to an entry of the array, to a wait counter and to the pool is one
  step, in the order of the source; steps of different threads interleave. Memory is
  sequentially consistent. An access outside the array or through a null pointer ends the
  thread in a state of its own.
\<close>

subsection \<open>Program counters and state\<close>

datatype add_pc =
    A_idle
  | A_last task_access          \<comment> \<open>load \<open>last\<close>\<close>
  | A_store task_access nat     \<comment> \<open>old_last: move the task into the array\<close>
  | A_publish task_access nat   \<comment> \<open>increment \<open>last\<close>\<close>
  | A_fnr task_access nat       \<comment> \<open>load \<open>firstNotReady\<close>, compare it with old_last\<close>
  | A_first task_access nat     \<comment> \<open>load \<open>first\<close>\<close>
  | A_mode task_access nat      \<comment> \<open>read the mode of the entry before\<close>
  | A_cas task_access nat       \<comment> \<open>compare-exchange \<open>firstNotReady\<close>\<close>
  | A_count task_access nat     \<comment> \<open>decrement the wait counter\<close>
  | A_crash

text \<open>
  The flag of the skipping loop says whether it is the one inside the search, which returns
  when it meets an entry that is not removed. A release knows how it goes on: with the outer
  loop (\<open>None\<close>) or in the inner one, which has loaded \<open>last\<close>.
\<close>

datatype remove_pc =
    R_idle
  | R_first nat                                   \<comment> \<open>handle: load \<open>first\<close>\<close>
  | R_compare nat nat                             \<comment> \<open>handle, cur: compare the handle of the entry\<close>
  | R_advance                                     \<comment> \<open>increment \<open>first\<close>\<close>
  | R_state bool nat                              \<comment> \<open>search, cur: read \<open>remove_state\<close>\<close>
  | R_state_fnr bool nat                          \<comment> \<open>it is set: load \<open>firstNotReady\<close>\<close>
  | R_state_cas bool nat                          \<comment> \<open>compare-exchange \<open>first\<close>\<close>
  | R_scan_fnr nat nat                            \<comment> \<open>handle, cur: load \<open>firstNotReady\<close>\<close>
  | R_scan nat nat nat                            \<comment> \<open>handle, cur, fnr: the search\<close>
  | R_mark nat                                    \<comment> \<open>cur: set \<open>remove_state\<close>\<close>
  | R_mark_cas nat                                \<comment> \<open>cur: compare-exchange \<open>first\<close>\<close>
  | R_fnr nat                                     \<comment> \<open>cur: load \<open>firstNotReady\<close>\<close>
  | R_last nat nat                                \<comment> \<open>cur, fnr: load \<open>last\<close>\<close>
  | R_take nat                                    \<comment> \<open>fnr: compare-exchange \<open>firstNotReady\<close>\<close>
  | R_mode nat                                    \<comment> \<open>fnr: read its mode\<close>
  | R_count nat access_mode "nat option"          \<comment> \<open>fnr, mode: decrement the wait counter\<close>
  | R_push nat access_mode "nat option"           \<comment> \<open>fnr, mode: hand the task to the pool\<close>
  | R_reload access_mode nat bool                 \<comment> \<open>mode, fnr, parallel_exit: load \<open>last\<close>\<close>
  | R_run access_mode nat nat bool                \<comment> \<open>mode, fnr, temp_last, parallel_exit: inner loop\<close>
  | R_run_cas access_mode nat nat                 \<comment> \<open>compare-exchange \<open>firstNotReady\<close>\<close>
  | R_again access_mode nat nat                   \<comment> \<open>load \<open>last\<close>, loop if it has moved\<close>
  | R_crash

text \<open>
  Auxiliary: the index of the entry that a thread was called to remove, the indices for which
  \<open>remove_task\<close> was called, and the indices whose wait counter was decremented, in order.
\<close>

record node_state =
  ns_first :: nat
  ns_fnr :: nat
  ns_last :: nat
  ns_tasks :: "task_access list"
  ns_counters :: "nat \<Rightarrow> u32"
  ns_added :: "nat list"
  ns_adder :: add_pc
  ns_removers :: "nat \<Rightarrow> remove_pc"
  ns_target :: "nat \<Rightarrow> nat"
  ns_called :: "nat set"
  ns_counted :: "nat list"

abbreviation entry :: "node_state \<Rightarrow> nat \<Rightarrow> task_access" where
  "entry s k \<equiv> ns_tasks s ! k"

definition node_start :: "node_state \<Rightarrow> bool" where
  "node_start s \<longleftrightarrow> ns_first s = 0 \<and> ns_fnr s = 0 \<and> ns_last s = 0 \<and>
     (\<exists>g. ns_tasks s = replicate node_capacity (default_access g)) \<and>
     ns_adder s = A_idle \<and> ns_removers s = (\<lambda>_. R_idle) \<and> ns_called s = {} \<and> ns_counted s = []"

subsection \<open>The steps of \<open>add_task\<close>\<close>

definition adder_step :: "node_state \<Rightarrow> node_state option" where
  "adder_step s =
     (case ns_adder s of
        A_idle \<Rightarrow> None
      | A_last t \<Rightarrow> Some (s\<lparr>ns_adder := A_store t (ns_last s)\<rparr>)
      | A_store t old \<Rightarrow>
          if node_capacity \<le> old then Some (s\<lparr>ns_adder := A_crash\<rparr>)
          else Some (s\<lparr>ns_tasks := (ns_tasks s)[old := t], ns_adder := A_publish t old\<rparr>)
      | A_publish t old \<Rightarrow> Some (s\<lparr>ns_last := ns_last s + 1, ns_adder := A_fnr t old\<rparr>)
      | A_fnr t old \<Rightarrow> Some (s\<lparr>ns_adder := (if ns_fnr s = old then A_first t old else A_idle)\<rparr>)
      | A_first t old \<Rightarrow> Some (s\<lparr>ns_adder := (if ns_first s = old then A_cas t old else A_mode t old)\<rparr>)
      | A_mode t old \<Rightarrow>
          if old = 0 then Some (s\<lparr>ns_adder := A_crash\<rparr>)
          else Some (s\<lparr>ns_adder :=
            (if \<not> is_serial_access (ta_mode t) (ta_mode (entry s (old - 1))) then A_cas t old else A_idle)\<rparr>)
      | A_cas t old \<Rightarrow>
          (case compare_exchange (ns_fnr s) old (old + 1) of
             (True, fnr', _) \<Rightarrow> Some (s\<lparr>ns_fnr := fnr', ns_adder := A_count t old\<rparr>)
           | (False, _, _) \<Rightarrow> Some (s\<lparr>ns_adder := A_idle\<rparr>))
      | A_count t old \<Rightarrow>
          if ta_wait t = 0 then Some (s\<lparr>ns_adder := A_crash\<rparr>)
          else Some (s\<lparr>ns_counters := (ns_counters s)(ta_wait t := snd (fetch_sub (ns_counters s (ta_wait t)) 1)),
                 ns_counted := ns_counted s @ [old], ns_adder := A_idle\<rparr>)
      | A_crash \<Rightarrow> None)"

subsection \<open>The steps of \<open>remove_task\<close>\<close>

definition goto :: "nat \<Rightarrow> remove_pc \<Rightarrow> node_state \<Rightarrow> node_state" where
  "goto i pc s = s\<lparr>ns_removers := (ns_removers s)(i := pc)\<rparr>"

text \<open>Where a release goes on, with the index behind the released entry.\<close>

fun after_release :: "nat \<Rightarrow> access_mode \<Rightarrow> nat option \<Rightarrow> remove_pc" where
  "after_release k m None = R_reload m (k + 1) False"
| "after_release k m (Some temp_last) = R_run m (k + 1) temp_last True"

definition remover_step :: "nat \<Rightarrow> node_state \<Rightarrow> node_state option" where
  "remover_step i s =
     (case ns_removers s i of
        R_idle \<Rightarrow> None
      | R_first h \<Rightarrow> Some (goto i (R_compare h (ns_first s)) s)
      | R_compare h cur \<Rightarrow>
          if node_capacity \<le> cur then Some (goto i R_crash s)
          else Some (goto i (if ta_handle (entry s cur) = h then R_advance else R_scan_fnr h (cur + 1)) s)
      | R_advance \<Rightarrow>
          let (old, new) = (ns_first s, ns_first s + 1)
          in Some (goto i (R_state False (old + 1)) (s\<lparr>ns_first := new\<rparr>))
      | R_state search cur \<Rightarrow>
          if node_capacity \<le> cur then Some (goto i R_crash s)
          else Some (goto i (if ta_removed (entry s cur) then R_state_fnr search cur
            else if search then R_idle else R_fnr cur) s)
      | R_state_fnr search cur \<Rightarrow>
          Some (goto i (if cur \<noteq> ns_fnr s then R_state_cas search cur else R_fnr cur) s)
      | R_state_cas search cur \<Rightarrow>
          (case compare_exchange (ns_first s) (cur + 1) (cur + 1) of
             (True, first', cur') \<Rightarrow> Some (goto i (R_state search cur') (s\<lparr>ns_first := first'\<rparr>))
           | (False, _, _) \<Rightarrow> Some (goto i R_idle s))
      | R_scan_fnr h cur \<Rightarrow> Some (goto i (R_scan h cur (ns_fnr s)) s)
      | R_scan h cur fnr \<Rightarrow>
          if cur = fnr then Some (goto i (R_fnr cur) s)
          else if node_capacity \<le> cur then Some (goto i R_crash s)
          else Some (goto i (if ta_handle (entry s cur) = h then R_mark cur else R_scan h (cur + 1) fnr) s)
      | R_mark cur \<Rightarrow>
          Some (goto i (R_mark_cas cur) (s\<lparr>ns_tasks := (ns_tasks s)[cur := (entry s cur)\<lparr>ta_removed := True\<rparr>]\<rparr>))
      | R_mark_cas cur \<Rightarrow>
          (case compare_exchange (ns_first s) (cur + 1) (cur + 1) of
             (True, first', cur') \<Rightarrow> Some (goto i (R_state True cur') (s\<lparr>ns_first := first'\<rparr>))
           | (False, _, _) \<Rightarrow> Some (goto i R_idle s))
      | R_fnr cur \<Rightarrow> Some (goto i (R_last cur (ns_fnr s)) s)
      | R_last cur fnr \<Rightarrow> Some (goto i (if fnr = cur \<and> ns_last s \<noteq> cur then R_take fnr else R_idle) s)
      | R_take fnr \<Rightarrow>
          (case compare_exchange (ns_fnr s) fnr (fnr + 1) of
             (True, fnr', _) \<Rightarrow> Some (goto i (R_mode fnr) (s\<lparr>ns_fnr := fnr'\<rparr>))
           | (False, _, _) \<Rightarrow> Some (goto i R_idle s))
      | R_mode fnr \<Rightarrow>
          if node_capacity \<le> fnr then Some (goto i R_crash s)
          else Some (goto i (R_count fnr (ta_mode (entry s fnr)) None) s)
      | R_count fnr m nx \<Rightarrow>
          let p = ta_wait (entry s fnr) in
          if p = 0 then Some (goto i R_crash s)
          else let (old, new) = fetch_sub (ns_counters s p) 1
            in Some (goto i (if old = 1 then R_push fnr m nx else after_release fnr m nx)
                 (s\<lparr>ns_counters := (ns_counters s)(p := new), ns_counted := ns_counted s @ [fnr]\<rparr>))
      | R_push fnr m nx \<Rightarrow>
          Some (goto i (after_release fnr m nx) (s\<lparr>ns_added := ns_added s @ [ta_handle (entry s fnr)]\<rparr>))
      | R_reload m fnr pe \<Rightarrow> Some (goto i (R_run m fnr (ns_last s) pe) s)
      | R_run m fnr temp_last pe \<Rightarrow>
          if fnr = temp_last then Some (goto i (if \<not> pe then R_idle else R_again m fnr temp_last) s)
          else if node_capacity \<le> fnr then Some (goto i R_crash s)
          else Some (goto i (if \<not> is_serial_access m (ta_mode (entry s fnr)) then R_run_cas m fnr temp_last
            else R_idle) s)
      | R_run_cas m fnr temp_last \<Rightarrow>
          (case compare_exchange (ns_fnr s) fnr (fnr + 1) of
             (True, fnr', _) \<Rightarrow> Some (goto i (R_count fnr m (Some temp_last)) (s\<lparr>ns_fnr := fnr'\<rparr>))
           | (False, _, _) \<Rightarrow> Some (goto i R_idle s))
      | R_again m fnr temp_last \<Rightarrow>
          Some (goto i (if temp_last \<noteq> ns_last s then R_reload m fnr True else R_idle) s)
      | R_crash \<Rightarrow> None)"

text \<open>
  The steps of the system. A task is added with the address of its wait counter and a handle
  that no entry still registered has; \<open>remove_task\<close> is called once for an entry, after it was
  released.
\<close>

inductive node_move :: "node_state \<Rightarrow> node_state \<Rightarrow> bool" where
  call_add: "ns_adder s = A_idle \<Longrightarrow> w \<noteq> 0 \<Longrightarrow>
     \<forall>k \<in> {ns_first s..<ns_last s}. ta_handle (entry s k) \<noteq> h \<Longrightarrow>
     node_move s (s\<lparr>ns_adder := A_last (make_access h m w)\<rparr>)"
| call_remove: "ns_removers s i = R_idle \<Longrightarrow> k < ns_fnr s \<Longrightarrow> k \<notin> ns_called s \<Longrightarrow>
     node_move s (s\<lparr>ns_removers := (ns_removers s)(i := R_first (ta_handle (entry s k))),
       ns_target := (ns_target s)(i := k), ns_called := insert k (ns_called s)\<rparr>)"
| adder_moves: "adder_step s = Some t \<Longrightarrow> node_move s t"
| remover_moves: "remover_step i s = Some t \<Longrightarrow> node_move s t"

inductive_cases node_moveE: "node_move s t"

end
