(* ===== verification/Resource_Node_Inv.thy ===== *)
theory Resource_Node_Inv
  imports Resource_Node_Conc
begin

section \<open>The invariant of an interleaved resource queue\<close>

text \<open>
  What every step of Resource_Node_Conc keeps: the order of the indices, which entries are
  marked and who may mark them, that the running entries are parallel, that each entry is counted
  down once, and that whoever must release the first waiting entry is on the way. The proof is by
  rely and guarantee: a step of one thread is shown to respect what the others rely on.
\<close>

subsection \<open>The invariant\<close>

definition same_task :: "task_access \<Rightarrow> task_access \<Rightarrow> bool" where
  "same_task t u \<longleftrightarrow> ta_handle t = ta_handle u \<and> ta_wait t = ta_wait u \<and> ta_mode t = ta_mode u"

definition indices_ok :: "node_state \<Rightarrow> bool" where
  "indices_ok s \<longleftrightarrow> length (ns_tasks s) = node_capacity \<and> ns_first s \<le> ns_fnr s \<and> ns_fnr s \<le> ns_last s \<and>
     ns_last s \<le> node_capacity \<and> (\<forall>k < ns_last s. ta_wait (entry s k) \<noteq> 0)"

text \<open>Removed entries are released ones at or behind \<open>first\<close>; what \<open>first\<close> has passed was called.\<close>

definition marks_ok :: "node_state \<Rightarrow> bool" where
  "marks_ok s \<longleftrightarrow>
     (\<forall>k < node_capacity. ta_removed (entry s k) \<longrightarrow> ns_first s \<le> k \<and> k < ns_fnr s \<and> k \<in> ns_called s) \<and>
     {..<ns_first s} \<subseteq> ns_called s"

definition names_ok :: "node_state \<Rightarrow> bool" where
  "names_ok s \<longleftrightarrow> inj_on (\<lambda>k. ta_handle (entry s k)) {ns_first s..<ns_last s}"

definition running_parallel :: "node_state \<Rightarrow> bool" where
  "running_parallel s \<longleftrightarrow> (\<forall>j \<in> {ns_first s..<ns_fnr s}. \<forall>k \<in> {ns_first s..<ns_fnr s}. j \<noteq> k \<longrightarrow>
     \<not> is_serial_access (ta_mode (entry s j)) (ta_mode (entry s k)))"

definition counted_ok :: "node_state \<Rightarrow> bool" where
  "counted_ok s \<longleftrightarrow> distinct (ns_counted s) \<and> set (ns_counted s) \<subseteq> {..<ns_fnr s}"

definition new_task :: "node_state \<Rightarrow> task_access \<Rightarrow> bool" where
  "new_task s t \<longleftrightarrow> ta_wait t \<noteq> 0 \<and> \<not> ta_removed t \<and>
     (\<forall>k \<in> {ns_first s..<ns_last s}. ta_handle (entry s k) \<noteq> ta_handle t)"

text \<open>The task that is being added, once it is in the array.\<close>

definition newest :: "node_state \<Rightarrow> task_access \<Rightarrow> nat \<Rightarrow> bool" where
  "newest s t old \<longleftrightarrow> ns_last s = old + 1 \<and> same_task (entry s old) t \<and> ta_wait t \<noteq> 0"

fun adder_ok :: "node_state \<Rightarrow> add_pc \<Rightarrow> bool" where
  "adder_ok s A_idle = True"
| "adder_ok s (A_last t) = new_task s t"
| "adder_ok s (A_store t old) = (old = ns_last s \<and> new_task s t)"
| "adder_ok s (A_publish t old) =
    (old = ns_last s \<and> old < node_capacity \<and> new_task s t \<and> same_task (entry s old) t)"
| "adder_ok s (A_fnr t old) = newest s t old"
| "adder_ok s (A_first t old) = (newest s t old \<and> old \<le> ns_fnr s \<and> (old = 0 \<longrightarrow> ns_fnr s = 0))"
| "adder_ok s (A_mode t old) = (newest s t old \<and> old \<le> ns_fnr s \<and> 0 < old)"
| "adder_ok s (A_cas t old) =
    (newest s t old \<and> old \<le> ns_fnr s \<and>
     (ns_fnr s = old \<longrightarrow> ns_first s = old \<or>
        0 < old \<and> \<not> is_serial_access (ta_mode t) (ta_mode (entry s (old - 1)))))"
| "adder_ok s (A_count t old) = (newest s t old \<and> old < ns_fnr s \<and> old \<notin> set (ns_counted s))"
| "adder_ok s A_crash = (node_capacity \<le> ns_last s)"

text \<open>
  Before it has marked its entry or moved \<open>first\<close> over it, a thread's entry is a released one
  that nobody else removes.
\<close>

fun holds_target :: "remove_pc \<Rightarrow> bool" where
  "holds_target (R_first h) = True" | "holds_target (R_compare h cur) = True" | "holds_target R_advance = True"
| "holds_target (R_scan_fnr h cur) = True" | "holds_target (R_scan h cur fnr) = True"
| "holds_target (R_mark cur) = True" | "holds_target (R_mark_cas cur) = True" | "holds_target pc = False"

fun unmarked_target :: "remove_pc \<Rightarrow> bool" where
  "unmarked_target (R_mark_cas cur) = False" | "unmarked_target pc = holds_target pc"

definition target_ok :: "node_state \<Rightarrow> nat \<Rightarrow> bool" where
  "target_ok s k \<longleftrightarrow> ns_first s \<le> k \<and> k < ns_fnr s \<and> k \<in> ns_called s"

text \<open>From an index on, only the thread's own entry has its handle.\<close>

definition only_own :: "node_state \<Rightarrow> nat \<Rightarrow> nat \<Rightarrow> nat \<Rightarrow> bool" where
  "only_own s k h cur \<longleftrightarrow> h = ta_handle (entry s k) \<and> cur \<le> k \<and>
     (\<forall>j \<in> {cur..<ns_last s}. ta_handle (entry s j) = h \<longrightarrow> j = k)"

definition released_mode :: "node_state \<Rightarrow> access_mode \<Rightarrow> nat \<Rightarrow> bool" where
  "released_mode s m x \<longleftrightarrow> 0 < x \<and> x \<le> ns_fnr s \<and> m = ta_mode (entry s (x - 1))"

definition limit_ok :: "node_state \<Rightarrow> nat \<Rightarrow> nat option \<Rightarrow> bool" where
  "limit_ok s x nx \<longleftrightarrow> (case nx of None \<Rightarrow> True | Some lim \<Rightarrow> x \<le> lim \<and> lim \<le> ns_last s)"

fun remover_ok :: "node_state \<Rightarrow> nat \<Rightarrow> remove_pc \<Rightarrow> bool" where
  "remover_ok s k R_idle = True"
| "remover_ok s k (R_first h) = (h = ta_handle (entry s k))"
| "remover_ok s k (R_compare h cur) = (only_own s k h cur \<and> cur \<le> ns_first s)"
| "remover_ok s k R_advance = (ns_first s = k)"
| "remover_ok s k (R_state search cur) = (\<not> search \<and> 0 < cur \<and> cur \<le> ns_first s)"
| "remover_ok s k (R_state_fnr search cur) = (\<not> search \<and> 0 < cur \<and> cur \<le> ns_first s \<and>
     ta_removed (entry s cur) \<and> cur < ns_fnr s)"
| "remover_ok s k (R_state_cas search cur) = (\<not> search \<and> ta_removed (entry s cur) \<and> cur < ns_fnr s)"
| "remover_ok s k (R_scan_fnr h cur) = only_own s k h cur"
| "remover_ok s k (R_scan h cur fnr) = (only_own s k h cur \<and> k < fnr)"
| "remover_ok s k (R_mark cur) = (cur = k)"
| "remover_ok s k (R_mark_cas cur) = (cur = k)"
| "remover_ok s k (R_fnr cur) = (0 < cur \<and> cur \<le> ns_first s)"
| "remover_ok s k (R_last cur fnr) = (0 < cur \<and> cur \<le> ns_first s)"
| "remover_ok s k (R_take fnr) = (0 < fnr \<and> fnr \<le> ns_first s \<and> fnr < ns_last s)"
| "remover_ok s k (R_mode fnr) = (fnr < ns_fnr s \<and> fnr \<notin> set (ns_counted s))"
| "remover_ok s k (R_count fnr m nx) = (released_mode s m (fnr + 1) \<and> limit_ok s (fnr + 1) nx \<and>
     fnr \<notin> set (ns_counted s))"
| "remover_ok s k (R_push fnr m nx) = (released_mode s m (fnr + 1) \<and> limit_ok s (fnr + 1) nx)"
| "remover_ok s k (R_reload m x pe) = released_mode s m x"
| "remover_ok s k (R_run m x lim pe) = (released_mode s m x \<and> limit_ok s x (Some lim))"
| "remover_ok s k (R_run_cas m x lim) = (released_mode s m x \<and> limit_ok s (x + 1) (Some lim) \<and>
     \<not> is_serial_access m (ta_mode (entry s x)))"
| "remover_ok s k (R_again m x lim) = released_mode s m x"
| "remover_ok s k R_crash = (node_capacity \<le> ns_first s)"

text \<open>The index that a thread has released and not yet counted down.\<close>

fun pending :: "remove_pc \<Rightarrow> nat option" where
  "pending (R_mode k) = Some k" | "pending (R_count k m nx) = Some k" | "pending pc = None"

fun adder_pending :: "add_pc \<Rightarrow> nat option" where
  "adder_pending (A_count t old) = Some old" | "adder_pending pc = None"

text \<open>A thread that will release the first waiting entry unless another one does.\<close>

fun adder_will_take :: "nat \<Rightarrow> add_pc \<Rightarrow> bool" where
  "adder_will_take f (A_fnr t old) = (old = f)" | "adder_will_take f (A_first t old) = (old = f)"
| "adder_will_take f (A_cas t old) = (old = f)" | "adder_will_take f pc = False"

fun will_take :: "nat \<Rightarrow> remove_pc \<Rightarrow> bool" where
  "will_take f (R_state search cur) = (cur = f)" | "will_take f (R_fnr cur) = (cur = f)"
| "will_take f (R_last cur fnr) = (cur = f \<and> fnr = f)" | "will_take f (R_take fnr) = (fnr = f)"
| "will_take f pc = False"

definition shared_ok :: "node_state \<Rightarrow> bool" where
  "shared_ok s \<longleftrightarrow> indices_ok s \<and> marks_ok s \<and> names_ok s \<and> running_parallel s \<and> counted_ok s"

definition remover_at :: "node_state \<Rightarrow> nat \<Rightarrow> remove_pc \<Rightarrow> bool" where
  "remover_at s k pc \<longleftrightarrow> remover_ok s k pc \<and> (holds_target pc \<longrightarrow> target_ok s k) \<and>
     (unmarked_target pc \<longrightarrow> \<not> ta_removed (entry s k))"

definition removers_ok :: "node_state \<Rightarrow> bool" where
  "removers_ok s \<longleftrightarrow> (\<forall>i. remover_at s (ns_target s i) (ns_removers s i))"

definition targets_distinct :: "node_state \<Rightarrow> bool" where
  "targets_distinct s \<longleftrightarrow> (\<forall>i j. i \<noteq> j \<and> holds_target (ns_removers s i) \<and> holds_target (ns_removers s j) \<longrightarrow>
     ns_target s i \<noteq> ns_target s j)"

definition pending_distinct :: "node_state \<Rightarrow> bool" where
  "pending_distinct s \<longleftrightarrow> (\<forall>i k. pending (ns_removers s i) = Some k \<longrightarrow>
     adder_pending (ns_adder s) \<noteq> Some k \<and> (\<forall>j. j \<noteq> i \<longrightarrow> pending (ns_removers s j) \<noteq> Some k))"

definition nothing_forgotten :: "node_state \<Rightarrow> bool" where
  "nothing_forgotten s \<longleftrightarrow> (ns_first s = ns_fnr s \<and> ns_fnr s < ns_last s \<longrightarrow>
     adder_will_take (ns_fnr s) (ns_adder s) \<or> (\<exists>i. will_take (ns_fnr s) (ns_removers s i)))"

definition node_inv :: "node_state \<Rightarrow> bool" where
  "node_inv s \<longleftrightarrow> shared_ok s \<and> adder_ok s (ns_adder s) \<and> removers_ok s \<and> targets_distinct s \<and>
     pending_distinct s \<and> nothing_forgotten s"

lemma node_inv_init: "node_start s \<Longrightarrow> node_inv s"
  by (auto simp: node_start_def node_inv_def shared_ok_def indices_ok_def marks_ok_def names_ok_def
      running_parallel_def counted_ok_def removers_ok_def remover_at_def targets_distinct_def pending_distinct_def
      nothing_forgotten_def node_capacity_def default_access_def)

subsection \<open>What the other threads may do\<close>

text \<open>
  A thread at \<open>pc\<close> with entry \<open>k\<close> keeps its part of the invariant when the indices grow, entries
  keep their tasks, its own entry is neither passed nor marked by others, new entries have
  other handles, and nobody counts down what it is about to count down.
\<close>

definition rely :: "nat \<Rightarrow> remove_pc \<Rightarrow> node_state \<Rightarrow> node_state \<Rightarrow> bool" where
  "rely k pc s s' \<longleftrightarrow> ns_first s \<le> ns_first s' \<and> ns_fnr s \<le> ns_fnr s' \<and> ns_last s \<le> ns_last s' \<and>
     (\<forall>j < ns_last s. same_task (entry s' j) (entry s j) \<and>
        (ta_removed (entry s j) \<longrightarrow> ta_removed (entry s' j))) \<and>
     ns_called s \<subseteq> ns_called s' \<and>
     (holds_target pc \<longrightarrow> ns_first s' \<le> k) \<and>
     (unmarked_target pc \<longrightarrow> \<not> ta_removed (entry s' k) \<and>
        (\<forall>j \<in> {ns_last s..<ns_last s'}. ta_handle (entry s' j) \<noteq> ta_handle (entry s k))) \<and>
     (\<forall>j. pending pc = Some j \<longrightarrow> j \<notin> set (ns_counted s'))"

lemma unmarked_holds: "unmarked_target pc \<Longrightarrow> holds_target pc"
  by (cases pc) simp_all

lemma rely_entry:
  assumes "rely k pc s s'" and "j < ns_last s"
  shows "ta_handle (entry s' j) = ta_handle (entry s j)" "ta_mode (entry s' j) = ta_mode (entry s j)"
    "ta_wait (entry s' j) = ta_wait (entry s j)"
  using assms by (auto simp: rely_def same_task_def)

lemma only_own_rely:
  assumes ind: "indices_ok s" and r: "rely k pc s s'" and u: "unmarked_target pc" "target_ok s k"
    and own: "only_own s k h cur"
  shows "only_own s' k h cur"
proof -
  have k: "k < ns_last s" using ind u(2) by (simp add: indices_ok_def target_ok_def)
  have "j = k" if j: "j \<in> {cur..<ns_last s'}" "ta_handle (entry s' j) = h" for j
  proof (cases "j < ns_last s")
    case True
    then show ?thesis using own j rely_entry(1) [OF r True] by (auto simp: only_own_def)
  next
    case False
    then have "ta_handle (entry s' j) \<noteq> ta_handle (entry s k)" using r u(1) j(1) by (auto simp: rely_def)
    then show ?thesis using own j(2) by (simp add: only_own_def)
  qed
  then show ?thesis using own rely_entry(1) [OF r k] by (simp add: only_own_def)
qed

lemma released_mode_rely:
  assumes "indices_ok s" and r: "rely k pc s s'" and "released_mode s m x"
  shows "released_mode s' m x"
proof -
  have "x - 1 < ns_last s" "ns_fnr s \<le> ns_fnr s'"
    using assms by (auto simp: released_mode_def indices_ok_def rely_def)
  then show ?thesis using assms(3) rely_entry(2) [OF r] by (simp add: released_mode_def)
qed

lemma limit_ok_rely: "rely k pc s s' \<Longrightarrow> limit_ok s x nx \<Longrightarrow> limit_ok s' x nx"
  by (auto simp: limit_ok_def rely_def split: option.splits)

lemma removed_rely:
  "indices_ok s \<Longrightarrow> rely k pc s s' \<Longrightarrow> ta_removed (entry s cur) \<Longrightarrow> cur < ns_fnr s \<Longrightarrow>
   ta_removed (entry s' cur) \<and> cur < ns_fnr s'"
  by (auto simp: rely_def indices_ok_def)

lemma remover_rely:
  assumes ind: "indices_ok s" and at: "remover_at s k pc" and r: "rely k pc s s'"
  shows "remover_at s' k pc"
proof -
  have mono: "ns_first s \<le> ns_first s'" "ns_fnr s \<le> ns_fnr s'" "ns_last s \<le> ns_last s'"
    using r by (simp_all add: rely_def)
  have t: "target_ok s' k" if "holds_target pc"
    using at r that by (auto simp: remover_at_def target_ok_def rely_def)
  have own: "only_own s' k h cur" if "unmarked_target pc" "only_own s k h cur" for h cur
    using only_own_rely [OF ind r that(1) _ that(2)] at unmarked_holds [OF that(1)] by (simp add: remover_at_def)
  have un: "\<not> ta_removed (entry s' k)" if "unmarked_target pc" using r that by (simp add: rely_def)
  have kl: "k < ns_last s" if "holds_target pc"
    using at ind that by (auto simp: remover_at_def target_ok_def indices_ok_def)
  have ok: "remover_ok s k pc" using at by (simp add: remover_at_def)
  note rel = released_mode_rely [OF ind r] limit_ok_rely [OF r] removed_rely [OF ind r]
  have "remover_ok s' k pc"
  proof (cases pc)
    case (R_first h)
    then show ?thesis using ok kl rely_entry(1) [OF r] by simp
  next
    case R_advance
    then show ?thesis using ok t mono r by (auto simp: rely_def)
  next
    case (R_run_cas m x lim)
    then have "x < ns_last s" using ok by (simp add: limit_ok_def)
    then show ?thesis using R_run_cas ok rel rely_entry(2) [OF r] by auto
  next
    case (R_mode f)
    then show ?thesis using ok mono r by (auto simp: rely_def)
  next
    case (R_count f m nx)
    then show ?thesis using ok rel r by (auto simp: rely_def)
  qed (use ok own mono rel in \<open>auto\<close>)
  then show ?thesis using t un by (simp add: remover_at_def)
qed

subsection \<open>Steps that keep the invariant\<close>

lemma goto_simps [simp]:
  "ns_first (goto i pc s) = ns_first s" "ns_fnr (goto i pc s) = ns_fnr s" "ns_last (goto i pc s) = ns_last s"
  "ns_tasks (goto i pc s) = ns_tasks s" "ns_adder (goto i pc s) = ns_adder s"
  "ns_removers (goto i pc s) = (ns_removers s)(i := pc)" "ns_target (goto i pc s) = ns_target s"
  "ns_called (goto i pc s) = ns_called s" "ns_counted (goto i pc s) = ns_counted s"
  "ns_counters (goto i pc s) = ns_counters s" "ns_added (goto i pc s) = ns_added s"
  by (simp_all add: goto_def)

text \<open>Everything but the auxiliary and local state of other threads.\<close>

definition same_shared :: "node_state \<Rightarrow> node_state \<Rightarrow> bool" where
  "same_shared s s' \<longleftrightarrow> ns_first s' = ns_first s \<and> ns_fnr s' = ns_fnr s \<and> ns_last s' = ns_last s \<and>
     ns_tasks s' = ns_tasks s \<and> ns_called s' = ns_called s \<and> ns_counted s' = ns_counted s"

lemmas shared_defs = shared_ok_def indices_ok_def marks_ok_def names_ok_def running_parallel_def counted_ok_def

lemma same_shared_cong:
  assumes "same_shared s s'"
  shows "shared_ok s' = shared_ok s" "adder_ok s' a = adder_ok s a" "remover_at s' k pc = remover_at s k pc"
proof -
  have e: "ns_first s' = ns_first s" "ns_fnr s' = ns_fnr s" "ns_last s' = ns_last s" "ns_tasks s' = ns_tasks s"
    "ns_called s' = ns_called s" "ns_counted s' = ns_counted s"
    using assms by (simp_all add: same_shared_def)
  show "shared_ok s' = shared_ok s" by (simp add: shared_defs e)
  show "adder_ok s' a = adder_ok s a" by (cases a) (simp_all add: new_task_def newest_def e)
  have l: "limit_ok s' = limit_ok s" by (simp add: limit_ok_def e fun_eq_iff split: option.split)
  have "remover_ok s' k pc = remover_ok s k pc"
    by (cases pc) (simp_all add: only_own_def released_mode_def l e)
  then show "remover_at s' k pc = remover_at s k pc" by (simp add: remover_at_def target_ok_def e)
qed

text \<open>A thread with entry \<open>k\<close> has not counted down what it is about to count down.\<close>

lemma pending_not_counted: "remover_at s k pc \<Longrightarrow> pending pc = Some j \<Longrightarrow> j \<notin> set (ns_counted s) \<and> j < ns_fnr s"
  by (cases pc) (auto simp: remover_at_def released_mode_def)

lemma rely_same: "same_shared s s' \<Longrightarrow> remover_at s k pc \<Longrightarrow> rely k pc s s'"
  using pending_not_counted [of s k pc]
  by (auto simp: rely_def same_shared_def same_task_def remover_at_def target_ok_def dest: unmarked_holds)

lemma node_inv_parts:
  assumes "node_inv s"
  shows "shared_ok s" "indices_ok s" "adder_ok s (ns_adder s)" "remover_at s (ns_target s i) (ns_removers s i)"
    "targets_distinct s" "pending_distinct s" "nothing_forgotten s"
  using assms by (simp_all add: node_inv_def shared_ok_def removers_ok_def)

text \<open>A step of the remover \<open>i\<close>.\<close>

lemma remover_moves_inv:
  assumes inv: "node_inv s"
    and frame: "ns_target s' = ns_target s" "ns_adder s' = ns_adder s" "ns_removers s' = (ns_removers s)(i := pc')"
    and shared: "shared_ok s'" and adder: "adder_ok s' (ns_adder s)"
    and others: "\<And>j. j \<noteq> i \<Longrightarrow> rely (ns_target s j) (ns_removers s j) s s'"
    and own: "remover_at s' (ns_target s i) pc'"
    and holds: "holds_target pc' \<Longrightarrow> holds_target (ns_removers s i)"
    and pend: "\<And>k. pending pc' = Some k \<Longrightarrow> adder_pending (ns_adder s) \<noteq> Some k \<and>
        (\<forall>j. j \<noteq> i \<longrightarrow> pending (ns_removers s j) \<noteq> Some k)"
    and nf: "nothing_forgotten s'"
  shows "node_inv s'"
proof -
  note parts = node_inv_parts [OF inv]
  have "remover_at s' (ns_target s' j) (ns_removers s' j)" for j
    using remover_rely [OF parts(2,4) others] own frame by (cases "j = i") simp_all
  moreover have "targets_distinct s'"
    unfolding targets_distinct_def
  proof (intro allI impI)
    fix a b assume "a \<noteq> b \<and> holds_target (ns_removers s' a) \<and> holds_target (ns_removers s' b)"
    then have "a \<noteq> b \<and> holds_target (ns_removers s a) \<and> holds_target (ns_removers s b)"
      using holds frame by (auto split: if_splits)
    then show "ns_target s' a \<noteq> ns_target s' b" using parts(5) frame by (simp add: targets_distinct_def)
  qed
  moreover have "pending_distinct s'"
    unfolding pending_distinct_def
  proof (intro allI impI)
    fix a k assume a: "pending (ns_removers s' a) = Some k"
    show "adder_pending (ns_adder s') \<noteq> Some k \<and> (\<forall>j. j \<noteq> a \<longrightarrow> pending (ns_removers s' j) \<noteq> Some k)"
    proof (cases "a = i")
      case True
      then show ?thesis using pend [of k] a frame by auto
    next
      case False
      then have "pending (ns_removers s a) = Some k" using a frame by simp
      then show ?thesis using parts(6) pend [of k] frame False by (auto simp: pending_distinct_def)
    qed
  qed
  ultimately show ?thesis using shared adder frame(2) nf by (simp add: node_inv_def removers_ok_def)
qed

text \<open>A step of the adder.\<close>

lemma adder_moves_inv:
  assumes inv: "node_inv s"
    and frame: "ns_target s' = ns_target s" "ns_removers s' = ns_removers s"
    and shared: "shared_ok s'" and adder: "adder_ok s' (ns_adder s')"
    and others: "\<And>j. rely (ns_target s j) (ns_removers s j) s s'"
    and pend: "\<And>k j. adder_pending (ns_adder s') = Some k \<Longrightarrow> pending (ns_removers s j) \<noteq> Some k"
    and nf: "nothing_forgotten s'"
  shows "node_inv s'"
proof -
  note parts = node_inv_parts [OF inv]
  have "remover_at s' (ns_target s' j) (ns_removers s' j)" for j
    using remover_rely [OF parts(2,4) others] frame by simp
  moreover have "targets_distinct s'" using parts(5) frame by (simp add: targets_distinct_def)
  moreover have "pending_distinct s'" using parts(6) pend frame by (auto simp: pending_distinct_def)
  ultimately show ?thesis using shared adder nf by (simp add: node_inv_def removers_ok_def)
qed

text \<open>A step of a remover that changes nothing shared.\<close>

lemma local_remover_inv:
  assumes inv: "node_inv s" and same: "same_shared s s'"
    and frame: "ns_target s' = ns_target s" "ns_adder s' = ns_adder s" "ns_removers s' = (ns_removers s)(i := pc')"
    and own: "remover_at s (ns_target s i) pc'"
    and holds: "holds_target pc' \<Longrightarrow> holds_target (ns_removers s i)"
    and pend: "\<And>k. pending pc' = Some k \<Longrightarrow> pending (ns_removers s i) = Some k"
    and take: "ns_first s = ns_fnr s \<Longrightarrow> ns_fnr s < ns_last s \<Longrightarrow> will_take (ns_fnr s) (ns_removers s i) \<Longrightarrow>
        will_take (ns_fnr s) pc'"
  shows "node_inv s'"
proof (rule remover_moves_inv [OF inv frame])
  note parts = node_inv_parts [OF inv]
  show "shared_ok s'" "adder_ok s' (ns_adder s)" "remover_at s' (ns_target s i) pc'"
    using parts own same_shared_cong [OF same] by simp_all
  show "rely (ns_target s j) (ns_removers s j) s s'" if "j \<noteq> i" for j by (rule rely_same [OF same parts(4)])
  show "holds_target pc' \<Longrightarrow> holds_target (ns_removers s i)" by (rule holds)
  show "adder_pending (ns_adder s) \<noteq> Some k \<and> (\<forall>j. j \<noteq> i \<longrightarrow> pending (ns_removers s j) \<noteq> Some k)"
    if "pending pc' = Some k" for k
    using parts(6) pend [OF that] by (auto simp: pending_distinct_def)
  have e: "ns_first s' = ns_first s" "ns_fnr s' = ns_fnr s" "ns_last s' = ns_last s"
    using same by (simp_all add: same_shared_def)
  show "nothing_forgotten s'"
    unfolding nothing_forgotten_def e frame
  proof (intro impI)
    assume a: "ns_first s = ns_fnr s \<and> ns_fnr s < ns_last s"
    with parts(7) consider "adder_will_take (ns_fnr s) (ns_adder s)" | j where "will_take (ns_fnr s) (ns_removers s j)"
      by (auto simp: nothing_forgotten_def)
    then show "adder_will_take (ns_fnr s) (ns_adder s) \<or> (\<exists>j. will_take (ns_fnr s) (((ns_removers s)(i := pc')) j))"
    proof cases
      case (2 j)
      then have "will_take (ns_fnr s) (((ns_removers s)(i := pc')) j)" using take a by (cases "j = i") auto
      then show ?thesis by blast
    qed simp
  qed
qed

subsection \<open>The remover keeps the invariant\<close>

text \<open>A removed entry has not been passed: no compare-exchange of \<open>first\<close> with a later value succeeds.\<close>

lemma removed_not_passed:
  "indices_ok s \<Longrightarrow> marks_ok s \<Longrightarrow> ta_removed (entry s cur) \<Longrightarrow> cur < ns_fnr s \<Longrightarrow> ns_first s \<le> cur"
  by (auto simp: indices_ok_def marks_ok_def)

lemma blocked_not_removed:
  "indices_ok s \<Longrightarrow> marks_ok s \<Longrightarrow> cur < node_capacity \<Longrightarrow> ta_removed (entry s cur) \<Longrightarrow> cur < ns_fnr s"
  by (auto simp: marks_ok_def)

text \<open>The steps that change the indices, the entries or the list of what was counted down.\<close>

fun shared_step :: "remove_pc \<Rightarrow> bool" where
  "shared_step R_advance = True" | "shared_step (R_mark cur) = True" | "shared_step (R_take fnr) = True"
| "shared_step (R_count fnr m nx) = True" | "shared_step (R_run_cas m fnr lim) = True" | "shared_step pc = False"

text \<open>What a search finds.\<close>

lemma only_own_hit: "only_own s k h cur \<Longrightarrow> cur < ns_last s \<Longrightarrow> ta_handle (entry s cur) = h \<Longrightarrow> cur = k"
  by (auto simp: only_own_def)

lemma only_own_miss: "only_own s k h cur \<Longrightarrow> ta_handle (entry s cur) \<noteq> h \<Longrightarrow> only_own s k h (cur + 1)"
  by (auto simp: only_own_def) (metis Suc_leI le_neq_implies_less)

definition moves_to :: "nat \<Rightarrow> remove_pc \<Rightarrow> node_state \<Rightarrow> node_state \<Rightarrow> bool" where
  "moves_to i pc s s' \<longleftrightarrow> same_shared s s' \<and> ns_target s' = ns_target s \<and> ns_adder s' = ns_adder s \<and>
     ns_removers s' = (ns_removers s)(i := pc)"

lemma moves_to_goto [simp]: "moves_to i pc s (goto i pc s)" "moves_to i pc s (goto i pc (s\<lparr>ns_added := a\<rparr>))"
  by (simp_all add: moves_to_def same_shared_def)

text \<open>The other steps of a remover: where they go, and what holds there.\<close>

lemma remover_local_step:
  assumes inv: "node_inv s" and step: "remover_step i s = Some s'" and pc: "\<not> shared_step (ns_removers s i)"
  shows "\<exists>pc'. moves_to i pc' s s' \<and> remover_at s (ns_target s i) pc' \<and>
    (holds_target pc' \<longrightarrow> holds_target (ns_removers s i)) \<and>
    pending pc' = pending (ns_removers s i) \<and>
    (ns_fnr s < ns_last s \<and> will_take (ns_fnr s) (ns_removers s i) \<longrightarrow> will_take (ns_fnr s) pc')"
proof -
  note parts = node_inv_parts [OF inv]
  have marks: "marks_ok s" "names_ok s" using parts(1) by (simp_all add: shared_ok_def)
  have lim: "ns_first s \<le> ns_fnr s" "ns_fnr s \<le> ns_last s" "ns_last s \<le> node_capacity"
    using parts(2) by (simp_all add: indices_ok_def)
  let ?k = "ns_target s i"
  have at: "remover_at s ?k (ns_removers s i)" by (rule parts(4))
  show ?thesis
  proof (cases "ns_removers s i")
    case (R_first h)
    have t: "target_ok s ?k" "\<not> ta_removed (entry s ?k)" "h = ta_handle (entry s ?k)"
      using at R_first by (simp_all add: remover_at_def)
    have "only_own s ?k h (ns_first s)"
      using t(1,3) marks(2) lim by (auto simp: only_own_def names_ok_def inj_on_def target_ok_def)
    then show ?thesis using step R_first t
      by (intro exI [of _ "R_compare h (ns_first s)"]) (auto simp: remover_step_def remover_at_def)
  next
    case (R_compare h cur)
    have t: "target_ok s ?k" "\<not> ta_removed (entry s ?k)" "only_own s ?k h cur" "cur \<le> ns_first s"
      using at R_compare by (simp_all add: remover_at_def)
    have c: "cur < ns_last s" "cur < node_capacity" using t(1,3) lim by (auto simp: only_own_def target_ok_def)
    show ?thesis
    proof (cases "ta_handle (entry s cur) = h")
      case True
      then have "ns_first s = ?k" using only_own_hit [OF t(3) c(1)] t(1,4) by (simp add: target_ok_def)
      then show ?thesis using step R_compare t c True
        by (intro exI [of _ R_advance]) (auto simp: remover_step_def remover_at_def)
    next
      case False
      then show ?thesis using step R_compare t c only_own_miss [OF t(3)]
        by (intro exI [of _ "R_scan_fnr h (cur + 1)"]) (auto simp: remover_step_def remover_at_def)
    qed
  next
    case (R_state search cur)
    have t: "\<not> search" "0 < cur" "cur \<le> ns_first s" using at R_state by (simp_all add: remover_at_def)
    show ?thesis
    proof (cases "node_capacity \<le> cur")
      case True
      then show ?thesis using step R_state t lim
        by (intro exI [of _ R_crash]) (auto simp: remover_step_def remover_at_def)
    next
      case False
      then show ?thesis using step R_state t blocked_not_removed [OF parts(2) marks(1), of cur]
        by (intro exI [of _ "if ta_removed (entry s cur) then R_state_fnr search cur else R_fnr cur"])
          (auto simp: remover_step_def remover_at_def)
    qed
  next
    case (R_state_fnr search cur)
    then show ?thesis using step at
      by (intro exI [of _ "R_state_cas search cur"]) (auto simp: remover_step_def remover_at_def)
  next
    case (R_state_cas search cur)
    then have "ns_first s \<noteq> cur + 1" using at removed_not_passed [OF parts(2) marks(1), of cur] by (auto simp: remover_at_def)
    then show ?thesis using R_state_cas step
      by (intro exI [of _ R_idle]) (auto simp: remover_step_def remover_at_def compare_exchange_def)
  next
    case (R_scan_fnr h cur)
    then show ?thesis using step at
      by (intro exI [of _ "R_scan h cur (ns_fnr s)"]) (auto simp: remover_step_def remover_at_def target_ok_def)
  next
    case (R_scan h cur fnr)
    have t: "target_ok s ?k" "\<not> ta_removed (entry s ?k)" "only_own s ?k h cur" "?k < fnr"
      using at R_scan by (simp_all add: remover_at_def)
    have c: "cur < ns_last s" "cur < node_capacity" "cur \<noteq> fnr"
      using t lim by (auto simp: only_own_def target_ok_def)
    then show ?thesis using step R_scan t only_own_miss [OF t(3)] only_own_hit [OF t(3) c(1)]
      by (intro exI [of _ "if ta_handle (entry s cur) = h then R_mark cur else R_scan h (cur + 1) fnr"])
        (auto simp: remover_step_def remover_at_def)
  next
    case (R_mark_cas cur)
    then have "ns_first s \<noteq> cur + 1" using at by (auto simp: remover_at_def target_ok_def)
    then show ?thesis using R_mark_cas step
      by (intro exI [of _ R_idle]) (auto simp: remover_step_def remover_at_def compare_exchange_def)
  next
    case (R_fnr cur)
    then show ?thesis using step at
      by (intro exI [of _ "R_last cur (ns_fnr s)"]) (auto simp: remover_step_def remover_at_def)
  next
    case (R_last cur fnr)
    then show ?thesis using step at lim
      by (intro exI [of _ "if fnr = cur \<and> ns_last s \<noteq> cur then R_take fnr else R_idle"])
        (auto simp: remover_step_def remover_at_def)
  next
    case (R_mode f)
    then show ?thesis using step at lim
      by (intro exI [of _ "R_count f (ta_mode (entry s f)) None"])
        (auto simp: remover_step_def remover_at_def released_mode_def limit_ok_def)
  next
    case (R_push f m nx)
    have "remover_at s ?k (after_release f m nx)" using at R_push by (cases nx) (auto simp: remover_at_def)
    moreover have "\<not> holds_target (after_release f m nx)" "pending (after_release f m nx) = None"
      by (cases nx; simp)+
    moreover have "s' = goto i (after_release f m nx) (s\<lparr>ns_added := ns_added s @ [ta_handle (entry s f)]\<rparr>)"
      using step R_push by (simp add: remover_step_def)
    ultimately show ?thesis using R_push by (intro exI [of _ "after_release f m nx"]) auto
  next
    case (R_reload m x pe)
    then show ?thesis using step at lim
      by (intro exI [of _ "R_run m x (ns_last s) pe"])
        (auto simp: remover_step_def remover_at_def released_mode_def limit_ok_def)
  next
    case (R_run m x l pe)
    have t: "released_mode s m x" "x \<le> l" "l \<le> ns_last s" using at R_run by (simp_all add: remover_at_def limit_ok_def)
    let ?pc = "if x = l then (if \<not> pe then R_idle else R_again m x l)
      else if \<not> is_serial_access m (ta_mode (entry s x)) then R_run_cas m x l else R_idle"
    have "s' = goto i ?pc s" using step R_run t lim by (auto simp: remover_step_def split: if_splits)
    then show ?thesis using t R_run
      by (intro exI [of _ ?pc]) (auto simp: remover_at_def limit_ok_def)
  next
    case (R_again m x l)
    then show ?thesis using step at
      by (intro exI [of _ "if l \<noteq> ns_last s then R_reload m x True else R_idle"])
        (auto simp: remover_step_def remover_at_def)
  qed (use step pc in \<open>simp_all add: remover_step_def\<close>)
qed

lemma remover_local_inv:
  assumes inv: "node_inv s" and step: "remover_step i s = Some s'" and pc: "\<not> shared_step (ns_removers s i)"
  shows "node_inv s'"
proof -
  obtain pc' where l: "moves_to i pc' s s'" "remover_at s (ns_target s i) pc'"
      "holds_target pc' \<longrightarrow> holds_target (ns_removers s i)"
      "pending pc' = pending (ns_removers s i)"
      "ns_fnr s < ns_last s \<and> will_take (ns_fnr s) (ns_removers s i) \<longrightarrow> will_take (ns_fnr s) pc'"
    using remover_local_step [OF assms] by blast
  show ?thesis
    by (rule local_remover_inv [OF inv, of _ i pc']) (use l in \<open>auto simp: moves_to_def\<close>)
qed

text \<open>\<open>firstNotReady\<close> moves over an entry that is parallel to all that run.\<close>

lemma serial_sym: "is_serial_access a b = is_serial_access b a"
  by (auto simp: is_serial_access_iff)

lemma fnr_moves:
  assumes ok: "shared_ok s" and room: "ns_fnr s < ns_last s"
    and par: "\<And>j. ns_first s \<le> j \<Longrightarrow> j < ns_fnr s \<Longrightarrow>
      \<not> is_serial_access (ta_mode (entry s j)) (ta_mode (entry s (ns_fnr s)))"
  shows "shared_ok (s\<lparr>ns_fnr := ns_fnr s + 1\<rparr>)"
proof -
  let ?s = "s\<lparr>ns_fnr := ns_fnr s + 1\<rparr>"
  have p: "running_parallel s" using ok by (simp add: shared_ok_def)
  have "running_parallel ?s"
    unfolding running_parallel_def
  proof (intro ballI impI)
    fix j k assume jk: "j \<in> {ns_first ?s..<ns_fnr ?s}" "k \<in> {ns_first ?s..<ns_fnr ?s}" "j \<noteq> k"
    then consider "j < ns_fnr s" "k < ns_fnr s" | "j = ns_fnr s" "k < ns_fnr s" | "j < ns_fnr s" "k = ns_fnr s"
      by fastforce
    then show "\<not> is_serial_access (ta_mode (entry ?s j)) (ta_mode (entry ?s k))"
    proof cases
      case 1
      then show ?thesis using p jk by (simp add: running_parallel_def)
    next
      case 2
      then show ?thesis using par [of k] jk serial_sym by auto
    next
      case 3
      then show ?thesis using par [of j] jk by auto
    qed
  qed
  moreover have "indices_ok ?s" "names_ok ?s" "counted_ok ?s"
    using ok room by (auto simp: shared_ok_def indices_ok_def names_ok_def counted_ok_def)
  moreover have "marks_ok ?s" using ok by (auto simp: shared_ok_def marks_ok_def)
  ultimately show ?thesis by (simp add: shared_ok_def)
qed

text \<open>What runs next to the newest running entry runs next to all of them.\<close>

lemma parallel_extends:
  assumes "running_parallel s" and par: "\<not> is_serial_access (ta_mode (entry s (ns_fnr s - 1))) m"
    and j: "ns_first s \<le> j" "j < ns_fnr s"
  shows "\<not> is_serial_access (ta_mode (entry s j)) m"
proof (cases "j = ns_fnr s - 1")
  case False
  then have "\<not> is_serial_access (ta_mode (entry s j)) (ta_mode (entry s (ns_fnr s - 1)))"
    using assms(1) j by (simp add: running_parallel_def)
  then show ?thesis using par by (auto simp: is_serial_access_iff)
qed (use par in simp)

text \<open>Entries keep their tasks, only marks are set.\<close>

lemma adder_ok_entries:
  assumes "\<And>j. same_task (entry s' j) (entry s j)" and "ns_first s' = ns_first s" "ns_fnr s' = ns_fnr s"
    "ns_last s' = ns_last s" "ns_counted s' = ns_counted s" and "adder_ok s a"
  shows "adder_ok s' a"
proof -
  have e: "ta_handle (entry s' j) = ta_handle (entry s j)" "ta_wait (entry s' j) = ta_wait (entry s j)"
    "ta_mode (entry s' j) = ta_mode (entry s j)" for j
    using assms(1) [of j] by (simp_all add: same_task_def)
  show ?thesis using assms(2-)
    by (cases a) (simp_all add: new_task_def newest_def same_task_def e)
qed

lemma rely_refl_parts:
  assumes "remover_at s k pc"
  shows "holds_target pc \<Longrightarrow> ns_first s \<le> k" "unmarked_target pc \<Longrightarrow> \<not> ta_removed (entry s k)"
    "pending pc = Some j \<Longrightarrow> j \<notin> set (ns_counted s)" "pending pc = Some j \<Longrightarrow> j < ns_fnr s"
  using assms pending_not_counted [OF assms, of j] by (auto simp: remover_at_def target_ok_def)

lemma same_task_refl [simp]: "same_task t t"
  by (simp add: same_task_def)

lemma advance_inv:
  assumes inv: "node_inv s" and pc: "ns_removers s i = R_advance"
  shows "node_inv (goto i (R_state False (ns_first s + 1)) (s\<lparr>ns_first := ns_first s + 1\<rparr>))"
    (is "node_inv ?s'")
proof (rule remover_moves_inv [OF inv, of _ i "R_state False (ns_first s + 1)"])
  note parts = node_inv_parts [OF inv]
  let ?k = "ns_target s i"
  have t: "ns_first s = ?k" "?k < ns_fnr s" "?k \<in> ns_called s" "\<not> ta_removed (entry s ?k)"
    using parts(4) [of i] pc by (simp_all add: remover_at_def target_ok_def)
  have sh: "indices_ok s" "marks_ok s" "names_ok s" "running_parallel s" "counted_ok s"
    using parts(1) by (simp_all add: shared_ok_def)
  have "indices_ok ?s'" using sh(1) t by (simp add: indices_ok_def)
  moreover have "marks_ok ?s'"
    using sh(2) t by (auto simp: marks_ok_def lessThan_Suc Suc_le_eq) (metis le_neq_implies_less)
  moreover have "names_ok ?s'" using sh(3) by (auto simp: names_ok_def inj_on_def)
  moreover have "running_parallel ?s'" using sh(4) by (simp add: running_parallel_def)
  moreover have "counted_ok ?s'" using sh(5) by (simp add: counted_ok_def)
  ultimately show "shared_ok ?s'" by (simp add: shared_ok_def)
  show "adder_ok ?s' (ns_adder s)"
    using parts(3) t by (cases "ns_adder s") (auto simp: new_task_def newest_def)
  show "rely (ns_target s j) (ns_removers s j) s ?s'" if "j \<noteq> i" for j
  proof -
    have "ns_first s + 1 \<le> ns_target s j" if h: "holds_target (ns_removers s j)"
    proof -
      have "ns_target s j \<noteq> ?k" using parts(5) \<open>j \<noteq> i\<close> h pc by (simp add: targets_distinct_def)
      then show ?thesis using rely_refl_parts(1) [OF parts(4) h] t(1) by simp
    qed
    then show ?thesis using rely_refl_parts [OF parts(4) [of j]] by (auto simp: rely_def)
  qed
  show "remover_at ?s' ?k (R_state False (ns_first s + 1))" by (simp add: remover_at_def)
  show "nothing_forgotten ?s'" by (auto simp: nothing_forgotten_def)
qed simp_all

lemma still_not_forgotten:
  assumes "nothing_forgotten s" and "ns_removers s' = (ns_removers s)(i := pc')" and "ns_adder s' = ns_adder s"
    and "ns_first s' = ns_first s" "ns_fnr s' = ns_fnr s" "ns_last s' = ns_last s"
    and "\<not> will_take (ns_fnr s) (ns_removers s i)"
  shows "nothing_forgotten s'"
  unfolding nothing_forgotten_def assms(3-6)
proof
  assume "ns_first s = ns_fnr s \<and> ns_fnr s < ns_last s"
  then consider "adder_will_take (ns_fnr s) (ns_adder s)" | j where "will_take (ns_fnr s) (ns_removers s j)"
    using assms(1) by (auto simp: nothing_forgotten_def)
  then show "adder_will_take (ns_fnr s) (ns_adder s) \<or> (\<exists>j. will_take (ns_fnr s) (ns_removers s' j))"
  proof cases
    case (2 j)
    then have "will_take (ns_fnr s) (ns_removers s' j)" using assms(2,7) by auto
    then show ?thesis by blast
  qed simp
qed

lemma mark_inv:
  assumes inv: "node_inv s" and pc: "ns_removers s i = R_mark cur"
  shows "node_inv (goto i (R_mark_cas cur)
    (s\<lparr>ns_tasks := (ns_tasks s)[cur := (entry s cur)\<lparr>ta_removed := True\<rparr>]\<rparr>))" (is "node_inv ?s'")
proof (rule remover_moves_inv [OF inv, of _ i "R_mark_cas cur"])
  note parts = node_inv_parts [OF inv]
  have t: "ns_target s i = cur" "target_ok s cur" using parts(4) [of i] pc by (auto simp: remover_at_def)
  have sh: "indices_ok s" "marks_ok s" "names_ok s" "running_parallel s" "counted_ok s"
    using parts(1) by (simp_all add: shared_ok_def)
  have same: "same_task (entry ?s' j) (entry s j)" for j
    using t(2) sh(1) by (cases "j = cur") (simp_all add: same_task_def target_ok_def indices_ok_def)
  then have e: "ta_handle (entry ?s' j) = ta_handle (entry s j)" "ta_wait (entry ?s' j) = ta_wait (entry s j)"
    "ta_mode (entry ?s' j) = ta_mode (entry s j)" for j
    by (simp_all only: same_task_def)
  have r: "ta_removed (entry ?s' j) = (j = cur \<or> ta_removed (entry s j))" if "j < node_capacity" for j
    using that sh(1) by (cases "j = cur") (simp_all add: indices_ok_def)
  have "indices_ok ?s'" using sh(1) unfolding indices_ok_def e by simp
  moreover have "marks_ok ?s'"
    using sh(2) t(2) unfolding marks_ok_def by (auto simp: r target_ok_def simp del: goto_simps(4)) 
  moreover have "names_ok ?s'" using sh(3) unfolding names_ok_def e by simp
  moreover have "running_parallel ?s'" using sh(4) unfolding running_parallel_def e by simp
  moreover have "counted_ok ?s'" using sh(5) by (simp add: counted_ok_def)
  ultimately show "shared_ok ?s'" by (simp add: shared_ok_def)
  show "adder_ok ?s' (ns_adder s)" by (rule adder_ok_entries [OF same _ _ _ _ parts(3)]) simp_all
  show "rely (ns_target s j) (ns_removers s j) s ?s'" if "j \<noteq> i" for j
  proof -
    have "\<not> ta_removed (entry ?s' (ns_target s j))" if u: "unmarked_target (ns_removers s j)"
    proof -
      have h: "holds_target (ns_removers s j)" by (rule unmarked_holds [OF u])
      then have "ns_target s j \<noteq> cur" using parts(5) \<open>j \<noteq> i\<close> pc t(1) by (auto simp: targets_distinct_def)
      then show ?thesis using rely_refl_parts(2) [OF parts(4) u] by simp
    qed
    moreover have "ta_removed (entry s k) \<longrightarrow> ta_removed (entry ?s' k)" if "k < ns_last s" for k
      using r [of k] that sh(1) by (simp add: indices_ok_def)
    ultimately show ?thesis using rely_refl_parts [OF parts(4) [of j]] same by (simp add: rely_def)
  qed
  show "remover_at ?s' (ns_target s i) (R_mark_cas cur)" using t by (simp add: remover_at_def target_ok_def)
  show "nothing_forgotten ?s'" by (rule still_not_forgotten [OF parts(7), of _ i "R_mark_cas cur"]) (simp_all add: pc)
qed (simp_all add: pc)

text \<open>A successful compare-exchange of \<open>firstNotReady\<close> by a remover.\<close>

lemma release_inv:
  assumes inv: "node_inv s" and room: "ns_fnr s < ns_last s" and pos: "0 < ns_fnr s"
    and par: "\<And>j. ns_first s \<le> j \<Longrightarrow> j < ns_fnr s \<Longrightarrow>
      \<not> is_serial_access (ta_mode (entry s j)) (ta_mode (entry s (ns_fnr s)))"
    and pend: "pending pc' = Some (ns_fnr s)" and holds: "\<not> holds_target pc'"
    and own: "remover_ok (s\<lparr>ns_fnr := ns_fnr s + 1\<rparr>) (ns_target s i) pc'"
  shows "node_inv (goto i pc' (s\<lparr>ns_fnr := ns_fnr s + 1\<rparr>))" (is "node_inv ?s'")
proof (rule remover_moves_inv [OF inv, of _ i pc'])
  note parts = node_inv_parts [OF inv]
  let ?s1 = "s\<lparr>ns_fnr := ns_fnr s + 1\<rparr>"
  have same: "same_shared ?s1 ?s'" by (simp add: same_shared_def)
  show "shared_ok ?s'" using fnr_moves [OF parts(1) room par] same_shared_cong(1) [OF same] by simp
  show "adder_ok ?s' (ns_adder s)"
    using parts(3) pos by (cases "ns_adder s") (auto simp: new_task_def newest_def)
  show "rely (ns_target s j) (ns_removers s j) s ?s'" if "j \<noteq> i" for j
    using rely_refl_parts [OF parts(4) [of j]] by (auto simp: rely_def)
  have "\<not> unmarked_target pc'" using holds unmarked_holds by blast
  then have "remover_at ?s1 (ns_target s i) pc'" using own holds by (simp add: remover_at_def)
  then show "remover_at ?s' (ns_target s i) pc'" by (simp only: same_shared_cong(3) [OF same])
  show "adder_pending (ns_adder s) \<noteq> Some k \<and> (\<forall>j. j \<noteq> i \<longrightarrow> pending (ns_removers s j) \<noteq> Some k)"
    if "pending pc' = Some k" for k
  proof
    show "adder_pending (ns_adder s) \<noteq> Some k" using parts(3) that pend by (cases "ns_adder s") auto
    show "\<forall>j. j \<noteq> i \<longrightarrow> pending (ns_removers s j) \<noteq> Some k"
      using pending_not_counted [OF parts(4)] that pend by fastforce
  qed
  show "nothing_forgotten ?s'" using parts(2) by (simp add: nothing_forgotten_def indices_ok_def)
qed (use holds in simp_all)

lemma take_inv:
  assumes inv: "node_inv s" and pc: "ns_removers s i = R_take f" and step: "remover_step i s = Some s'"
  shows "node_inv s'"
proof -
  note parts = node_inv_parts [OF inv]
  have t: "0 < f" "f \<le> ns_first s" "f < ns_last s" using parts(4) [of i] pc by (simp_all add: remover_at_def)
  have c: "set (ns_counted s) \<subseteq> {..<ns_fnr s}" using parts(1) by (simp add: shared_ok_def counted_ok_def)
  show ?thesis
  proof (cases "ns_fnr s = f")
    case True
    have s': "s' = goto i (R_mode (ns_fnr s)) (s\<lparr>ns_fnr := ns_fnr s + 1\<rparr>)"
      using step pc True by (simp add: remover_step_def compare_exchange_def)
    show ?thesis unfolding s' by (rule release_inv [OF inv]) (use t c True in auto)
  next
    case False
    then have "s' = goto i R_idle s" using step pc by (simp add: remover_step_def compare_exchange_def)
    then show ?thesis
      using False pc by (intro local_remover_inv [OF inv, of s' i R_idle]) (simp_all add: same_shared_def remover_at_def)
  qed
qed

lemma run_cas_inv:
  assumes inv: "node_inv s" and pc: "ns_removers s i = R_run_cas m f l" and step: "remover_step i s = Some s'"
  shows "node_inv s'"
proof -
  note parts = node_inv_parts [OF inv]
  have t: "0 < f" "f \<le> ns_fnr s" "m = ta_mode (entry s (f - 1))" "f + 1 \<le> l" "l \<le> ns_last s"
    "\<not> is_serial_access m (ta_mode (entry s f))"
    using parts(4) [of i] unfolding pc remover_at_def remover_ok.simps released_mode_def limit_ok_def option.case
    by blast+
  have c: "set (ns_counted s) \<subseteq> {..<ns_fnr s}" "running_parallel s"
    using parts(1) by (simp_all add: shared_ok_def counted_ok_def)
  have m: "m = ta_mode (entry s f)" "m \<noteq> Write" using t(6) by (auto simp: is_serial_access_iff)
  show ?thesis
  proof (cases "ns_fnr s = f")
    case True
    have par: "\<not> is_serial_access (ta_mode (entry s j)) (ta_mode (entry s f))" if "ns_first s \<le> j" "j < f" for j
      using parallel_extends [OF c(2), of "ta_mode (entry s f)" j] t(3,6) that \<open>ns_fnr s = f\<close> by simp
    have s': "s' = goto i (R_count (ns_fnr s) m (Some l)) (s\<lparr>ns_fnr := ns_fnr s + 1\<rparr>)"
      using step pc True by (simp add: remover_step_def compare_exchange_def)
    show ?thesis
      unfolding s'
      by (rule release_inv [OF inv]) (use t c True par m in \<open>auto simp: released_mode_def limit_ok_def\<close>)
  next
    case False
    then have "s' = goto i R_idle s" using step pc by (simp add: remover_step_def compare_exchange_def)
    then show ?thesis
      using False pc by (intro local_remover_inv [OF inv, of s' i R_idle]) (simp_all add: same_shared_def remover_at_def)
  qed
qed

lemma counts_released:
  assumes inv: "node_inv s" and pc: "ns_removers s i = R_count f m nx"
  shows "ta_wait (entry s f) \<noteq> 0"
proof -
  have "f < ns_fnr s" using node_inv_parts(4) [OF inv, of i] pc by (simp add: remover_at_def released_mode_def)
  then show ?thesis using node_inv_parts(2) [OF inv] by (simp add: indices_ok_def)
qed

lemma count_inv:
  assumes inv: "node_inv s" and pc: "ns_removers s i = R_count f m nx" and step: "remover_step i s = Some s'"
  shows "node_inv s'"
proof -
  note parts = node_inv_parts [OF inv]
  have t: "released_mode s m (f + 1)" "limit_ok s (f + 1) nx" "f \<notin> set (ns_counted s)"
    using parts(4) [of i] pc by (simp_all add: remover_at_def)
  have f: "f < ns_fnr s" using t(1) by (simp add: released_mode_def)
  have w: "ta_wait (entry s f) \<noteq> 0" by (rule counts_released [OF inv pc])
  obtain pc' c where s': "s' = goto i pc' (s\<lparr>ns_counters := c, ns_counted := ns_counted s @ [f]\<rparr>)"
      and pc': "pc' = R_push f m nx \<or> pc' = after_release f m nx"
    using step pc w by (auto simp: remover_step_def Let_def fetch_sub_def split: if_splits)
  let ?s1 = "s\<lparr>ns_counters := c, ns_counted := ns_counted s @ [f]\<rparr>"
  have l: "limit_ok ?s1 = limit_ok s" "released_mode ?s1 = released_mode s"
    by (simp_all add: limit_ok_def released_mode_def fun_eq_iff split: option.split)
  have p: "\<not> holds_target pc'" "\<not> unmarked_target pc'" "pending pc' = None" "remover_ok s' k pc'" for k
    using pc' t by (cases nx; auto simp: s' l limit_ok_def released_mode_def)+
  show ?thesis
  proof (rule remover_moves_inv [OF inv, of s' i pc'])
    show "shared_ok s'"
      using parts(1) t(3) f by (auto simp: s' shared_defs)
    show "adder_ok s' (ns_adder s)"
    proof (cases "ns_adder s")
      case (A_count u old)
      have "pending (ns_removers s i) = Some f" using pc by simp
      then have "adder_pending (ns_adder s) \<noteq> Some f" using parts(6) unfolding pending_distinct_def by blast
      then have "old \<noteq> f" using A_count by simp
      then show ?thesis using parts(3) A_count by (simp add: s' newest_def)
    qed (use parts(3) in \<open>simp_all add: s' new_task_def newest_def\<close>)
    show "rely (ns_target s j) (ns_removers s j) s s'" if "j \<noteq> i" for j
    proof -
      have "k \<noteq> f" if "pending (ns_removers s j) = Some k" for k
      proof -
        have "pending (ns_removers s i) = Some f" using pc by simp
        then have "pending (ns_removers s j) \<noteq> Some f"
          using parts(6) \<open>j \<noteq> i\<close> unfolding pending_distinct_def by blast
        then show ?thesis using that by auto
      qed
      then show ?thesis using rely_refl_parts [OF parts(4) [of j]] by (auto simp: s' rely_def)
    qed
    show "nothing_forgotten s'"
      by (rule still_not_forgotten [OF parts(7), of _ i pc']) (simp_all add: s' pc)
  qed (use p in \<open>simp_all add: remover_at_def\<close>, simp_all add: s')
qed

lemma remover_step_inv: "node_inv s \<Longrightarrow> remover_step i s = Some s' \<Longrightarrow> node_inv s'"
proof (cases "shared_step (ns_removers s i)")
  case True
  assume inv: "node_inv s" and step: "remover_step i s = Some s'"
  with True show ?thesis
    using advance_inv [OF inv, of i] mark_inv [OF inv, of i] take_inv [OF inv _ step] run_cas_inv [OF inv _ step]
      count_inv [OF inv _ step]
    by (cases "ns_removers s i") (auto simp: remover_step_def)
qed (rule remover_local_inv)

subsection \<open>The adder keeps the invariant\<close>

text \<open>A step of the adder that changes nothing shared, for another program counter.\<close>

lemma local_adder_inv:
  assumes inv: "node_inv s" and own: "adder_ok s a" and pend: "adder_pending a = None"
    and take: "ns_first s = ns_fnr s \<Longrightarrow> ns_fnr s < ns_last s \<Longrightarrow> adder_will_take (ns_fnr s) (ns_adder s) \<Longrightarrow>
        adder_will_take (ns_fnr s) a"
  shows "node_inv (s\<lparr>ns_adder := a\<rparr>)" (is "node_inv ?s'")
proof (rule adder_moves_inv [OF inv])
  note parts = node_inv_parts [OF inv]
  have same: "same_shared s ?s'" by (simp add: same_shared_def)
  show "shared_ok ?s'" using parts(1) by (simp only: same_shared_cong(1) [OF same])
  show "adder_ok ?s' (ns_adder ?s')" using own by (simp add: same_shared_cong(2) [OF same])
  show "rely (ns_target s j) (ns_removers s j) s ?s'" for j by (rule rely_same [OF same parts(4)])
  show "nothing_forgotten ?s'" using parts(7) take by (auto simp: nothing_forgotten_def)
qed (use pend in simp_all)

lemma store_inv:
  assumes inv: "node_inv s" and pc: "ns_adder s = A_store t old" and fits: "old < node_capacity"
  shows "node_inv (s\<lparr>ns_tasks := (ns_tasks s)[old := t], ns_adder := A_publish t old\<rparr>)" (is "node_inv ?s'")
proof (rule adder_moves_inv [OF inv])
  note parts = node_inv_parts [OF inv]
  have t: "old = ns_last s" "new_task s t" using parts(3) pc by simp_all
  have sh: "indices_ok s" "marks_ok s" "names_ok s" "running_parallel s" "counted_ok s"
    using parts(1) by (simp_all add: shared_ok_def)
  have e: "entry ?s' j = entry s j" if "j < ns_last s" for j using that t(1) by simp
  have new: "entry ?s' old = t" using fits sh(1) by (simp add: indices_ok_def)
  have "indices_ok ?s'" using sh(1) t(1) by (simp add: indices_ok_def)
  moreover have "marks_ok ?s'"
  proof -
    have "ta_removed (entry ?s' k) \<longrightarrow> ta_removed (entry s k)" for k
      using t(2) new by (cases "k = old") (simp_all add: new_task_def)
    then show ?thesis using sh(2) by (fastforce simp: marks_ok_def)
  qed
  moreover have "names_ok ?s'" using sh(3) t(1) by (simp add: names_ok_def inj_on_def)
  moreover have "running_parallel ?s'" using sh(1,4) t(1) by (simp add: running_parallel_def indices_ok_def)
  moreover have "counted_ok ?s'" using sh(5) by (simp add: counted_ok_def)
  ultimately show "shared_ok ?s'" by (simp add: shared_ok_def)
  show "adder_ok ?s' (ns_adder ?s')" using t new fits by (simp add: new_task_def)
  show "rely (ns_target s j) (ns_removers s j) s ?s'" for j
  proof -
    have "ns_target s j < ns_last s" if "holds_target (ns_removers s j)"
      using parts(4) [of j] sh(1) that by (simp add: remover_at_def target_ok_def indices_ok_def)
    then show ?thesis
      using rely_refl_parts [OF parts(4) [of j]] e unmarked_holds unfolding rely_def by auto
  qed
  show "nothing_forgotten ?s'" using parts(7) pc by (simp add: nothing_forgotten_def)
qed simp_all

lemma publish_inv:
  assumes inv: "node_inv s" and pc: "ns_adder s = A_publish t old"
  shows "node_inv (s\<lparr>ns_last := ns_last s + 1, ns_adder := A_fnr t old\<rparr>)" (is "node_inv ?s'")
proof (rule adder_moves_inv [OF inv])
  note parts = node_inv_parts [OF inv]
  have t: "old = ns_last s" "old < node_capacity" "new_task s t" "same_task (entry s old) t"
    using parts(3) unfolding pc adder_ok.simps by blast+
  have sh: "indices_ok s" "marks_ok s" "names_ok s" "running_parallel s" "counted_ok s"
    using parts(1) by (simp_all add: shared_ok_def)
  have new: "ta_handle (entry s k) \<noteq> ta_handle (entry s old)" if "k \<in> {ns_first s..<ns_last s}" for k
    using t(3,4) that by (simp add: new_task_def same_task_def)
  have "indices_ok ?s'" using sh(1) t by (auto simp: indices_ok_def less_Suc_eq new_task_def same_task_def)
  moreover have "marks_ok ?s'" using sh(2) by (simp add: marks_ok_def)
  moreover have "names_ok ?s'"
  proof -
    have "{ns_first s..<ns_last s + 1} = insert old {ns_first s..<ns_last s}"
      using sh(1) t(1) by (auto simp: indices_ok_def)
    moreover have "ta_handle (entry s old) \<notin> (\<lambda>k. ta_handle (entry s k)) ` {ns_first s..<ns_last s}"
      using new by (metis (no_types, lifting) imageE)
    ultimately show ?thesis using sh(3) by (auto simp: names_ok_def)
  qed
  moreover have "running_parallel ?s'" using sh(4) by (simp add: running_parallel_def)
  moreover have "counted_ok ?s'" using sh(5) by (simp add: counted_ok_def)
  ultimately show "shared_ok ?s'" by (simp add: shared_ok_def)
  show "adder_ok ?s' (ns_adder ?s')" using t by (simp add: newest_def new_task_def)
  show "rely (ns_target s j) (ns_removers s j) s ?s'" for j
  proof -
    have "ns_target s j \<in> {ns_first s..<ns_last s}" if "holds_target (ns_removers s j)"
      using parts(4) [of j] sh(1) that by (simp add: remover_at_def target_ok_def indices_ok_def)
    then have "ta_handle (entry s old) \<noteq> ta_handle (entry s (ns_target s j))" if "unmarked_target (ns_removers s j)"
      using new unmarked_holds [OF that] by metis
    then show ?thesis using rely_refl_parts [OF parts(4) [of j]] t(1) by (auto simp: rely_def)
  qed
  show "nothing_forgotten ?s'" using parts(7) pc t(1) by (auto simp: nothing_forgotten_def)
qed simp_all

lemma add_cas_inv:
  assumes inv: "node_inv s" and pc: "ns_adder s = A_cas t (ns_fnr s)"
  shows "node_inv (s\<lparr>ns_fnr := ns_fnr s + 1, ns_adder := A_count t (ns_fnr s)\<rparr>)" (is "node_inv ?s'")
proof (rule adder_moves_inv [OF inv])
  note parts = node_inv_parts [OF inv]
  have t: "newest s t (ns_fnr s)" "ns_first s = ns_fnr s \<or>
      0 < ns_fnr s \<and> \<not> is_serial_access (ta_mode t) (ta_mode (entry s (ns_fnr s - 1)))"
    using parts(3) pc by simp_all
  have sh: "running_parallel s" "counted_ok s" using parts(1) by (simp_all add: shared_ok_def)
  have same: "same_shared (s\<lparr>ns_fnr := ns_fnr s + 1\<rparr>) ?s'" by (simp add: same_shared_def)
  have "\<not> is_serial_access (ta_mode (entry s j)) (ta_mode (entry s (ns_fnr s)))"
    if "ns_first s \<le> j" "j < ns_fnr s" for j
    using parallel_extends [OF sh(1) _ that] t that serial_sym by (auto simp: newest_def same_task_def)
  then have "shared_ok (s\<lparr>ns_fnr := ns_fnr s + 1\<rparr>)"
    using t(1) by (intro fnr_moves [OF parts(1)]) (simp_all add: newest_def)
  then show "shared_ok ?s'" by (simp only: same_shared_cong(1) [OF same])
  show "adder_ok ?s' (ns_adder ?s')" using t(1) sh(2) by (auto simp: newest_def counted_ok_def)
  show "rely (ns_target s j) (ns_removers s j) s ?s'" for j
    using rely_refl_parts [OF parts(4) [of j]] by (auto simp: rely_def)
  show "pending (ns_removers s j) \<noteq> Some k" if "adder_pending (ns_adder ?s') = Some k" for k j
    using pending_not_counted [OF parts(4) [of j]] that by fastforce
  show "nothing_forgotten ?s'" using parts(2) by (simp add: nothing_forgotten_def indices_ok_def)
qed simp_all

lemma add_count_inv:
  assumes inv: "node_inv s" and pc: "ns_adder s = A_count t old"
  shows "node_inv (s\<lparr>ns_counters := c, ns_counted := ns_counted s @ [old], ns_adder := A_idle\<rparr>)" (is "node_inv ?s'")
proof (rule adder_moves_inv [OF inv])
  note parts = node_inv_parts [OF inv]
  have t: "old < ns_fnr s" "old \<notin> set (ns_counted s)" using parts(3) pc by simp_all
  show "shared_ok ?s'" using parts(1) t by (auto simp: shared_defs)
  show "rely (ns_target s j) (ns_removers s j) s ?s'" for j
  proof -
    have "pending (ns_removers s j) \<noteq> Some old" using parts(6) pc by (auto simp: pending_distinct_def)
    then show ?thesis using rely_refl_parts [OF parts(4) [of j]] by (auto simp: rely_def)
  qed
  show "nothing_forgotten ?s'" using parts(7) pc by (simp add: nothing_forgotten_def)
qed simp_all

lemma adder_step_inv:
  assumes inv: "node_inv s" and step: "adder_step s = Some s'"
  shows "node_inv s'"
proof -
  note parts = node_inv_parts [OF inv]
  have lim: "ns_first s \<le> ns_fnr s" using parts(2) by (simp add: indices_ok_def)
  show ?thesis
  proof (cases "ns_adder s")
    case (A_store t old)
    then show ?thesis
      using step parts(3) store_inv [OF inv A_store] local_adder_inv [OF inv, of A_crash]
      by (auto simp: adder_step_def split: if_splits)
  next
    case (A_publish t old)
    then show ?thesis using step publish_inv [OF inv A_publish] by (auto simp: adder_step_def)
  next
    case (A_cas t old)
    then show ?thesis
      using step add_cas_inv [OF inv, of t] local_adder_inv [OF inv, of A_idle]
      by (cases "ns_fnr s = old") (auto simp: adder_step_def)
  next
    case (A_count t old)
    then have "ta_wait t \<noteq> 0" using parts(3) by (simp add: newest_def)
    then show ?thesis using step A_count add_count_inv [OF inv A_count] by (auto simp: adder_step_def)
  next
    case (A_last t)
    then show ?thesis
      using step parts(3) local_adder_inv [OF inv, of "A_store t (ns_last s)"] by (auto simp: adder_step_def)
  next
    case (A_fnr t old)
    then show ?thesis
      using step parts(3) local_adder_inv [OF inv, of "if ns_fnr s = old then A_first t old else A_idle"]
      by (auto simp: adder_step_def)
  next
    case (A_first t old)
    then show ?thesis
      using step parts(3) lim local_adder_inv [OF inv, of "if ns_first s = old then A_cas t old else A_mode t old"]
      by (auto simp: adder_step_def)
  next
    case (A_mode t old)
    then show ?thesis
      using step parts(3) local_adder_inv [OF inv, of "if \<not> is_serial_access (ta_mode t) (ta_mode (entry s (old - 1)))
        then A_cas t old else A_idle"]
      by (auto simp: adder_step_def)
  qed (use step in \<open>simp_all add: adder_step_def\<close>)
qed

subsection \<open>Calls keep the invariant\<close>

lemma call_add_inv:
  assumes inv: "node_inv s" and "ns_adder s = A_idle" and "w \<noteq> 0"
    and "\<forall>k \<in> {ns_first s..<ns_last s}. ta_handle (entry s k) \<noteq> h"
  shows "node_inv (s\<lparr>ns_adder := A_last (make_access h m w)\<rparr>)"
  using assms by (intro local_adder_inv [OF inv]) (simp_all add: new_task_def make_access_def)

lemma call_remove_inv:
  assumes inv: "node_inv s" and idle: "ns_removers s i = R_idle" and k: "k < ns_fnr s" "k \<notin> ns_called s"
  shows "node_inv (s\<lparr>ns_removers := (ns_removers s)(i := R_first (ta_handle (entry s k))),
       ns_target := (ns_target s)(i := k), ns_called := insert k (ns_called s)\<rparr>)" (is "node_inv ?s'")
proof -
  note parts = node_inv_parts [OF inv]
  have sh: "indices_ok s" "marks_ok s" "names_ok s" "running_parallel s" "counted_ok s"
    using parts(1) by (simp_all add: shared_ok_def)
  have first: "ns_first s \<le> k" using sh(2) k(2) by (auto simp: marks_ok_def not_less [symmetric])
  have unmarked: "\<not> ta_removed (entry s k)" using sh(1,2) k by (auto simp: marks_ok_def indices_ok_def)
  have "shared_ok ?s'" using parts(1) by (auto simp: shared_defs)
  moreover have "adder_ok ?s' (ns_adder ?s')"
    using parts(3) by (cases "ns_adder s") (simp_all add: new_task_def newest_def)
  moreover have "remover_at ?s' (ns_target ?s' j) (ns_removers ?s' j)" for j
  proof (cases "j = i")
    case True
    then show ?thesis using first unmarked k by (simp add: remover_at_def target_ok_def)
  next
    case False
    have "rely (ns_target s j) (ns_removers s j) s ?s'"
      using rely_refl_parts [OF parts(4) [of j]] by (auto simp: rely_def)
    from remover_rely [OF sh(1) parts(4) this] show ?thesis using False by simp
  qed
  moreover have "targets_distinct ?s'"
  proof -
    have "ns_target s j \<noteq> k" if "holds_target (ns_removers s j)" for j
      using parts(4) [of j] that k(2) by (auto simp: remover_at_def target_ok_def)
    then show ?thesis using parts(5) by (auto simp: targets_distinct_def)
  qed
  moreover have "pending_distinct ?s'" using parts(6) by (auto simp: pending_distinct_def)
  moreover have "nothing_forgotten ?s'"
    by (rule still_not_forgotten [OF parts(7), of _ i]) (simp_all add: idle)
  ultimately show ?thesis by (simp add: node_inv_def removers_ok_def)
qed

subsection \<open>Every released entry is accounted for\<close>

definition accounted :: "node_state \<Rightarrow> bool" where
  "accounted s \<longleftrightarrow> (\<forall>k < ns_fnr s. k \<in> set (ns_counted s) \<or> adder_pending (ns_adder s) = Some k \<or>
     (\<exists>i. pending (ns_removers s i) = Some k))"

text \<open>One program counter changes, and its entry, if any, is counted down or still pending.\<close>

lemma accounted_remover:
  assumes ok: "accounted s" and frame: "ns_adder s' = ns_adder s" "ns_removers s' = (ns_removers s)(i := pc')"
    and kept: "set (ns_counted s) \<subseteq> set (ns_counted s')" "\<And>k. pending (ns_removers s i) = Some k \<Longrightarrow>
      k \<in> set (ns_counted s') \<or> pending pc' = Some k"
    and fnr: "ns_fnr s' = ns_fnr s \<or> ns_fnr s' = ns_fnr s + 1 \<and> pending pc' = Some (ns_fnr s)"
  shows "accounted s'"
  unfolding accounted_def
proof (intro allI impI)
  fix k assume k: "k < ns_fnr s'"
  have own: "\<exists>j. pending (ns_removers s' j) = Some k" if "pending pc' = Some k"
    using that frame(2) by (intro exI [of _ i]) simp
  show "k \<in> set (ns_counted s') \<or> adder_pending (ns_adder s') = Some k \<or> (\<exists>j. pending (ns_removers s' j) = Some k)"
  proof (cases "k < ns_fnr s")
    case True
    then consider "k \<in> set (ns_counted s)" | "adder_pending (ns_adder s) = Some k"
      | j where "pending (ns_removers s j) = Some k"
      using ok by (auto simp: accounted_def)
    then show ?thesis
    proof cases
      case (3 j)
      then show ?thesis
      proof (cases "j = i")
        case True
        then show ?thesis using kept(2) [of k] 3 own by blast
      next
        case False
        then have "pending (ns_removers s' j) = Some k" using 3 frame(2) by simp
        then show ?thesis by blast
      qed
    qed (use kept(1) frame(1) in auto)
  next
    case False
    then have "k = ns_fnr s" "pending pc' = Some (ns_fnr s)" using fnr k by auto
    then show ?thesis using own by blast
  qed
qed

lemma remover_step_accounted:
  assumes inv: "node_inv s" and step: "remover_step i s = Some s'" and ok: "accounted s"
  shows "accounted s'"
proof (cases "shared_step (ns_removers s i)")
  case False
  then obtain pc' where "moves_to i pc' s s'" "pending pc' = pending (ns_removers s i)"
    using remover_local_step [OF inv step False] by blast
  then show ?thesis by (intro accounted_remover [OF ok, of s' i pc']) (auto simp: moves_to_def same_shared_def)
next
  case True
  then show ?thesis
  proof (cases "ns_removers s i")
    case (R_count f m nx)
    then obtain pc' c where "s' = goto i pc' (s\<lparr>ns_counters := c, ns_counted := ns_counted s @ [f]\<rparr>)"
      using step counts_released [OF inv R_count] by (auto simp: remover_step_def Let_def fetch_sub_def split: if_splits)
    then show ?thesis using R_count by (intro accounted_remover [OF ok, of s' i pc']) auto
  next
    case (R_take f)
    then show ?thesis using step
      by (intro accounted_remover [OF ok, of s' i "if ns_fnr s = f then R_mode f else R_idle"])
        (auto simp: remover_step_def compare_exchange_def split: if_splits)
  next
    case (R_run_cas m f l)
    then show ?thesis using step
      by (intro accounted_remover [OF ok, of s' i "if ns_fnr s = f then R_count f m (Some l) else R_idle"])
        (auto simp: remover_step_def compare_exchange_def split: if_splits)
  next
    case R_advance
    then show ?thesis using step
      by (intro accounted_remover [OF ok, of s' i "R_state False (ns_first s + 1)"]) (auto simp: remover_step_def)
  next
    case (R_mark cur)
    then show ?thesis using step
      by (intro accounted_remover [OF ok, of s' i "R_mark_cas cur"]) (auto simp: remover_step_def)
  qed (use True in simp_all)
qed

lemma adder_step_accounted:
  assumes inv: "node_inv s" and step: "adder_step s = Some s'" and ok: "accounted s"
  shows "accounted s'"
proof -
  have "ta_wait t \<noteq> 0" if "ns_adder s = A_count t old" for t old
    using node_inv_parts(3) [OF inv] that by (simp add: newest_def)
  then show ?thesis
    using step ok
    by (cases "ns_adder s")
      (auto simp: adder_step_def accounted_def compare_exchange_def less_Suc_eq split: if_splits)
qed

lemma call_remove_accounted:
  assumes "ns_removers s i = R_idle" and "accounted s"
  shows "accounted (s\<lparr>ns_removers := (ns_removers s)(i := R_first h), ns_target := t, ns_called := c\<rparr>)"
  by (rule accounted_remover [OF assms(2), of _ i "R_first h"]) (simp_all add: assms(1))

lemma call_add_accounted: "ns_adder s = A_idle \<Longrightarrow> accounted s \<Longrightarrow> accounted (s\<lparr>ns_adder := A_last t\<rparr>)"
  by (simp add: accounted_def)

lemma node_move_inv: "node_inv s \<Longrightarrow> node_move s t \<Longrightarrow> node_inv t"
  by (erule node_moveE) (blast intro: call_add_inv call_remove_inv adder_step_inv remover_step_inv)+

lemma node_move_accounted: "node_inv s \<Longrightarrow> accounted s \<Longrightarrow> node_move s t \<Longrightarrow> accounted t"
  by (erule node_moveE)
    (blast intro: call_add_accounted call_remove_accounted adder_step_accounted remover_step_accounted)+

lemma accounted_init: "node_start s \<Longrightarrow> accounted s"
  by (simp add: node_start_def accounted_def)

interpretation nconc: invariant_system node_start node_move "\<lambda>s. node_inv s \<and> accounted s"
  by unfold_locales (blast intro: node_inv_init node_move_inv accounted_init node_move_accounted)+

lemma reachable_node:
  assumes "reach node_start node_move s"
  shows "node_inv s" "accounted s"
  using nconc.reach_inv [OF assms] by simp_all

end
