(* ===== verification/Resource_Node_Safety.thy ===== *)
theory Resource_Node_Safety
  imports Resource_Node_Inv
begin

section \<open>A resource queue under interleaving: properties\<close>

text \<open>
  Schedules that can be run, and what holds in every reachable state of the system of
  Resource_Node_Conc: mutual exclusion, single and complete notification, accesses in bounds;
  and a schedule that strands the queue.
\<close>

subsection \<open>Runs of a schedule\<close>

datatype node_act = Call_add nat access_mode nat | Call_remove nat nat | Adder_moves | Remover_moves nat

fun node_act_step :: "node_act \<Rightarrow> node_state \<Rightarrow> node_state option" where
  "node_act_step (Call_add h m w) s =
     (if ns_adder s = A_idle \<and> w \<noteq> 0 \<and> list_all (\<lambda>k. ta_handle (entry s k) \<noteq> h) [ns_first s..<ns_last s]
      then Some (s\<lparr>ns_adder := A_last (make_access h m w)\<rparr>) else None)"
| "node_act_step (Call_remove i k) s =
     (if ns_removers s i = R_idle \<and> k < ns_fnr s \<and> k \<notin> ns_called s
      then Some (s\<lparr>ns_removers := (ns_removers s)(i := R_first (ta_handle (entry s k))),
             ns_target := (ns_target s)(i := k), ns_called := insert k (ns_called s)\<rparr>) else None)"
| "node_act_step Adder_moves s = adder_step s"
| "node_act_step (Remover_moves i) s = remover_step i s"

fun node_run :: "node_act list \<Rightarrow> node_state \<Rightarrow> node_state option" where
  "node_run [] s = Some s"
| "node_run (a # as) s = (case node_act_step a s of None \<Rightarrow> None | Some t \<Rightarrow> node_run as t)"

lemma node_act_move: "node_act_step a s = Some t \<Longrightarrow> node_move s t"
  by (cases a) (auto intro: node_move.intros simp: list_all_iff split: if_splits)

lemma node_run_reach:
  "node_run as s = Some t \<Longrightarrow> reach node_start node_move s \<Longrightarrow> reach node_start node_move t"
proof (induction as arbitrary: s)
  case (Cons a as)
  then obtain u where u: "node_act_step a s = Some u" "node_run as u = Some t" by (auto split: option.splits)
  from reach_step [OF Cons.prems(2) node_act_move [OF u(1)]] Cons.IH [OF u(2)] show ?case by simp
qed simp

text \<open>Two readers that run and a writer that waits.\<close>

definition node_empty :: node_state where
  "node_empty = \<lparr>ns_first = 0, ns_fnr = 0, ns_last = 0, ns_tasks = replicate node_capacity (default_access Write),
     ns_counters = (\<lambda>_. 2), ns_added = [], ns_adder = A_idle, ns_removers = (\<lambda>_. R_idle),
     ns_target = (\<lambda>_. 0), ns_called = {}, ns_counted = []\<rparr>"

definition two_readers :: "node_act list" where
  "two_readers = Call_add 1 Read 10 # replicate 7 Adder_moves @ Call_add 2 Read 20 # replicate 8 Adder_moves"

definition add_writer :: "node_act list" where
  "add_writer = Call_add 3 Write 30 # replicate 6 Adder_moves"

definition node_added :: node_state where
  "node_added = \<lparr>ns_first = 0, ns_fnr = 2, ns_last = 3,
     ns_tasks = (replicate node_capacity (default_access Write))
       [0 := make_access 1 Read 10, 1 := make_access 2 Read 20, 2 := make_access 3 Write 30],
     ns_counters = (\<lambda>_. 2)(10 := 1, 20 := 1), ns_added = [], ns_adder = A_idle, ns_removers = (\<lambda>_. R_idle),
     ns_target = (\<lambda>_. 0), ns_called = {}, ns_counted = [0, 1]\<rparr>"

lemma capacity_room [simp]: "0 < node_capacity" "Suc 0 < node_capacity" "Suc (Suc 0) < node_capacity"
  "\<not> node_capacity \<le> Suc 0" "\<not> node_capacity \<le> Suc (Suc 0)"
  by (simp_all add: node_capacity_def)

lemma node_empty_reach: "reach node_start node_move node_empty"
  by (rule reach_init) (auto simp: node_start_def node_empty_def)

lemma node_added_run: "node_run (two_readers @ add_writer) node_empty = Some node_added"
  by (simp add: two_readers_def add_writer_def node_empty_def node_added_def adder_step_def make_access_def
      is_serial_access_def eval_nat_numeral)

lemmas node_added_reach = node_run_reach [OF node_added_run node_empty_reach]

subsection \<open>Properties\<close>

text \<open>
  C8. Mutual exclusion under every interleaving: two released tasks of a queue that have not
  ended, that is, whose removal was not called, do not conflict.
\<close>

theorem node_mutual_exclusion:
  assumes "reach node_start node_move s" and "j < ns_fnr s" "k < ns_fnr s" "j \<noteq> k"
    and "j \<notin> ns_called s" "k \<notin> ns_called s"
  shows "\<not> is_serial_access (ta_mode (entry s j)) (ta_mode (entry s k))"
proof -
  have sh: "marks_ok s" "running_parallel s"
    using reachable_node(1) [OF assms(1)] by (simp_all add: node_inv_def shared_ok_def)
  then have "ns_first s \<le> j" "ns_first s \<le> k"
    using assms(5,6) by (auto simp: marks_ok_def not_less [symmetric])
  then show ?thesis using sh(2) assms(2-4) by (simp add: running_parallel_def)
qed

lemma node_mutual_exclusion_witness: "\<not> is_serial_access (ta_mode (entry node_added 0)) (ta_mode (entry node_added 1))"
  by (rule node_mutual_exclusion [OF node_added_reach]) (simp_all add: node_added_def)

text \<open>
  C9. No start is given twice and none is lost, under every interleaving: the wait counter of an
  entry is decremented at most once and only after the release of the entry; when no call is
  under way every released entry was counted down, and if \<open>first\<close> has reached
  \<open>firstNotReady\<close> then no task waits.
\<close>

theorem node_starts_once:
  assumes "reach node_start node_move s"
  shows "distinct (ns_counted s) \<and> set (ns_counted s) \<subseteq> {..<ns_fnr s} \<and>
    (ns_adder s = A_idle \<and> ns_removers s = (\<lambda>_. R_idle) \<longrightarrow>
       set (ns_counted s) = {..<ns_fnr s} \<and> (ns_first s = ns_fnr s \<longrightarrow> ns_fnr s = ns_last s))"
proof -
  note inv = reachable_node [OF assms]
  have c: "distinct (ns_counted s)" "set (ns_counted s) \<subseteq> {..<ns_fnr s}" "ns_fnr s \<le> ns_last s"
    using inv(1) by (simp_all add: node_inv_def shared_defs)
  moreover have "set (ns_counted s) = {..<ns_fnr s}" if "ns_adder s = A_idle" "ns_removers s = (\<lambda>_. R_idle)"
    using inv(2) that c(2) by (auto simp: accounted_def)
  moreover have "ns_fnr s = ns_last s"
    if "ns_adder s = A_idle" "ns_removers s = (\<lambda>_. R_idle)" "ns_first s = ns_fnr s"
    using inv(1) that c(3) by (simp add: node_inv_def nothing_forgotten_def)
  ultimately show ?thesis by blast
qed

lemma node_starts_once_witness:
  "distinct (ns_counted node_added) \<and> set (ns_counted node_added) = {..<ns_fnr node_added} \<and> ns_fnr node_added = 2"
  using node_starts_once [OF node_added_reach] by (simp add: node_added_def)

text \<open>
  C14. No thread accesses the array out of its bounds or counts down through a null pointer as
  long as fewer than 1024 tasks were added to the queue.
\<close>

theorem node_stays_in_bounds:
  assumes "reach node_start node_move s" and "ns_last s < node_capacity"
  shows "ns_adder s \<noteq> A_crash \<and> ns_removers s i \<noteq> R_crash"
proof
  note parts = node_inv_parts [OF reachable_node(1) [OF assms(1)]]
  show "ns_adder s \<noteq> A_crash" using parts(3) assms(2) by auto
  show "ns_removers s i \<noteq> R_crash"
    using parts(2) parts(4) [of i] assms(2) by (auto simp: indices_ok_def remover_at_def)
qed

lemma node_stays_in_bounds_witness: "ns_last node_added = 3 \<and> ns_adder node_added \<noteq> A_crash \<and> ns_removers node_added 7 \<noteq> R_crash"
  using node_stays_in_bounds [OF node_added_reach, of 7] by (simp add: node_added_def)

text \<open>A queue whose ready entries were all removed, but which \<open>first\<close> has not passed.\<close>

fun adder_behind :: "nat \<Rightarrow> add_pc \<Rightarrow> bool" where
  "adder_behind f (A_store t old) = (f < old)" | "adder_behind f (A_publish t old) = (f < old)"
| "adder_behind f (A_fnr t old) = (f < old)" | "adder_behind f (A_first t old) = False"
| "adder_behind f (A_mode t old) = False" | "adder_behind f (A_cas t old) = False"
| "adder_behind f (A_count t old) = False" | "adder_behind f a = True"

definition stuck_queue :: "nat \<Rightarrow> node_state \<Rightarrow> bool" where
  "stuck_queue f s \<longleftrightarrow> ns_fnr s = f \<and> f < ns_last s \<and> {..<f} \<subseteq> ns_called s \<and>
     ns_removers s = (\<lambda>_. R_idle) \<and> adder_behind f (ns_adder s)"

lemma stuck_adder_step: "stuck_queue f s \<Longrightarrow> adder_step s = Some t \<Longrightarrow> stuck_queue f t"
  by (cases "ns_adder s") (auto simp: stuck_queue_def adder_step_def split: if_splits)

lemma stuck_queue_step: "stuck_queue f s \<Longrightarrow> node_move s t \<Longrightarrow> stuck_queue f t"
  by (erule node_moveE) (auto intro: stuck_adder_step, auto simp: stuck_queue_def remover_step_def)

lemma stuck_queue_steps: "node_move\<^sup>*\<^sup>* s t \<Longrightarrow> stuck_queue f s \<Longrightarrow> stuck_queue f t"
  by (induction rule: rtranclp_induct) (auto intro: stuck_queue_step)

text \<open>
  Both readers end. The removal of the older one is called first; the younger one's has seen the old
  \<open>first\<close> and begins its search before the older one advances \<open>first\<close>.
\<close>

definition both_called :: node_state where
  "both_called = node_added\<lparr>ns_removers := (\<lambda>_. R_idle)(0 := R_first 1, 1 := R_scan_fnr 2 1),
     ns_target := (\<lambda>_. 0)(1 := 1), ns_called := {0, 1}\<rparr>"

definition older_ended :: node_state where
  "older_ended = both_called\<lparr>ns_first := 1, ns_removers := (\<lambda>_. R_idle)(1 := R_scan_fnr 2 1)\<rparr>"

definition younger_marked :: node_state where
  "younger_marked = older_ended\<lparr>ns_tasks := (ns_tasks node_added)[1 := (make_access 2 Read 20)\<lparr>ta_removed := True\<rparr>],
     ns_removers := (\<lambda>_. R_idle)(1 := R_mark_cas 1)\<rparr>"

definition node_ended :: node_state where
  "node_ended = younger_marked\<lparr>ns_removers := (\<lambda>_. R_idle)\<rparr>"

lemmas ending_defs = both_called_def older_ended_def younger_marked_def node_ended_def node_added_def

lemmas ending_run_simps = ending_defs remover_step_def goto_def make_access_def default_access_def eval_nat_numeral

lemma ending_runs:
  "node_run [Call_remove 0 0, Call_remove 1 1, Remover_moves 1, Remover_moves 1] node_added = Some both_called"
  "node_run (replicate 6 (Remover_moves 0)) both_called = Some older_ended"
  "node_run (replicate 3 (Remover_moves 1)) older_ended = Some younger_marked"
  "node_run [Remover_moves 1] younger_marked = Some node_ended"
  by (simp add: ending_run_simps, (auto simp: fun_eq_iff)[1])
    (simp add: ending_run_simps, (auto simp: fun_eq_iff)[1], simp_all add: ending_run_simps fun_eq_iff)

text \<open>
  C10. Tasks that end in the order of their registration strand a queue all the same, if
  their removals overlap. Two readers run and a writer waits; the older reader's removal is
  called first, the younger one's begins its search before \<open>first\<close> has advanced. The older one's
  runs to its end and advances \<open>first\<close> to the younger entry. The younger one's marks that entry and
  comes to its compare-exchange with \<open>first\<close> at the very index it found, but expects the
  incremented index, fails and returns. Nothing is under way, both readers have ended, the writer
  waits, and whatever happens afterwards, nothing behind the readers is ever released.
\<close>

theorem overlapping_removals_strand:
  "\<exists>a b c d e. reach node_start node_move a \<and> ns_called a = {} \<and> ns_removers a = (\<lambda>_. R_idle) \<and> ns_adder a = A_idle \<and>
     ns_first a = 0 \<and> ns_fnr a = 2 \<and> ns_last a = 3 \<and> map (\<lambda>k. ta_mode (entry a k)) [0, 1, 2] = [Read, Read, Write] \<and>
     node_run [Call_remove 0 0, Call_remove 1 1, Remover_moves 1, Remover_moves 1] a = Some b \<and>
     ns_first b = 0 \<and> ns_removers b 1 = R_scan_fnr (ta_handle (entry a 1)) 1 \<and>
     node_run (replicate 6 (Remover_moves 0)) b = Some c \<and> ns_removers c 0 = R_idle \<and> ns_first c = 1 \<and>
     node_run (replicate 3 (Remover_moves 1)) c = Some d \<and> ns_removers d 1 = R_mark_cas 1 \<and> ns_first d = 1 \<and>
     node_run [Remover_moves 1] d = Some e \<and> ns_removers e = (\<lambda>_. R_idle) \<and> ns_adder e = A_idle \<and> ns_first e = 1 \<and>
     ns_called e = {..<ns_fnr e} \<and> ns_fnr e = 2 \<and> ns_last e = 3 \<and>
     (\<forall>t. node_move\<^sup>*\<^sup>* e t \<longrightarrow> ns_fnr t = 2 \<and> set (ns_counted t) \<subseteq> {..<2})"
proof (intro exI conjI allI impI, rule node_added_reach)
  note run = ending_runs
  show "node_run [Call_remove 0 0, Call_remove 1 1, Remover_moves 1, Remover_moves 1] node_added = Some both_called"
    by (rule run)
  show "node_run (replicate 6 (Remover_moves 0)) both_called = Some older_ended" by (rule run)
  show "node_run (replicate 3 (Remover_moves 1)) older_ended = Some younger_marked" by (rule run)
  show "node_run [Remover_moves 1] younger_marked = Some node_ended" by (rule run)
  have r: "reach node_start node_move node_ended"
    by (rule node_run_reach [OF run(4) node_run_reach [OF run(3) node_run_reach [OF run(2)
      node_run_reach [OF run(1) node_added_reach]]]])
  fix t assume moves: "node_move\<^sup>*\<^sup>* node_ended t"
  have "stuck_queue 2 node_ended" by (auto simp: stuck_queue_def ending_defs)
  from stuck_queue_steps [OF moves this] show f: "ns_fnr t = 2" by (simp add: stuck_queue_def)
  show "set (ns_counted t) \<subseteq> {..<2}"
    using reachable_node(1) [OF reach_steps [OF moves r]] f by (simp add: node_inv_def shared_defs)
qed (auto simp: ending_defs make_access_def eval_nat_numeral)

lemma overlapping_removals_strand_witness:
  "\<exists>e. reach node_start node_move e \<and> ns_fnr e < ns_last e \<and> ns_called e = {..<ns_fnr e} \<and> ns_removers e = (\<lambda>_. R_idle) \<and>
     set (ns_counted e) \<subseteq> {..<ns_fnr e}"
proof -
  obtain a b c d e where s: "reach node_start node_move a"
      "node_run [Call_remove 0 0, Call_remove 1 1, Remover_moves 1, Remover_moves 1] a = Some b"
      "node_run (replicate 6 (Remover_moves 0)) b = Some c" "node_run (replicate 3 (Remover_moves 1)) c = Some d"
      "node_run [Remover_moves 1] d = Some e" "ns_removers e = (\<lambda>_. R_idle)" "ns_called e = {..<ns_fnr e}"
      "ns_fnr e = 2" "ns_last e = 3" "\<forall>t. node_move\<^sup>*\<^sup>* e t \<longrightarrow> ns_fnr t = 2 \<and> set (ns_counted t) \<subseteq> {..<2}"
    using overlapping_removals_strand by (elim exE conjE) (rule that)
  have "reach node_start node_move e"
    by (rule node_run_reach [OF s(5) node_run_reach [OF s(4) node_run_reach [OF s(3) node_run_reach [OF s(2,1)]]]])
  moreover have "set (ns_counted e) \<subseteq> {..<2}" using s(10) by blast
  ultimately show ?thesis using s(6-9) by (intro exI [of _ e]) simp
qed

end
