(* ===== verification/Work_Queue.thy ===== *)
theory Work_Queue
  imports Prelude
begin

section \<open>The interface of a work-stealing queue\<close>

text \<open>
  What the pool relies on: the owner pushes and pops at one end, anybody steals at the other,
  and the queue behaves like the list of the elements pushed and not yet taken. \<open>push\<close> may
  fail to return (\<open>None\<close>) as a function; the contract says that it does return. A result
  \<open>None\<close> of \<open>pop\<close> and \<open>steal\<close> is an empty answer, \<open>Some None\<close> an indeterminate value, which
  the contract excludes.
\<close>

datatype 'a queue_op = Push 'a | Pop | Steal

fun run_ops ::
  "('a \<Rightarrow> 'q \<Rightarrow> 'q option) \<Rightarrow> ('q \<Rightarrow> 'a option option \<times> 'q) \<Rightarrow> ('q \<Rightarrow> 'a option option \<times> 'q) \<Rightarrow>
   'a queue_op list \<Rightarrow> 'q \<Rightarrow> ('a option option list \<times> 'q) option" where
  "run_ops push pop steal [] q = Some ([], q)"
| "run_ops push pop steal (Push x # ops) q =
     (case push x q of None \<Rightarrow> None | Some q' \<Rightarrow> run_ops push pop steal ops q')"
| "run_ops push pop steal (Pop # ops) q =
     (let (r, q') = pop q in
      map_option (\<lambda>(rs, q''). (r # rs, q'')) (run_ops push pop steal ops q'))"
| "run_ops push pop steal (Steal # ops) q =
     (let (r, q') = steal q in
      map_option (\<lambda>(rs, q''). (r # rs, q'')) (run_ops push pop steal ops q'))"

text \<open>The reference: a list, newest element last.\<close>

fun list_run :: "'a queue_op list \<Rightarrow> 'a list \<Rightarrow> 'a option list \<times> 'a list" where
  "list_run [] xs = ([], xs)"
| "list_run (Push x # ops) xs = list_run ops (xs @ [x])"
| "list_run (Pop # ops) xs =
     (let (rs, ys) = list_run ops (butlast xs)
      in ((if xs = [] then None else Some (last xs)) # rs, ys))"
| "list_run (Steal # ops) xs =
     (let (rs, ys) = list_run ops (tl xs)
      in ((if xs = [] then None else Some (hd xs)) # rs, ys))"

fun pushed_by :: "'a queue_op list \<Rightarrow> 'a list" where
  "pushed_by [] = []"
| "pushed_by (Push x # ops) = x # pushed_by ops"
| "pushed_by (_ # ops) = pushed_by ops"

lemma list_run_conserves:
  "list_run ops xs = (rs, ys) \<Longrightarrow>
   mset xs + mset (pushed_by ops) = mset (map the (filter (\<lambda>r. r \<noteq> None) rs)) + mset ys"
proof (induction ops xs arbitrary: rs ys rule: list_run.induct)
  case (3 ops xs)
  then show ?case
    by (cases xs rule: rev_cases) (auto simp: Let_def split: prod.splits)
next
  case (4 ops xs)
  then show ?case
    by (cases xs) (auto simp: Let_def split: prod.splits)
qed auto

locale work_queue =
  fixes push :: "'a \<Rightarrow> 'q \<Rightarrow> 'q option"
    and pop :: "'q \<Rightarrow> 'a option option \<times> 'q"
    and steal :: "'q \<Rightarrow> 'a option option \<times> 'q"
    and items :: "'q \<Rightarrow> 'a list"
    and ok :: "'q \<Rightarrow> bool"
  assumes push_law: "ok q \<Longrightarrow> \<exists>q'. push x q = Some q' \<and> ok q' \<and> items q' = items q @ [x]"
    and pop_law: "ok q \<Longrightarrow> \<exists>q'. pop q =
          (if items q = [] then None else Some (Some (last (items q))), q') \<and>
          ok q' \<and> items q' = butlast (items q)"
    and steal_law: "ok q \<Longrightarrow> \<exists>q'. steal q =
          (if items q = [] then None else Some (Some (hd (items q))), q') \<and>
          ok q' \<and> items q' = tl (items q)"
begin

lemma run_refines:
  "ok q \<Longrightarrow> \<exists>rs q'. run_ops push pop steal ops q = Some (map (map_option Some) rs, q') \<and>
     ok q' \<and> list_run ops (items q) = (rs, items q')"
proof (induction ops arbitrary: q)
  case Nil
  then show ?case by (intro exI [of _ "[]"]) auto
next
  case (Cons op ops)
  show ?case
  proof (cases op)
    case (Push x)
    with Cons push_law [of q x] show ?thesis by fastforce
  next
    case Pop
    obtain q1 where q1: "pop q = (if items q = [] then None else Some (Some (last (items q))), q1)"
        "ok q1" "items q1 = butlast (items q)"
      using pop_law [OF Cons.prems] by blast
    obtain rs q' where "run_ops push pop steal ops q1 = Some (map (map_option Some) rs, q')"
        "ok q'" "list_run ops (items q1) = (rs, items q')"
      using Cons.IH [OF q1(2)] by blast
    with q1 Pop show ?thesis
      by (intro exI [of _ "(if items q = [] then None else Some (last (items q))) # rs"] exI [of _ q'])
        simp
  next
    case Steal
    obtain q1 where q1: "steal q = (if items q = [] then None else Some (Some (hd (items q))), q1)"
        "ok q1" "items q1 = tl (items q)"
      using steal_law [OF Cons.prems] by blast
    obtain rs q' where "run_ops push pop steal ops q1 = Some (map (map_option Some) rs, q')"
        "ok q'" "list_run ops (items q1) = (rs, items q')"
      using Cons.IH [OF q1(2)] by blast
    with q1 Steal show ?thesis
      by (intro exI [of _ "(if items q = [] then None else Some (hd (items q))) # rs"] exI [of _ q'])
        simp
  qed
qed

text \<open>An element taken by the pool from a queue leaves it, and only it.\<close>

lemma pop_takes: "ok q \<Longrightarrow> pop q = (r, q') \<Longrightarrow>
    ok q' \<and> (case r of None \<Rightarrow> items q = [] \<and> items q' = []
      | Some c \<Rightarrow> \<exists>x. c = Some x \<and> mset (items q) = add_mset x (mset (items q')))"
  using pop_law [of q] by (cases "items q" rule: rev_cases) auto

lemma steal_takes: "ok q \<Longrightarrow> steal q = (r, q') \<Longrightarrow>
    ok q' \<and> (case r of None \<Rightarrow> items q = [] \<and> items q' = []
      | Some c \<Rightarrow> \<exists>x. c = Some x \<and> mset (items q) = add_mset x (mset (items q')))"
  using steal_law [of q] by (cases "items q") auto

lemma push_adds: "ok q \<Longrightarrow> \<exists>q'. push x q = Some q' \<and> ok q' \<and> mset (items q') = add_mset x (mset (items q))"
  using push_law [of q x] by auto

end

end
