(* ===== verification/Ring_Deque.thy ===== *)
theory Ring_Deque
  imports Work_Queue
begin

section \<open>The growable ring buffer and the deque, one operation at a time (dequeue.hpp)\<close>

text \<open>
  \<open>detail::RingBuff\<close> and the operations of \<open>Deque\<close> as they run without interference. Indices
  are \<open>std::int64_t\<close> in the source and start at 0; they are mathematical integers here, so
  the model covers runs of fewer than \<open>2 ^ 63\<close> pushes, after which the increment is signed
  overflow. A cell of a buffer made by \<open>make_unique_for_overwrite\<close> holds an indeterminate
  value, \<open>None\<close>, until it is stored to.
\<close>

subsection \<open>\<open>RingBuff\<close>\<close>

record 'a ring =
  rb_cap :: int
  rb_mask :: int
  rb_buf :: "'a option list"

definition rb_new :: "int \<Rightarrow> 'a ring" where
  "rb_new c = \<lparr>rb_cap = c, rb_mask = c - 1, rb_buf = replicate (nat c) None\<rparr>"

definition rb_store :: "int \<Rightarrow> 'a option \<Rightarrow> 'a ring \<Rightarrow> 'a ring" where
  "rb_store i x r = r\<lparr>rb_buf := (rb_buf r)[nat (i AND rb_mask r) := x]\<rparr>"

definition rb_load :: "int \<Rightarrow> 'a ring \<Rightarrow> 'a option" where
  "rb_load i r = rb_buf r ! nat (i AND rb_mask r)"

text \<open>The copy loop of \<open>resize\<close>; it ends only when \<open>i\<close> meets \<open>b\<close>.\<close>

partial_function (option) rb_copy :: "int \<Rightarrow> int \<Rightarrow> 'a ring \<Rightarrow> 'a ring \<Rightarrow> 'a ring option" where
  "rb_copy i b src dst =
     (if i = b then Some dst else rb_copy (i + 1) b src (rb_store i (rb_load i src) dst))"

declare rb_copy.simps [code]

definition rb_resize :: "int \<Rightarrow> int \<Rightarrow> 'a ring \<Rightarrow> 'a ring option" where
  "rb_resize b t r = rb_copy t b r (rb_new (2 * rb_cap r))"

subsection \<open>\<open>Deque\<close>\<close>

record 'a deque =
  dq_top :: int
  dq_bottom :: int
  dq_buffer :: "'a ring"
  dq_garbage :: "'a ring list"

definition deque_new :: "int \<Rightarrow> 'a deque" where
  "deque_new c = \<lparr>dq_top = 0, dq_bottom = 0, dq_buffer = rb_new c, dq_garbage = []\<rparr>"

definition deque_size :: "'a deque \<Rightarrow> nat" where
  "deque_size d =
     nat (if dq_bottom d \<ge> dq_top d then dq_bottom d - dq_top d else 0)"

definition deque_capacity :: "'a deque \<Rightarrow> int" where
  "deque_capacity d = rb_cap (dq_buffer d)"

definition deque_empty :: "'a deque \<Rightarrow> bool" where
  "deque_empty d \<longleftrightarrow> deque_size d = 0"

text \<open>\<open>None\<close> is an \<open>emplace\<close> that does not return (the copy loop runs away).\<close>

definition deque_emplace :: "'a \<Rightarrow> 'a deque \<Rightarrow> 'a deque option" where
  "deque_emplace x d =
     (let b = dq_bottom d; t = dq_top d; buf = dq_buffer d in
      case (if rb_cap buf < (b - t) + 1
            then map_option (\<lambda>buf'. d\<lparr>dq_garbage := dq_garbage d @ [buf], dq_buffer := buf'\<rparr>)
                   (rb_resize b t buf)
            else Some d) of
        None \<Rightarrow> None
      | Some d' \<Rightarrow> Some (d'\<lparr>dq_buffer := rb_store b (Some x) (dq_buffer d'), dq_bottom := b + 1\<rparr>))"

text \<open>The result \<open>None\<close> is \<open>std::nullopt\<close>; \<open>Some c\<close> is the content \<open>c\<close> of a cell.\<close>

definition deque_pop :: "'a deque \<Rightarrow> 'a option option \<times> 'a deque" where
  "deque_pop d =
     (let b = dq_bottom d - 1; buf = dq_buffer d; d1 = d\<lparr>dq_bottom := b\<rparr>; t = dq_top d1 in
      if t \<le> b then
        if t = b then
          (case compare_exchange (dq_top d1) t (t + 1) of
             (False, _, _) \<Rightarrow> (None, d1\<lparr>dq_bottom := b + 1\<rparr>)
           | (True, t', _) \<Rightarrow> (Some (rb_load b buf), d1\<lparr>dq_top := t', dq_bottom := b + 1\<rparr>))
        else (Some (rb_load b buf), d1)
      else (None, d1\<lparr>dq_bottom := b + 1\<rparr>))"

definition deque_steal :: "'a deque \<Rightarrow> 'a option option \<times> 'a deque" where
  "deque_steal d =
     (let t = dq_top d; b = dq_bottom d in
      if t < b then
        let x = rb_load t (dq_buffer d) in
        (case compare_exchange (dq_top d) t (t + 1) of
           (False, _, _) \<Rightarrow> (None, d)
         | (True, t', _) \<Rightarrow> (Some x, d\<lparr>dq_top := t'\<rparr>))
      else (None, d))"

subsection \<open>Masked indexing is indexing modulo the capacity\<close>

definition ring_ok :: "'a ring \<Rightarrow> bool" where
  "ring_ok r \<longleftrightarrow> (\<exists>k. rb_cap r = 2 ^ k) \<and> rb_mask r = rb_cap r - 1 \<and>
     length (rb_buf r) = nat (rb_cap r)"

lemma and_pow2_minus_1: "i AND (2 ^ k - 1) = i mod (2 ^ k :: int)"
  by (metis mask_eq_exp_minus_1 take_bit_eq_mask take_bit_eq_mod)

lemma ring_index: "ring_ok r \<Longrightarrow> i AND rb_mask r = i mod rb_cap r"
  by (auto simp: ring_ok_def and_pow2_minus_1)

lemma ring_cap_pos: "ring_ok r \<Longrightarrow> 0 < rb_cap r"
  by (auto simp: ring_ok_def)

lemma ring_index_bound: "ring_ok r \<Longrightarrow> nat (i AND rb_mask r) < length (rb_buf r)"
  using ring_cap_pos [of r] by (simp add: ring_index) (simp add: ring_ok_def nat_less_iff)

lemma ring_ok_new: "ring_ok (rb_new (2 ^ k))"
  by (auto simp: ring_ok_def rb_new_def)

lemma ring_ok_store [simp]: "ring_ok (rb_store i x r) = ring_ok r"
  by (simp add: ring_ok_def rb_store_def)

lemma rb_store_cap [simp]: "rb_cap (rb_store i x r) = rb_cap r"
  by (simp add: rb_store_def)

lemma rb_load_store_same: "ring_ok r \<Longrightarrow> rb_load i (rb_store i x r) = x"
  using ring_index_bound [of r i] by (simp add: rb_load_def rb_store_def)

lemma mod_window_neq:
  fixes i j c :: int
  assumes "i < j" and "j < i + c"
  shows "i mod c \<noteq> j mod c"
proof
  assume "i mod c = j mod c"
  then have "c dvd j - i" by (metis mod_eq_dvd_iff)
  then show False using assms zdvd_imp_le [of c "j - i"] by simp
qed

lemma rb_load_store_other:
  assumes "ring_ok r" and "i \<noteq> j" and "i < j + rb_cap r" and "j < i + rb_cap r"
  shows "rb_load i (rb_store j x r) = rb_load i r"
proof -
  have "i mod rb_cap r \<noteq> j mod rb_cap r"
    using mod_window_neq [of i j "rb_cap r"] mod_window_neq [of j i "rb_cap r"] assms by linarith
  moreover have "0 \<le> i mod rb_cap r" and "0 \<le> j mod rb_cap r"
    using ring_cap_pos [OF assms(1)] by simp_all
  ultimately have "nat (i mod rb_cap r) \<noteq> nat (j mod rb_cap r)" by simp
  then show ?thesis
    by (simp add: rb_load_def ring_index [OF assms(1)])
      (simp add: rb_store_def ring_index [OF assms(1)])
qed

subsection \<open>The copy loop\<close>

lemma rb_copy_done: "rb_copy b b src dst = Some dst"
  by (subst rb_copy.simps) simp

lemma rb_copy_step:
  "i \<noteq> b \<Longrightarrow> rb_copy i b src dst = rb_copy (i + 1) b src (rb_store i (rb_load i src) dst)"
  by (subst rb_copy.simps) simp

lemma rb_copy_correct:
  assumes "i \<le> b" and "ring_ok dst" and "b \<le> i + rb_cap dst"
  shows "\<exists>r. rb_copy i b src dst = Some r \<and> ring_ok r \<and> rb_cap r = rb_cap dst \<and>
     (\<forall>j. i \<le> j \<and> j < b \<longrightarrow> rb_load j r = rb_load j src) \<and>
     (\<forall>j. j < i \<and> b \<le> j + rb_cap dst \<longrightarrow> rb_load j r = rb_load j dst)"
  using assms
proof (induction "nat (b - i)" arbitrary: i dst)
  case 0
  then show ?case by (auto simp: rb_copy_done)
next
  case (Suc n)
  let ?d = "rb_store i (rb_load i src) dst"
  have "i < b" using Suc.hyps(2) by simp
  moreover have n: "n = nat (b - (i + 1))" using Suc.hyps(2) by linarith
  ultimately obtain r where r: "rb_copy (i + 1) b src ?d = Some r" "ring_ok r" "rb_cap r = rb_cap dst"
      "\<And>j. i + 1 \<le> j \<Longrightarrow> j < b \<Longrightarrow> rb_load j r = rb_load j src"
      "\<And>j. j < i + 1 \<Longrightarrow> b \<le> j + rb_cap dst \<Longrightarrow> rb_load j r = rb_load j ?d"
    using Suc.hyps(1) [OF n, of ?d] Suc.prems by auto
  have "rb_load i r = rb_load i src"
    using r(5) [of i] Suc.prems by (simp add: rb_load_store_same)
  then have "rb_load j r = rb_load j src" if "i \<le> j" "j < b" for j
    using r(4) [of j] that by (cases "j = i") auto
  moreover have "rb_load j r = rb_load j dst" if "j < i" "b \<le> j + rb_cap dst" for j
    using r(5) [of j] that Suc.prems \<open>i < b\<close>
    by (subst rb_load_store_other [symmetric, of dst j i "rb_load i src"]) auto
  ultimately show ?case
    using r(1-3) rb_copy_step [of i b src dst] \<open>i < b\<close> by auto
qed

lemma rb_resize_correct:
  assumes "ring_ok r" and "t \<le> b" and "b - t \<le> rb_cap r"
  shows "\<exists>r'. rb_resize b t r = Some r' \<and> ring_ok r' \<and> rb_cap r' = 2 * rb_cap r \<and>
     (\<forall>j. t \<le> j \<and> j < b \<longrightarrow> rb_load j r' = rb_load j r)"
proof -
  obtain k where k: "rb_cap r = 2 ^ k" using assms(1) by (auto simp: ring_ok_def)
  have "ring_ok (rb_new (2 * rb_cap r) :: 'a ring)"
    using ring_ok_new [of "Suc k"] k by simp
  moreover have "rb_cap (rb_new (2 * rb_cap r) :: 'a ring) = 2 * rb_cap r"
    by (simp add: rb_new_def)
  ultimately show ?thesis
    using rb_copy_correct [of t b "rb_new (2 * rb_cap r)" r] assms ring_cap_pos [OF assms(1)]
    unfolding rb_resize_def by fastforce
qed

subsection \<open>The deque holds the list of the elements pushed and not yet taken\<close>

definition ring_window :: "int \<Rightarrow> int \<Rightarrow> 'a ring \<Rightarrow> 'a option list" where
  "ring_window t b r = map (\<lambda>i. rb_load i r) [t..b - 1]"

lemma ring_window_empty [simp]: "b \<le> t \<Longrightarrow> ring_window t b r = []"
  by (simp add: ring_window_def)

lemma ring_window_eq_Nil [simp]: "ring_window t b r = [] \<longleftrightarrow> b \<le> t"
  by (auto simp: ring_window_def)

lemma ring_window_snoc: "t \<le> b \<Longrightarrow> ring_window t (b + 1) r = ring_window t b r @ [rb_load b r]"
  by (simp add: ring_window_def upto_rec2 [of t b])

lemma ring_window_cons: "t < b \<Longrightarrow> ring_window t b r = rb_load t r # ring_window (t + 1) b r"
  by (simp add: ring_window_def upto_rec1 [of t "b - 1"])

lemma ring_window_cong:
  "(\<And>i. t \<le> i \<Longrightarrow> i < b \<Longrightarrow> rb_load i r = rb_load i r') \<Longrightarrow> ring_window t b r = ring_window t b r'"
  by (simp add: ring_window_def)

lemma ring_window_store:
  assumes "ring_ok r" and "b - t < rb_cap r"
  shows "ring_window t b (rb_store b x r) = ring_window t b r"
  by (rule ring_window_cong, rule rb_load_store_other) (use assms in auto)

definition deque_ok :: "'a deque \<Rightarrow> bool" where
  "deque_ok d \<longleftrightarrow> ring_ok (dq_buffer d) \<and> dq_top d \<le> dq_bottom d \<and>
     dq_bottom d - dq_top d \<le> rb_cap (dq_buffer d) \<and>
     None \<notin> set (ring_window (dq_top d) (dq_bottom d) (dq_buffer d))"

definition deque_items :: "'a deque \<Rightarrow> 'a list" where
  "deque_items d = map the (ring_window (dq_top d) (dq_bottom d) (dq_buffer d))"

lemma map_Some_items:
  "deque_ok d \<Longrightarrow> map Some (deque_items d) = ring_window (dq_top d) (dq_bottom d) (dq_buffer d)"
  by (auto simp: deque_ok_def deque_items_def intro!: map_idI) (metis option.exhaust_sel)

lemma deque_new_ok: "deque_ok (deque_new (2 ^ k))" and deque_new_items: "deque_items (deque_new c) = []"
  by (simp_all add: deque_ok_def deque_new_def ring_ok_new deque_items_def)
    (simp add: rb_new_def)

lemma deque_size_items: "deque_ok d \<Longrightarrow> deque_size d = length (deque_items d)"
  by (auto simp: deque_size_def deque_items_def ring_window_def deque_ok_def)

lemma emplace_correct:
  assumes "deque_ok d"
  shows "\<exists>d'. deque_emplace x d = Some d' \<and> deque_ok d' \<and> deque_items d' = deque_items d @ [x] \<and>
     deque_capacity d' = (if int (deque_size d) = deque_capacity d
       then 2 * deque_capacity d else deque_capacity d) \<and>
     dq_garbage d' = dq_garbage d @
       (if int (deque_size d) = deque_capacity d then [dq_buffer d] else [])"
proof -
  let ?b = "dq_bottom d" and ?t = "dq_top d" and ?r = "dq_buffer d"
  have ok: "ring_ok ?r" "?t \<le> ?b" "?b - ?t \<le> rb_cap ?r" "None \<notin> set (ring_window ?t ?b ?r)"
    using assms by (auto simp: deque_ok_def)
  have size: "int (deque_size d) = ?b - ?t" using ok(2) by (simp add: deque_size_def)
  have put: "ring_window ?t (?b + 1) (rb_store ?b (Some x) r') = ring_window ?t ?b r' @ [Some x]"
    if "ring_ok r'" "?b - ?t < rb_cap r'" for r'
    using that ok(2) by (simp add: ring_window_snoc ring_window_store rb_load_store_same)
  show ?thesis
  proof (cases "?b - ?t = rb_cap ?r")
    case False
    then show ?thesis
      using ok size put [of ?r]
      by (simp add: deque_emplace_def Let_def deque_ok_def deque_items_def deque_capacity_def)
  next
    case True
    obtain r' where r': "rb_resize ?b ?t ?r = Some r'" "ring_ok r'" "rb_cap r' = 2 * rb_cap ?r"
        "\<And>j. ?t \<le> j \<Longrightarrow> j < ?b \<Longrightarrow> rb_load j r' = rb_load j ?r"
      using rb_resize_correct [OF ok(1-3)] by blast
    moreover have "ring_window ?t ?b r' = ring_window ?t ?b ?r"
      by (rule ring_window_cong) (use r'(4) in auto)
    ultimately show ?thesis
      using ok True size put [of r'] ring_cap_pos [OF ok(1)]
      by (simp add: deque_emplace_def Let_def deque_ok_def deque_items_def deque_capacity_def)
  qed
qed

lemma pop_correct:
  assumes "deque_ok d"
  shows "\<exists>d'. deque_pop d =
      (if deque_items d = [] then None else Some (Some (last (deque_items d))), d') \<and>
     deque_ok d' \<and> deque_items d' = butlast (deque_items d)"
proof (cases "dq_top d < dq_bottom d")
  case False
  with assms show ?thesis
    by (auto simp: deque_pop_def Let_def deque_ok_def deque_items_def)
next
  case True
  let ?w = "ring_window (dq_top d) (dq_bottom d - 1) (dq_buffer d)"
  have w: "ring_window (dq_top d) (dq_bottom d) (dq_buffer d) =
      ?w @ [rb_load (dq_bottom d - 1) (dq_buffer d)]"
    using ring_window_snoc [of "dq_top d" "dq_bottom d - 1"] True by simp
  then obtain x where x: "rb_load (dq_bottom d - 1) (dq_buffer d) = Some x" and "None \<notin> set ?w"
    using assms by (cases "rb_load (dq_bottom d - 1) (dq_buffer d)") (auto simp: deque_ok_def)
  with True assms w show ?thesis
    by (auto simp: deque_pop_def Let_def deque_ok_def deque_items_def)
qed

lemma steal_correct:
  assumes "deque_ok d"
  shows "\<exists>d'. deque_steal d =
      (if deque_items d = [] then None else Some (Some (hd (deque_items d))), d') \<and>
     deque_ok d' \<and> deque_items d' = tl (deque_items d)"
proof (cases "dq_top d < dq_bottom d")
  case False
  with assms show ?thesis
    by (auto simp: deque_steal_def Let_def deque_ok_def deque_items_def)
next
  case True
  let ?w = "ring_window (dq_top d + 1) (dq_bottom d) (dq_buffer d)"
  have w: "ring_window (dq_top d) (dq_bottom d) (dq_buffer d) = rb_load (dq_top d) (dq_buffer d) # ?w"
    using True by (rule ring_window_cons)
  then obtain x where x: "rb_load (dq_top d) (dq_buffer d) = Some x" and "None \<notin> set ?w"
    using assms by (cases "rb_load (dq_top d) (dq_buffer d)") (auto simp: deque_ok_def)
  with True assms w show ?thesis
    by (auto simp: deque_steal_def Let_def deque_ok_def deque_items_def)
qed

interpretation dq: work_queue deque_emplace deque_pop deque_steal deque_items deque_ok
proof unfold_locales
  show "\<exists>q'. deque_emplace x q = Some q' \<and> deque_ok q' \<and> deque_items q' = deque_items q @ [x]"
    if "deque_ok q" for q :: "'b deque" and x
    using emplace_correct [OF that] by blast
qed (simp_all add: pop_correct steal_correct)

subsection \<open>Properties\<close>

text \<open>
  C30. Used by one thread, the deque is the list of the elements pushed and not yet taken: for
  every sequence of \<open>emplace\<close>, \<open>pop\<close> and \<open>steal\<close> from a new deque of power-of-two capacity,
  every call returns, the answers are those of a list popped at its end and stolen from at
  its front, growth included, and no answer is an indeterminate value.
\<close>

theorem deque_refines_list:
  "\<exists>rs d. run_ops deque_emplace deque_pop deque_steal ops (deque_new (2 ^ k)) =
       Some (map (map_option Some) rs, d) \<and>
     deque_ok d \<and> list_run ops [] = (rs, deque_items d)"
  using dq.run_refines [OF deque_new_ok, of ops k] by (simp add: deque_new_items)

text \<open>
  \<open>emplace\<close> doubles the buffer exactly when the deque is full, keeps the old buffer
  alive in the garbage list exactly then, and loses no element in the copy.
\<close>

theorem emplace_grows_when_full:
  assumes "deque_ok d"
  shows "\<exists>d'. deque_emplace x d = Some d' \<and> deque_ok d' \<and> deque_items d' = deque_items d @ [x] \<and>
     deque_capacity d' = (if int (deque_size d) = deque_capacity d
       then 2 * deque_capacity d else deque_capacity d) \<and>
     dq_garbage d' = dq_garbage d @
       (if int (deque_size d) = deque_capacity d then [dq_buffer d] else [])"
  by (rule emplace_correct [OF assms])

theorem emplace_grows_when_full_witness:
  "\<exists>d d' :: nat deque. deque_emplace 7 (deque_new 1) = Some d \<and> deque_emplace 8 d = Some d' \<and>
     deque_items d' = [7, 8] \<and> deque_capacity d' = 2 \<and> length (dq_garbage d') = 1"
proof -
  have ok: "deque_ok (deque_new 1 :: nat deque)" using deque_new_ok [of 0] by simp
  have new: "deque_size (deque_new 1 :: nat deque) = 0" "deque_capacity (deque_new 1 :: nat deque) = 1"
      "dq_garbage (deque_new 1 :: nat deque) = []"
    by (simp_all add: deque_size_def deque_capacity_def deque_new_def rb_new_def)
  obtain d :: "nat deque" where d: "deque_emplace 7 (deque_new 1) = Some d" "deque_ok d"
      "deque_items d = [7]" "deque_capacity d = 1" "dq_garbage d = []"
    using emplace_grows_when_full [OF ok, of 7] new by (auto simp: deque_new_items)
  moreover have "deque_size d = 1" using deque_size_items [OF d(2)] d(3) by simp
  ultimately show ?thesis
    using emplace_grows_when_full [OF d(2), of 8] by (auto split: if_splits)
qed

text \<open>
  \<open>resize(b, t)\<close> copies the indices from \<open>t\<close> up to \<open>b\<close> into a buffer of twice the
  capacity; its loop ends when \<open>t \<le> b\<close>, as in every call from \<open>emplace\<close>.
\<close>

theorem resize_copies_window:
  assumes "ring_ok r" and "t \<le> b" and "b - t \<le> rb_cap r"
  shows "\<exists>r'. rb_resize b t r = Some r' \<and> ring_ok r' \<and> rb_cap r' = 2 * rb_cap r \<and>
     (\<forall>j. t \<le> j \<and> j < b \<longrightarrow> rb_load j r' = rb_load j r)"
  by (rule rb_resize_correct [OF assms])

theorem resize_copies_window_witness:
  "\<exists>r'. rb_resize 3 2 (rb_store 2 (Some CHR ''a'') (rb_new 1)) = Some r' \<and> rb_cap r' = 2 \<and>
     rb_load 2 r' = Some CHR ''a''"
proof -
  have ok: "ring_ok (rb_new 1 :: char ring)" using ring_ok_new [of 0] by simp
  then show ?thesis
    using resize_copies_window [of "rb_store 2 (Some CHR ''a'') (rb_new 1)" 2 3]
      rb_load_store_same [OF ok, of 2 "Some CHR ''a''"]
    by (auto simp: rb_new_def)
qed

end
