(* ===== verification/Deque_Conc.thy ===== *)
theory Deque_Conc
  imports Ring_Deque
begin

section \<open>The work-stealing deque under interleaving (dequeue.hpp)\<close>

text \<open>
  One owner and any number of thieves run \<open>emplace\<close>, \<open>pop\<close> and \<open>steal\<close> concurrently. Every
  access to \<open>_top\<close>, \<open>_bottom\<close>, \<open>_buffer\<close> and to a cell of a buffer is one step, in the order
  of the source; the steps of different threads interleave. Old buffers stay readable (the
  source keeps them in \<open>_garbage\<close>), so the buffers are a list and \<open>_buffer\<close> an index into it.
  Memory is sequentially consistent: the fences are no-ops and reorderings that relaxed
  accesses allow are not modelled.
\<close>

subsection \<open>Program counters and state\<close>

datatype 'a owner_pc =
    O_idle
  | O_emp_bottom 'a             \<comment> \<open>emplace: load \<open>_bottom\<close>\<close>
  | O_emp_top 'a int            \<comment> \<open>b: load \<open>_top\<close>\<close>
  | O_emp_buffer 'a int int     \<comment> \<open>b, t: load \<open>_buffer\<close>, grow it when full\<close>
  | O_emp_store 'a int nat      \<comment> \<open>b, buf: store the object\<close>
  | O_emp_publish 'a int        \<comment> \<open>b: store \<open>_bottom\<close>\<close>
  | O_pop_bottom                \<comment> \<open>pop: load \<open>_bottom\<close>\<close>
  | O_pop_buffer int            \<comment> \<open>b: load \<open>_buffer\<close>\<close>
  | O_pop_claim int nat         \<comment> \<open>b, buf: store \<open>_bottom\<close>\<close>
  | O_pop_top int nat           \<comment> \<open>b, buf: load \<open>_top\<close>\<close>
  | O_pop_cas int nat int       \<comment> \<open>b, buf, t: compare-exchange \<open>_top\<close>\<close>
  | O_pop_won int nat           \<comment> \<open>b, buf: restore \<open>_bottom\<close>, then read\<close>
  | O_pop_lost int              \<comment> \<open>b: restore \<open>_bottom\<close>, return nullopt\<close>
  | O_pop_read int nat          \<comment> \<open>b, buf: return \<open>buf->load(b)\<close>\<close>

datatype 'a thief_pc =
    T_idle
  | T_top                       \<comment> \<open>steal: load \<open>_top\<close>\<close>
  | T_bottom int                \<comment> \<open>t: load \<open>_bottom\<close>\<close>
  | T_buffer int                \<comment> \<open>t: load \<open>_buffer\<close>\<close>
  | T_read int nat              \<comment> \<open>t, buf: load the cell\<close>
  | T_cas int "'a option"       \<comment> \<open>t, x: compare-exchange \<open>_top\<close>\<close>

text \<open>
  \<open>pushed\<close> and \<open>taken\<close> are auxiliary: the objects published by \<open>emplace\<close> and the contents
  returned by \<open>pop\<close> and \<open>steal\<close>.
\<close>

record 'a deque_state =
  ctop :: int
  cbottom :: int
  cbuffers :: "'a ring list"
  cbuffer :: nat
  owner :: "'a owner_pc"
  thieves :: "nat \<Rightarrow> 'a thief_pc"
  pushed :: "'a multiset"
  taken :: "'a option multiset"

abbreviation current :: "'a deque_state \<Rightarrow> 'a ring" where
  "current s \<equiv> cbuffers s ! cbuffer s"

definition deque_init :: "nat \<Rightarrow> 'a deque_state" where
  "deque_init k = \<lparr>ctop = 0, cbottom = 0, cbuffers = [rb_new (2 ^ k)], cbuffer = 0,
     owner = O_idle, thieves = (\<lambda>_. T_idle), pushed = {#}, taken = {#}\<rparr>"

subsection \<open>The steps of the owner\<close>

text \<open>
  The next step of the owner, as a function of its program counter; \<open>None\<close> when it is idle,
  or when the copy loop of \<open>resize\<close> does not end. \<open>pop\<close> fails its compare-exchange exactly
  when \<open>_top\<close> has moved.
\<close>

fun owner_step :: "'a deque_state \<Rightarrow> 'a deque_state option" where
  "owner_step s =
     (case owner s of
        O_idle \<Rightarrow> None
      | O_emp_bottom x \<Rightarrow> Some (s\<lparr>owner := O_emp_top x (cbottom s)\<rparr>)
      | O_emp_top x b \<Rightarrow> Some (s\<lparr>owner := O_emp_buffer x b (ctop s)\<rparr>)
      | O_emp_buffer x b t \<Rightarrow>
          if rb_cap (current s) < (b - t) + 1 then
            (case rb_resize b t (current s) of
               None \<Rightarrow> None
             | Some r \<Rightarrow> Some (s\<lparr>cbuffers := cbuffers s @ [r], cbuffer := length (cbuffers s),
                 owner := O_emp_store x b (length (cbuffers s))\<rparr>))
          else Some (s\<lparr>owner := O_emp_store x b (cbuffer s)\<rparr>)
      | O_emp_store x b k \<Rightarrow>
          Some (s\<lparr>cbuffers := (cbuffers s)[k := rb_store b (Some x) (cbuffers s ! k)],
            owner := O_emp_publish x b\<rparr>)
      | O_emp_publish x b \<Rightarrow>
          Some (s\<lparr>cbottom := b + 1, owner := O_idle, pushed := add_mset x (pushed s)\<rparr>)
      | O_pop_bottom \<Rightarrow> Some (s\<lparr>owner := O_pop_buffer (cbottom s - 1)\<rparr>)
      | O_pop_buffer b \<Rightarrow> Some (s\<lparr>owner := O_pop_claim b (cbuffer s)\<rparr>)
      | O_pop_claim b k \<Rightarrow> Some (s\<lparr>cbottom := b, owner := O_pop_top b k\<rparr>)
      | O_pop_top b k \<Rightarrow>
          Some (s\<lparr>owner :=
            (if ctop s \<le> b then if ctop s = b then O_pop_cas b k (ctop s) else O_pop_read b k
             else O_pop_lost b)\<rparr>)
      | O_pop_cas b k t \<Rightarrow>
          (case compare_exchange (ctop s) t (t + 1) of
             (True, t', _) \<Rightarrow> Some (s\<lparr>ctop := t', owner := O_pop_won b k\<rparr>)
           | (False, _, _) \<Rightarrow> Some (s\<lparr>owner := O_pop_lost b\<rparr>))
      | O_pop_won b k \<Rightarrow> Some (s\<lparr>cbottom := b + 1, owner := O_pop_read b k\<rparr>)
      | O_pop_lost b \<Rightarrow> Some (s\<lparr>cbottom := b + 1, owner := O_idle\<rparr>)
      | O_pop_read b k \<Rightarrow>
          Some (s\<lparr>owner := O_idle, taken := add_mset (rb_load b (cbuffers s ! k)) (taken s)\<rparr>))"

subsection \<open>The steps of a thief\<close>

fun thief_step :: "nat \<Rightarrow> 'a deque_state \<Rightarrow> 'a deque_state option" where
  "thief_step i s =
     (let go = (\<lambda>pc. s\<lparr>thieves := (thieves s)(i := pc)\<rparr>) in
      case thieves s i of
        T_idle \<Rightarrow> None
      | T_top \<Rightarrow> Some (go (T_bottom (ctop s)))
      | T_bottom t \<Rightarrow> Some (go (if t < cbottom s then T_buffer t else T_idle))
      | T_buffer t \<Rightarrow> Some (go (T_read t (cbuffer s)))
      | T_read t k \<Rightarrow> Some (go (T_cas t (rb_load t (cbuffers s ! k))))
      | T_cas t x \<Rightarrow>
          (case compare_exchange (ctop s) t (t + 1) of
             (True, t', _) \<Rightarrow> Some ((go T_idle)\<lparr>ctop := t', taken := add_mset x (taken s)\<rparr>)
           | (False, _, _) \<Rightarrow> Some (go T_idle)))"

declare owner_step.simps [simp del] thief_step.simps [simp del]

text \<open>A step of the system: an operation is called, or a running one moves.\<close>

inductive deque_step :: "'a deque_state \<Rightarrow> 'a deque_state \<Rightarrow> bool" where
  call_emplace: "owner s = O_idle \<Longrightarrow> deque_step s (s\<lparr>owner := O_emp_bottom x\<rparr>)"
| call_pop: "owner s = O_idle \<Longrightarrow> deque_step s (s\<lparr>owner := O_pop_bottom\<rparr>)"
| call_steal: "thieves s i = T_idle \<Longrightarrow> deque_step s (s\<lparr>thieves := (thieves s)(i := T_top)\<rparr>)"
| step_owner: "owner_step s = Some s' \<Longrightarrow> deque_step s s'"
| step_thief: "thief_step i s = Some s' \<Longrightarrow> deque_step s s'"

subsection \<open>What the shared state means\<close>

text \<open>
  While the owner is inside \<open>pop\<close> and has lowered \<open>_bottom\<close>, the element it aims at still
  belongs to the deque until the owner has it for sure.
\<close>

fun logical_bottom :: "'a deque_state \<Rightarrow> int" where
  "logical_bottom s =
     (case owner s of
        O_pop_top b k \<Rightarrow> b + 1 | O_pop_cas b k t \<Rightarrow> b + 1 | O_pop_won b k \<Rightarrow> b + 1
      | O_pop_lost b \<Rightarrow> b + 1 | _ \<Rightarrow> cbottom s)"

definition contents :: "'a deque_state \<Rightarrow> 'a option list" where
  "contents s = ring_window (ctop s) (logical_bottom s) (current s)"

text \<open>The element the owner has taken out and not yet returned.\<close>

fun held :: "'a deque_state \<Rightarrow> 'a option multiset" where
  "held s =
     (case owner s of
        O_pop_won b k \<Rightarrow> {#rb_load b (current s)#} | O_pop_read b k \<Rightarrow> {#rb_load b (current s)#}
      | _ \<Rightarrow> {#})"

declare logical_bottom.simps [simp del] held.simps [simp del]

definition buffers_ok :: "'a deque_state \<Rightarrow> bool" where
  "buffers_ok s \<longleftrightarrow> cbuffer s < length (cbuffers s) \<and> (\<forall>r \<in> set (cbuffers s). ring_ok r) \<and>
     ctop s \<le> logical_bottom s \<and> logical_bottom s - ctop s \<le> rb_cap (current s) \<and>
     None \<notin> set (contents s)"

definition owner_ok :: "'a deque_state \<Rightarrow> bool" where
  "owner_ok s \<longleftrightarrow>
     (case owner s of
        O_emp_top x b \<Rightarrow> b = cbottom s
      | O_emp_buffer x b t \<Rightarrow> b = cbottom s \<and> t \<le> ctop s \<and> b - t \<le> rb_cap (current s)
      | O_emp_store x b k \<Rightarrow> b = cbottom s \<and> k = cbuffer s \<and> b - ctop s < rb_cap (current s)
      | O_emp_publish x b \<Rightarrow> b = cbottom s \<and> b - ctop s < rb_cap (current s) \<and>
          rb_load b (current s) = Some x
      | O_pop_buffer b \<Rightarrow> b = cbottom s - 1
      | O_pop_claim b k \<Rightarrow> b = cbottom s - 1 \<and> k = cbuffer s
      | O_pop_top b k \<Rightarrow> cbottom s = b \<and> k = cbuffer s
      | O_pop_cas b k t \<Rightarrow> cbottom s = b \<and> k = cbuffer s \<and> t = b \<and> b \<le> ctop s
      | O_pop_won b k \<Rightarrow> cbottom s = b \<and> k = cbuffer s \<and> ctop s = b + 1 \<and>
          rb_load b (current s) \<noteq> None
      | O_pop_lost b \<Rightarrow> cbottom s = b \<and> ctop s = b + 1
      | O_pop_read b k \<Rightarrow> k = cbuffer s \<and> (cbottom s = b \<or> cbottom s = b + 1 \<and> ctop s = b + 1) \<and>
          rb_load b (current s) \<noteq> None
      | _ \<Rightarrow> True)"

text \<open>
  A thief that could still win has read \<open>_top\<close> at its current value; then there is an element
  at that index, and what the thief has read or will read is that element.
\<close>

definition thief_ok :: "'a deque_state \<Rightarrow> 'a thief_pc \<Rightarrow> bool" where
  "thief_ok s pc \<longleftrightarrow>
     (case pc of
        T_bottom t \<Rightarrow> t \<le> ctop s
      | T_buffer t \<Rightarrow> t \<le> ctop s \<and> (t = ctop s \<longrightarrow> t < logical_bottom s)
      | T_read t k \<Rightarrow> t \<le> ctop s \<and> k < length (cbuffers s) \<and>
          (t = ctop s \<longrightarrow> t < logical_bottom s \<and> rb_load t (cbuffers s ! k) = rb_load t (current s))
      | T_cas t x \<Rightarrow> t \<le> ctop s \<and>
          (t = ctop s \<longrightarrow> t < logical_bottom s \<and> x = rb_load t (current s))
      | _ \<Rightarrow> True)"

definition balanced :: "'a deque_state \<Rightarrow> bool" where
  "balanced s \<longleftrightarrow> image_mset Some (pushed s) = taken s + held s + mset (contents s)"

definition deque_inv :: "'a deque_state \<Rightarrow> bool" where
  "deque_inv s \<longleftrightarrow> buffers_ok s \<and> owner_ok s \<and> (\<forall>i. thief_ok s (thieves s i)) \<and> balanced s"

subsection \<open>The owner keeps the invariant\<close>

lemmas deque_defs = buffers_ok_def owner_ok_def balanced_def contents_def logical_bottom.simps
  held.simps

lemma contents_not_None: "deque_inv s \<Longrightarrow> c \<in> set (contents s) \<Longrightarrow> c \<noteq> None"
  unfolding deque_inv_def buffers_ok_def by metis

lemma thief_ok_cong:
  "ctop s' = ctop s \<Longrightarrow> logical_bottom s' = logical_bottom s \<Longrightarrow> cbuffers s' = cbuffers s \<Longrightarrow>
   cbuffer s' = cbuffer s \<Longrightarrow> thief_ok s' pc = thief_ok s pc"
  by (simp add: thief_ok_def split: thief_pc.split)

text \<open>
  The abstract deque: the elements in order, and the multiset of those taken out. Each step
  of the code is one of its operations or leaves it alone.
\<close>

inductive queue_step ::
  "'a option list \<times> 'a option multiset \<Rightarrow> 'a option list \<times> 'a option multiset \<Rightarrow> bool" where
  q_stay: "queue_step (xs, c) (xs, c)"
| q_push: "queue_step (xs, c) (xs @ [Some x], c)"
| q_pop: "queue_step (xs @ [v], c) (xs, add_mset v c)"
| q_steal: "queue_step (v # xs, c) (xs, add_mset v c)"

definition abstraction :: "'a deque_state \<Rightarrow> 'a option list \<times> 'a option multiset" where
  "abstraction s = (contents s, taken s + held s)"

lemma q_same: "abstraction s' = abstraction s \<Longrightarrow> queue_step (abstraction s) (abstraction s')"
  by (simp add: abstraction_def q_stay)

lemma q_popI:
  "contents s = contents s' @ [v] \<Longrightarrow> taken s' + held s' = add_mset v (taken s + held s) \<Longrightarrow>
   queue_step (abstraction s) (abstraction s')"
  by (simp add: abstraction_def q_pop)

lemma q_pushI:
  "contents s' = contents s @ [Some x] \<Longrightarrow> taken s' + held s' = taken s + held s \<Longrightarrow>
   queue_step (abstraction s) (abstraction s')"
  by (simp add: abstraction_def q_push)

lemma q_stealI:
  "contents s = v # contents s' \<Longrightarrow> taken s' + held s' = add_mset v (taken s + held s) \<Longrightarrow>
   queue_step (abstraction s) (abstraction s')"
  by (simp add: abstraction_def q_steal)

lemma q_stayI:
  "contents s' = contents s \<Longrightarrow> taken s' + held s' = taken s + held s \<Longrightarrow>
   queue_step (abstraction s) (abstraction s')"
  by (simp add: abstraction_def q_stay)

text \<open>Steps that read shared memory, or start an operation, change only the program counter.\<close>

lemma owner_local:
  assumes inv: "deque_inv s" and s': "s' = s\<lparr>owner := pc\<rparr>" and ok: "owner_ok s'"
    and lb: "logical_bottom s' = logical_bottom s" and held: "held s' = held s"
  shows "deque_inv s' \<and> queue_step (abstraction s) (abstraction s')"
proof -
  have same: "ctop s' = ctop s" "cbuffers s' = cbuffers s" "cbuffer s' = cbuffer s"
    "thieves s' = thieves s" "pushed s' = pushed s" "taken s' = taken s"
    by (simp_all add: s')
  show ?thesis
    using inv ok thief_ok_cong [of s' s] lb held
    by (intro conjI q_same)
      (simp_all add: deque_inv_def buffers_ok_def balanced_def contents_def abstraction_def same)
qed

lemma owner_step_inv:
  assumes inv: "deque_inv s" and st: "owner_step s = Some s'"
  shows "deque_inv s' \<and> queue_step (abstraction s) (abstraction s')"
proof (cases "owner s")
  case O_idle
  with st show ?thesis by (simp add: owner_step.simps)
next
  case (O_emp_bottom x)
  with st have s': "s' = s\<lparr>owner := O_emp_top x (cbottom s)\<rparr>" by (simp add: owner_step.simps)
  show ?thesis
    by (rule owner_local [OF inv s']) (use O_emp_bottom in \<open>simp_all add: deque_defs s'\<close>)
next
  case (O_emp_top x b)
  with st have s': "s' = s\<lparr>owner := O_emp_buffer x b (ctop s)\<rparr>" by (simp add: owner_step.simps)
  show ?thesis
    by (rule owner_local [OF inv s'])
      (use O_emp_top inv in \<open>simp_all add: deque_defs s' deque_inv_def\<close>)
next
  case (O_pop_bottom)
  with st have s': "s' = s\<lparr>owner := O_pop_buffer (cbottom s - 1)\<rparr>" by (simp add: owner_step.simps)
  show ?thesis
    by (rule owner_local [OF inv s'])
      (use O_pop_bottom inv in \<open>simp_all add: deque_defs s' deque_inv_def\<close>)
next
  case (O_pop_buffer b)
  with st have s': "s' = s\<lparr>owner := O_pop_claim b (cbuffer s)\<rparr>" by (simp add: owner_step.simps)
  show ?thesis
    by (rule owner_local [OF inv s'])
      (use O_pop_buffer inv in \<open>simp_all add: deque_defs s' deque_inv_def\<close>)
next
  case (O_pop_claim b k)
  with st have s': "s' = s\<lparr>cbottom := b, owner := O_pop_top b k\<rparr>" by (simp add: owner_step.simps)
  have "thief_ok s' pc = thief_ok s pc" for pc
    by (rule thief_ok_cong) (use O_pop_claim inv in \<open>simp_all add: deque_defs s' deque_inv_def\<close>)
  moreover have "abstraction s' = abstraction s"
    using O_pop_claim inv by (simp add: abstraction_def deque_defs s' deque_inv_def)
  ultimately show ?thesis
    using O_pop_claim inv by (intro conjI q_same) (simp_all add: deque_defs s' deque_inv_def)
next
  case (O_pop_won b k)
  with st have s': "s' = s\<lparr>cbottom := b + 1, owner := O_pop_read b k\<rparr>" by (simp add: owner_step.simps)
  have "thief_ok s' pc = thief_ok s pc" for pc
    by (rule thief_ok_cong) (use O_pop_won inv in \<open>simp_all add: deque_defs s' deque_inv_def\<close>)
  moreover have "abstraction s' = abstraction s"
    using O_pop_won inv by (simp add: abstraction_def deque_defs s' deque_inv_def)
  ultimately show ?thesis
    using O_pop_won inv by (intro conjI q_same) (simp_all add: deque_defs s' deque_inv_def)
next
  case (O_pop_lost b)
  with st have s': "s' = s\<lparr>cbottom := b + 1, owner := O_idle\<rparr>" by (simp add: owner_step.simps)
  have "thief_ok s' pc = thief_ok s pc" for pc
    by (rule thief_ok_cong) (use O_pop_lost inv in \<open>simp_all add: deque_defs s' deque_inv_def\<close>)
  moreover have "abstraction s' = abstraction s"
    using O_pop_lost inv by (simp add: abstraction_def deque_defs s' deque_inv_def)
  ultimately show ?thesis
    using O_pop_lost inv by (intro conjI q_same) (simp_all add: deque_defs s' deque_inv_def)
next
  case (O_pop_read b k)
  with st have s': "s' = s\<lparr>owner := O_idle, taken := add_mset (rb_load b (cbuffers s ! k)) (taken s)\<rparr>"
    by (simp add: owner_step.simps)
  have "thief_ok s' pc = thief_ok s pc" for pc
    by (rule thief_ok_cong) (use O_pop_read inv in \<open>simp_all add: deque_defs s' deque_inv_def\<close>)
  moreover have "abstraction s' = abstraction s"
    using O_pop_read inv by (simp add: abstraction_def deque_defs s' deque_inv_def)
  ultimately show ?thesis
    using O_pop_read inv by (intro conjI q_same) (simp_all add: deque_defs s' deque_inv_def)
next
  case (O_pop_top b k)
  have facts: "cbottom s = b" "k = cbuffer s" "logical_bottom s = b + 1" "ctop s \<le> b + 1" "held s = {#}"
    using O_pop_top inv by (simp_all add: deque_defs deque_inv_def)
  show ?thesis
  proof (cases "ctop s < b")
    case False
    have s': "s' = s\<lparr>owner := if ctop s = b then O_pop_cas b k (ctop s) else O_pop_lost b\<rparr>"
      using False st O_pop_top by (auto simp: owner_step.simps)
    show ?thesis
      by (rule owner_local [OF inv s']) (use False facts in \<open>auto simp: deque_defs s'\<close>)
  next
    case True
    then have s': "s' = s\<lparr>owner := O_pop_read b k\<rparr>"
      using st O_pop_top by (simp add: owner_step.simps)
    have w: "contents s = contents s' @ [rb_load b (current s)]"
      using True facts ring_window_snoc [of "ctop s" b "current s"]
      by (simp add: contents_def s' logical_bottom.simps)
    have th: "thief_ok s pc \<Longrightarrow> thief_ok s' pc" for pc
      using True facts by (auto simp: thief_ok_def s' logical_bottom.simps split: thief_pc.split)
    have "buffers_ok s'"
      using inv w True facts by (simp add: deque_inv_def buffers_ok_def) (simp add: s' logical_bottom.simps)
    moreover have "rb_load b (current s) \<noteq> None"
      using contents_not_None [OF inv] w by simp
    then have "owner_ok s'"
      using True facts by (simp add: owner_ok_def s')
    moreover have "balanced s'"
      using inv w facts by (simp add: deque_inv_def balanced_def) (simp add: s' held.simps)
    moreover have "queue_step (abstraction s) (abstraction s')"
      by (rule q_popI [OF w]) (use facts in \<open>simp add: s' held.simps\<close>)
    ultimately show ?thesis
      using inv th by (intro conjI) (simp_all add: deque_inv_def s')
  qed
next
  case (O_pop_cas b k t)
  have facts: "cbottom s = b" "k = cbuffer s" "t = b" "logical_bottom s = b + 1" "b \<le> ctop s"
      "ctop s \<le> b + 1" "held s = {#}"
    using O_pop_cas inv by (simp_all add: deque_defs deque_inv_def)
  show ?thesis
  proof (cases "ctop s = b")
    case False
    then have s': "s' = s\<lparr>owner := O_pop_lost b\<rparr>"
      using st O_pop_cas facts by (simp add: owner_step.simps)
    show ?thesis
      by (rule owner_local [OF inv s']) (use False facts in \<open>auto simp: deque_defs s'\<close>)
  next
    case True
    then have s': "s' = s\<lparr>ctop := b + 1, owner := O_pop_won b k\<rparr>"
      using st O_pop_cas facts by (simp add: owner_step.simps)
    have w: "contents s = [rb_load b (current s)]" "contents s' = []"
      using True facts ring_window_snoc [of b b "current s"]
      by (simp_all add: contents_def s' logical_bottom.simps)
    have th: "thief_ok s pc \<Longrightarrow> thief_ok s' pc" for pc
      using True facts by (auto simp: thief_ok_def s' logical_bottom.simps split: thief_pc.split)
    have "balanced s'"
      using inv w facts by (simp add: deque_inv_def balanced_def) (simp add: s' held.simps)
    moreover have "buffers_ok s'"
      using inv w True facts ring_cap_pos [of "current s"]
      by (simp add: deque_inv_def buffers_ok_def) (simp add: s' logical_bottom.simps)
    moreover have "rb_load b (current s) \<noteq> None"
      using contents_not_None [OF inv] w by simp
    then have "owner_ok s'"
      using facts by (simp add: owner_ok_def s')
    moreover have "queue_step (abstraction s) (abstraction s')"
      by (rule q_popI [of _ _ "rb_load b (current s)"]) (use w facts in \<open>simp_all add: s' held.simps\<close>)
    ultimately show ?thesis
      using inv th by (intro conjI) (simp_all add: deque_inv_def s')
  qed
next
  case (O_emp_publish x b)
  have facts: "cbottom s = b" "logical_bottom s = b" "held s = {#}" "ctop s \<le> b"
      "b - ctop s < rb_cap (current s)" "rb_load b (current s) = Some x"
    using O_emp_publish inv by (auto simp: deque_defs deque_inv_def)
  have s': "s' = s\<lparr>cbottom := b + 1, owner := O_idle, pushed := add_mset x (pushed s)\<rparr>"
    using st O_emp_publish by (simp add: owner_step.simps)
  have w: "contents s' = contents s @ [Some x]"
    using facts by (simp add: contents_def s' logical_bottom.simps ring_window_snoc)
  have th: "thief_ok s pc \<Longrightarrow> thief_ok s' pc" for pc
    using facts by (auto simp: thief_ok_def s' logical_bottom.simps split: thief_pc.split)
  have "balanced s'"
    using inv w facts by (simp add: deque_inv_def balanced_def) (simp add: s' held.simps)
  moreover have "buffers_ok s'"
    using inv w facts
    by (simp add: deque_inv_def buffers_ok_def) (simp add: s' logical_bottom.simps)
  moreover have "owner_ok s'" by (simp add: owner_ok_def s')
  moreover have "queue_step (abstraction s) (abstraction s')"
    by (rule q_pushI [OF w]) (use facts in \<open>simp add: s' held.simps\<close>)
  ultimately show ?thesis
    using inv th by (intro conjI) (simp_all add: deque_inv_def s')
next
  case (O_emp_store x b k)
  let ?r = "rb_store b (Some x) (current s)"
  have facts: "cbottom s = b" "k = cbuffer s" "logical_bottom s = b" "held s = {#}" "ctop s \<le> b"
      "b - ctop s < rb_cap (current s)" "cbuffer s < length (cbuffers s)"
      "\<And>r. r \<in> set (cbuffers s) \<Longrightarrow> ring_ok r"
    using O_emp_store inv by (simp_all add: deque_defs deque_inv_def)
  have ring: "ring_ok (current s)" using facts(7,8) by simp
  have s': "s' = s\<lparr>cbuffers := (cbuffers s)[k := ?r], owner := O_emp_publish x b\<rparr>"
    using st O_emp_store facts(2) by (simp add: owner_step.simps)
  have cur: "current s' = ?r" using facts by (simp add: s')
  have old: "rb_load t (cbuffers s' ! j) = rb_load t (cbuffers s ! j)"
    if "j < length (cbuffers s)" "ctop s \<le> t" "t < b" for j t
    using that facts rb_load_store_other [OF ring, of t b "Some x"]
    by (cases "j = k") (simp_all add: s')
  have head: "rb_load (ctop s) ?r = rb_load (ctop s) (current s)" if "ctop s < b"
    using that facts by (intro rb_load_store_other [OF ring]) auto
  have w: "contents s' = contents s"
    using facts ring_window_store [OF ring, of b "ctop s" "Some x"]
    by (simp add: contents_def cur) (simp add: s' logical_bottom.simps)
  have th: "thief_ok s pc \<Longrightarrow> thief_ok s' pc" for pc
    using facts old head by (auto simp: thief_ok_def s' logical_bottom.simps split: thief_pc.split)
  have "balanced s'"
    using inv w facts by (simp add: deque_inv_def balanced_def) (simp add: s' held.simps)
  moreover have "\<forall>r \<in> set (cbuffers s'). ring_ok r"
    using facts(8) ring set_update_subset_insert [of "cbuffers s" k ?r] by (auto simp: s')
  then have "buffers_ok s'"
    using inv w facts cur
    by (simp add: deque_inv_def buffers_ok_def) (simp add: s' logical_bottom.simps)
  moreover have "owner_ok s'"
    using facts cur rb_load_store_same [OF ring, of b "Some x"] by (simp add: owner_ok_def s')
  moreover have "queue_step (abstraction s) (abstraction s')"
    by (rule q_stayI [OF w]) (use facts in \<open>simp add: s' held.simps\<close>)
  ultimately show ?thesis
    using inv th by (intro conjI) (simp_all add: deque_inv_def s')
next
  case (O_emp_buffer x b t)
  have facts: "cbottom s = b" "logical_bottom s = b" "held s = {#}" "ctop s \<le> b" "t \<le> ctop s"
      "b - t \<le> rb_cap (current s)" "cbuffer s < length (cbuffers s)"
      "\<And>r. r \<in> set (cbuffers s) \<Longrightarrow> ring_ok r"
    using O_emp_buffer inv by (simp_all add: deque_defs deque_inv_def)
  show ?thesis
  proof (cases "rb_cap (current s) < (b - t) + 1")
    case False
    then have s': "s' = s\<lparr>owner := O_emp_store x b (cbuffer s)\<rparr>"
      using st O_emp_buffer by (simp add: owner_step.simps)
    show ?thesis
      by (rule owner_local [OF inv s']) (use False facts in \<open>simp_all add: deque_defs s'\<close>)
  next
    case True
    have ring: "ring_ok (current s)" using facts(7,8) by simp
    obtain r where r: "rb_resize b t (current s) = Some r" "ring_ok r"
        "rb_cap r = 2 * rb_cap (current s)"
        "\<And>j. t \<le> j \<Longrightarrow> j < b \<Longrightarrow> rb_load j r = rb_load j (current s)"
      using rb_resize_correct [OF ring, of t b] facts by auto
    let ?k = "length (cbuffers s)"
    have s': "s' = s\<lparr>cbuffers := cbuffers s @ [r], cbuffer := ?k, owner := O_emp_store x b ?k\<rparr>"
      using True st O_emp_buffer r(1) by (simp add: owner_step.simps)
    have cur: "current s' = r" by (simp add: s')
    have "ring_window (ctop s) b r = ring_window (ctop s) b (current s)"
      by (rule ring_window_cong, rule r(4)) (use facts in auto)
    then have w: "contents s' = contents s"
      using facts by (simp add: contents_def cur) (simp add: s' logical_bottom.simps)
    have th: "thief_ok s pc \<Longrightarrow> thief_ok s' pc" for pc
      using facts r(4) by (auto simp: thief_ok_def s' logical_bottom.simps nth_append split: thief_pc.split)
    have "balanced s'"
      using inv w facts by (simp add: deque_inv_def balanced_def) (simp add: s' held.simps)
    moreover have "buffers_ok s'"
      using inv w facts r(2,3) ring_cap_pos [OF ring]
      by (simp add: deque_inv_def buffers_ok_def cur) (simp add: s' logical_bottom.simps)
    moreover have "owner_ok s'"
      using facts r(3) True ring_cap_pos [OF ring] by (simp add: owner_ok_def s')
    moreover have "queue_step (abstraction s) (abstraction s')"
      by (rule q_stayI [OF w]) (use facts in \<open>simp add: s' held.simps\<close>)
    ultimately show ?thesis
      using inv th by (intro conjI) (simp_all add: deque_inv_def s')
  qed
qed

subsection \<open>Thieves keep the invariant\<close>

lemma owner_frame:
  "owner s' = owner s \<Longrightarrow> cbottom s' = cbottom s \<Longrightarrow> logical_bottom s' = logical_bottom s"
  "owner s' = owner s \<Longrightarrow> cbuffers s' = cbuffers s \<Longrightarrow> cbuffer s' = cbuffer s \<Longrightarrow> held s' = held s"
  by (simp_all add: logical_bottom.simps held.simps split: owner_pc.split)

lemma owner_ok_cong:
  "owner s' = owner s \<Longrightarrow> ctop s' = ctop s \<Longrightarrow> cbottom s' = cbottom s \<Longrightarrow>
   cbuffers s' = cbuffers s \<Longrightarrow> cbuffer s' = cbuffer s \<Longrightarrow> owner_ok s' = owner_ok s"
  by (simp add: owner_ok_def split: owner_pc.split)

lemma thief_local:
  assumes inv: "deque_inv s" and s': "s' = s\<lparr>thieves := (thieves s)(i := pc)\<rparr>" and ok: "thief_ok s pc"
  shows "deque_inv s' \<and> queue_step (abstraction s) (abstraction s')"
proof -
  have same: "ctop s' = ctop s" "cbottom s' = cbottom s" "cbuffers s' = cbuffers s"
      "cbuffer s' = cbuffer s" "owner s' = owner s" "pushed s' = pushed s" "taken s' = taken s"
    by (simp_all add: s')
  note fr = owner_frame [OF same(5)]
  have "thief_ok s' q = thief_ok s q" for q
    by (rule thief_ok_cong) (simp_all add: same fr)
  then have "deque_inv s'"
    using inv ok owner_ok_cong [of s' s]
    by (simp add: deque_inv_def buffers_ok_def balanced_def contents_def same fr)
      (simp add: s')
  moreover have "abstraction s' = abstraction s"
    by (simp add: abstraction_def contents_def same fr)
  ultimately show ?thesis by (simp add: q_same)
qed

lemma thief_step_inv:
  assumes inv: "deque_inv s" and st: "thief_step i s = Some s'"
  shows "deque_inv s' \<and> queue_step (abstraction s) (abstraction s')"
proof (cases "thieves s i")
  case T_idle
  with st show ?thesis by (simp add: thief_step.simps)
next
  case T_top
  with st have s': "s' = s\<lparr>thieves := (thieves s)(i := T_bottom (ctop s))\<rparr>"
    by (simp add: thief_step.simps)
  show ?thesis by (rule thief_local [OF inv s']) (simp add: thief_ok_def)
next
  case (T_bottom t)
  with st have s': "s' = s\<lparr>thieves := (thieves s)(i := if t < cbottom s then T_buffer t else T_idle)\<rparr>"
    by (simp add: thief_step.simps)
  have "thief_ok s (T_bottom t)" using inv T_bottom by (metis deque_inv_def)
  then have "t \<le> ctop s" by (simp add: thief_ok_def)
  moreover have "cbottom s \<le> logical_bottom s"
    using inv by (simp add: deque_inv_def owner_ok_def logical_bottom.simps split: owner_pc.splits)
  ultimately show ?thesis
    by (intro thief_local [OF inv s']) (simp add: thief_ok_def)
next
  case (T_buffer t)
  then have ok: "thief_ok s (T_buffer t)" using inv by (metis deque_inv_def)
  from T_buffer st have s': "s' = s\<lparr>thieves := (thieves s)(i := T_read t (cbuffer s))\<rparr>"
    by (simp add: thief_step.simps)
  show ?thesis
    by (rule thief_local [OF inv s'])
      (use ok inv in \<open>simp add: thief_ok_def deque_inv_def buffers_ok_def\<close>)
next
  case (T_read t k)
  then have ok: "thief_ok s (T_read t k)" using inv by (metis deque_inv_def)
  from T_read st have s': "s' = s\<lparr>thieves := (thieves s)(i := T_cas t (rb_load t (cbuffers s ! k)))\<rparr>"
    by (simp add: thief_step.simps)
  show ?thesis
    by (rule thief_local [OF inv s']) (use ok in \<open>simp add: thief_ok_def\<close>)
next
  case (T_cas t x)
  then have ok: "thief_ok s (T_cas t x)" using inv by (metis deque_inv_def)
  show ?thesis
  proof (cases "ctop s = t")
    case False
    with T_cas st have s': "s' = s\<lparr>thieves := (thieves s)(i := T_idle)\<rparr>"
      by (simp add: thief_step.simps)
    show ?thesis by (rule thief_local [OF inv s']) (simp add: thief_ok_def)
  next
    case True
    then have lt: "ctop s < logical_bottom s" and x: "x = rb_load (ctop s) (current s)"
      using ok by (simp_all add: thief_ok_def)
    have s': "s' = s\<lparr>thieves := (thieves s)(i := T_idle), ctop := ctop s + 1,
        taken := add_mset x (taken s)\<rparr>"
      using T_cas st True by (simp add: thief_step.simps)
    have same: "cbottom s' = cbottom s" "cbuffers s' = cbuffers s"
        "cbuffer s' = cbuffer s" "owner s' = owner s" "pushed s' = pushed s"
      by (simp_all add: s')
    note fr = owner_frame [OF same(4)]
    have w: "contents s = x # contents s'"
      using lt x by (simp add: contents_def fr same ring_window_cons) (simp add: s')
    have th: "thief_ok s pc \<Longrightarrow> thief_ok s' pc" for pc
      by (simp add: thief_ok_def same fr split: thief_pc.split) (auto simp: s')
    have "balanced s'"
      using inv w by (simp add: deque_inv_def balanced_def same fr) (simp add: s')
    moreover have "buffers_ok s'"
      using inv w lt by (simp add: deque_inv_def buffers_ok_def same fr) (simp add: s')
    moreover have "owner_ok s'"
      using inv lt
      by (simp add: deque_inv_def owner_ok_def same fr logical_bottom.simps split: owner_pc.splits)
        (auto simp: s')
    moreover have "queue_step (abstraction s) (abstraction s')"
      by (rule q_stealI [OF w]) (simp add: fr same, simp add: s')
    ultimately show ?thesis
      using inv th by (intro conjI) (simp_all add: deque_inv_def, simp add: s' thief_ok_def)
  qed
qed

end
