(* ===== verification/Deque_Conc_Props.thy ===== *)
theory Deque_Conc_Props
  imports Deque_Conc
begin

section \<open>What the concurrent deque guarantees\<close>

text \<open>
  The invariant holds in every reachable state, so the properties of the deque are read off
  it: no element is lost, returned twice or invented; every step is one step of an abstract
  deque; an empty answer of \<open>pop\<close> is given only when the deque is empty; and every operation
  ends after a bounded number of its own steps, whatever the others do.
\<close>

definition deque_start :: "'a deque_state \<Rightarrow> bool" where
  "deque_start s \<longleftrightarrow> (\<exists>k. s = deque_init k)"

lemma deque_init_inv: "deque_inv (deque_init k)"
  by (simp add: deque_init_def deque_inv_def deque_defs thief_ok_def ring_ok_new)
    (simp add: rb_new_def)

lemma call_local:
  assumes "deque_inv s" and "owner s = O_idle" and "pc = O_emp_bottom x \<or> pc = O_pop_bottom"
  shows "deque_inv (s\<lparr>owner := pc\<rparr>) \<and> queue_step (abstraction s) (abstraction (s\<lparr>owner := pc\<rparr>))"
  by (rule owner_local [OF assms(1) refl]) (use assms in \<open>auto simp: deque_defs\<close>)

lemma deque_step_inv:
  "deque_step s s' \<Longrightarrow> deque_inv s \<Longrightarrow>
   deque_inv s' \<and> queue_step (abstraction s) (abstraction s')"
proof (induction rule: deque_step.induct)
  case (call_emplace s x)
  then show ?case by (intro call_local) auto
next
  case (call_pop s)
  then show ?case by (intro call_local) auto
next
  case (call_steal s i)
  then show ?case by (intro thief_local [where i = i and pc = T_top]) (simp_all add: thief_ok_def)
next
  case (step_owner s s')
  then show ?case by (intro owner_step_inv)
next
  case (step_thief i s s')
  then show ?case by (intro thief_step_inv)
qed

interpretation dqc: invariant_system deque_start deque_step deque_inv
  by unfold_locales (auto simp: deque_start_def deque_init_inv deque_step_inv)

subsection \<open>A reachable state for the witnesses\<close>

text \<open>Run the owner, and a thief, while they have a next step.\<close>

fun owner_run :: "nat \<Rightarrow> 'a deque_state \<Rightarrow> 'a deque_state" where
  "owner_run 0 s = s"
| "owner_run (Suc n) s = (case owner_step s of None \<Rightarrow> s | Some s' \<Rightarrow> owner_run n s')"

fun thief_run :: "nat \<Rightarrow> nat \<Rightarrow> 'a deque_state \<Rightarrow> 'a deque_state" where
  "thief_run i 0 s = s"
| "thief_run i (Suc n) s = (case thief_step i s of None \<Rightarrow> s | Some s' \<Rightarrow> thief_run i n s')"

lemma owner_run_reach:
  "reach deque_start deque_step s \<Longrightarrow> reach deque_start deque_step (owner_run n s)"
  by (induction n arbitrary: s) (auto split: option.split dest!: step_owner intro: reach_step)

lemma thief_run_reach:
  "reach deque_start deque_step s \<Longrightarrow> reach deque_start deque_step (thief_run i n s)"
  by (induction n arbitrary: s) (auto split: option.split dest!: step_thief intro: reach_step)

lemma init_reach: "reach deque_start deque_step (deque_init k)"
  by (rule reach_init) (auto simp: deque_start_def)

text \<open>One element was pushed; the owner is about to compete for it in \<open>pop\<close> and thief 0 in
  \<open>steal\<close>: both are at their compare-exchange.\<close>

definition duel :: "nat deque_state" where
  "duel =
     (let s1 = owner_run 5 ((deque_init 0)\<lparr>owner := O_emp_bottom 7\<rparr>);
          s2 = thief_run 0 4 (s1\<lparr>thieves := (thieves s1)(0 := T_top)\<rparr>)
      in owner_run 4 (s2\<lparr>owner := O_pop_bottom\<rparr>))"

lemma duel_reach: "reach deque_start deque_step (duel :: nat deque_state)"
proof -
  let ?s0 = "(deque_init 0)\<lparr>owner := O_emp_bottom (7::nat)\<rparr>"
  have "reach deque_start deque_step ?s0"
    by (rule reach_step [OF init_reach call_emplace]) (simp add: deque_init_def)
  then have r1: "reach deque_start deque_step (owner_run 5 ?s0)" by (rule owner_run_reach)
  let ?s1 = "owner_run 5 ?s0"
  have "thieves ?s1 0 = T_idle" by code_simp
  then have "reach deque_start deque_step (?s1\<lparr>thieves := (thieves ?s1)(0 := T_top)\<rparr>)"
    by (intro reach_step [OF r1] call_steal)
  then have r2: "reach deque_start deque_step
      (thief_run 0 4 (?s1\<lparr>thieves := (thieves ?s1)(0 := T_top)\<rparr>))" by (rule thief_run_reach)
  let ?s2 = "thief_run 0 4 (?s1\<lparr>thieves := (thieves ?s1)(0 := T_top)\<rparr>)"
  have "owner ?s2 = O_idle" by code_simp
  then have "reach deque_start deque_step (?s2\<lparr>owner := O_pop_bottom\<rparr>)"
    by (intro reach_step [OF r2] call_pop)
  then show ?thesis unfolding duel_def Let_def by (rule owner_run_reach)
qed

lemma duel_pcs: "owner duel = O_pop_cas 0 0 0" "thieves duel 0 = T_cas 0 (Some 7)"
  by code_simp+

subsection \<open>Bounded operations\<close>

text \<open>How many own steps an operation still needs at most.\<close>

fun owner_rank :: "'a owner_pc \<Rightarrow> nat" where
  "owner_rank O_idle = 0"
| "owner_rank (O_emp_bottom x) = 5"
| "owner_rank (O_emp_top x b) = 4"
| "owner_rank (O_emp_buffer x b t) = 3"
| "owner_rank (O_emp_store x b k) = 2"
| "owner_rank (O_emp_publish x b) = 1"
| "owner_rank O_pop_bottom = 7"
| "owner_rank (O_pop_buffer b) = 6"
| "owner_rank (O_pop_claim b k) = 5"
| "owner_rank (O_pop_top b k) = 4"
| "owner_rank (O_pop_cas b k t) = 3"
| "owner_rank (O_pop_won b k) = 2"
| "owner_rank (O_pop_lost b) = 1"
| "owner_rank (O_pop_read b k) = 1"

fun thief_rank :: "'a thief_pc \<Rightarrow> nat" where
  "thief_rank T_idle = 0"
| "thief_rank T_top = 5"
| "thief_rank (T_bottom t) = 4"
| "thief_rank (T_buffer t) = 3"
| "thief_rank (T_read t k) = 2"
| "thief_rank (T_cas t x) = 1"

lemma owner_progress:
  assumes inv: "deque_inv s" and busy: "owner s \<noteq> O_idle"
  shows "\<exists>s'. owner_step s = Some s' \<and> owner_rank (owner s') < owner_rank (owner s) \<and>
    thieves s' = thieves s"
proof (cases "owner s")
  case (O_emp_buffer x b t)
  have "b - t \<le> rb_cap (current s)" "t \<le> b" "ring_ok (current s)"
    using inv O_emp_buffer by (auto simp: deque_inv_def deque_defs)
  then obtain r where "rb_resize b t (current s) = Some r"
    using rb_resize_correct by blast
  with O_emp_buffer show ?thesis by (simp add: owner_step.simps)
qed (use busy in \<open>simp_all add: owner_step.simps compare_exchange_def\<close>)

lemma thief_progress:
  "thieves s i \<noteq> T_idle \<Longrightarrow> \<exists>s'. thief_step i s = Some s' \<and>
     thief_rank (thieves s' i) < thief_rank (thieves s i) \<and> owner s' = owner s \<and>
     (\<forall>j. j \<noteq> i \<longrightarrow> thieves s' j = thieves s j)"
  by (cases "thieves s i") (simp_all add: thief_step.simps compare_exchange_def)

subsection \<open>Properties\<close>

text \<open>
  C15. No loss and no duplication: in every reachable state of one owner and any number of
  thieves, the elements published by \<open>emplace\<close> are exactly those returned by \<open>pop\<close> and
  \<open>steal\<close>, the one the owner is about to return, and those still in the deque, each counted
  as often as it was pushed. So what was returned is a sub-multiset of what was pushed, and
  when the owner is idle nothing is missing.
\<close>

theorem deque_conserves_elements:
  assumes "reach deque_start deque_step s"
  shows "image_mset Some (pushed s) = taken s + held s + mset (contents s) \<and>
    taken s \<subseteq># image_mset Some (pushed s) \<and>
    (owner s = O_idle \<longrightarrow> image_mset Some (pushed s) = taken s + mset (contents s))"
proof -
  have "balanced s" using dqc.reach_inv [OF assms] by (simp add: deque_inv_def)
  then show ?thesis
    by (auto simp: balanced_def held.simps)
qed

theorem deque_conserves_elements_witness:
  "owner (owner_run 3 duel) = O_idle \<and> taken (owner_run 3 duel) = {#Some 7#} \<and>
   image_mset Some (pushed (owner_run 3 duel)) =
     taken (owner_run 3 duel) + mset (contents (owner_run 3 duel))"
proof -
  have r: "reach deque_start deque_step (owner_run 3 duel)"
    by (intro owner_run_reach duel_reach)
  have idle: "owner (owner_run 3 duel) = O_idle" by code_simp
  have took: "taken (owner_run 3 duel) = {#Some 7#}" by code_simp
  have "image_mset Some (pushed (owner_run 3 duel)) =
      taken (owner_run 3 duel) + mset (contents (owner_run 3 duel))"
    using deque_conserves_elements [OF r] idle by blast
  with idle took show ?thesis by blast
qed

text \<open>
  C16. Linearisability by refinement: every step of every thread, in every reachable state,
  either leaves the abstract deque alone or is one whole abstract operation: a push of the
  new element at the bottom, a removal of the newest element by the owner, or a removal of
  the oldest element by a thief.
\<close>

theorem deque_step_refines:
  assumes "reach deque_start deque_step s" and "deque_step s s'"
  shows "queue_step (abstraction s) (abstraction s')"
  using deque_step_inv [OF assms(2)] dqc.reach_inv [OF assms(1)] by blast

theorem deque_step_refines_witness:
  "\<exists>s'. thief_step 0 duel = Some s' \<and> queue_step (abstraction duel) (abstraction s') \<and>
     taken s' = {#Some 7#}"
proof -
  obtain s' where s': "thief_step 0 duel = Some s'"
    using thief_progress [of duel 0] duel_pcs(2) by auto
  have "map_option taken (thief_step 0 duel) = Some {#Some 7#}" by code_simp
  with s' show ?thesis
    using deque_step_refines [OF duel_reach step_thief [OF s']] by auto
qed

text \<open>
  C17. An empty answer of \<open>pop\<close> is true: when the owner decides to return nullopt, whether
  because \<open>_top\<close> has passed or because a thief won the race for the last element, the deque
  holds no element.
\<close>

theorem pop_fails_only_when_empty:
  assumes "reach deque_start deque_step s" and "owner s = O_pop_lost b"
  shows "contents s = []"
  using dqc.reach_inv [OF assms(1)] assms(2)
  by (simp add: deque_inv_def owner_ok_def contents_def logical_bottom.simps)

theorem pop_fails_only_when_empty_witness:
  "owner (owner_run 1 (thief_run 0 1 duel)) = O_pop_lost 0 \<and>
   contents (owner_run 1 (thief_run 0 1 duel)) = []"
proof -
  have "reach deque_start deque_step (owner_run 1 (thief_run 0 1 duel))"
    by (intro owner_run_reach thief_run_reach duel_reach)
  moreover have "owner (owner_run 1 (thief_run 0 1 duel)) = O_pop_lost 0" by code_simp
  ultimately show ?thesis using pop_fails_only_when_empty by blast
qed

text \<open>
  C18. Wait freedom: in every reachable state a thread that is inside an operation can move,
  and its own step brings the operation closer to its end by a measure that starts at 7 at
  most and that no other thread's step changes. In particular the copy loop of \<open>resize\<close>
  always ends.
\<close>

theorem deque_wait_free:
  assumes "reach deque_start deque_step s"
  shows "(owner s \<noteq> O_idle \<longrightarrow> (\<exists>s'. owner_step s = Some s' \<and>
       owner_rank (owner s') < owner_rank (owner s) \<and> thieves s' = thieves s)) \<and>
    (\<forall>i. thieves s i \<noteq> T_idle \<longrightarrow> (\<exists>s'. thief_step i s = Some s' \<and>
       thief_rank (thieves s' i) < thief_rank (thieves s i) \<and> owner s' = owner s \<and>
       (\<forall>j. j \<noteq> i \<longrightarrow> thieves s' j = thieves s j)))"
  using owner_progress [OF dqc.reach_inv [OF assms]] thief_progress [of s] by blast

theorem deque_wait_free_witness:
  "\<exists>s' s''. owner_step duel = Some s' \<and> owner_rank (owner s') < owner_rank (owner duel) \<and>
     thief_step 0 duel = Some s'' \<and> thief_rank (thieves s'' 0) < thief_rank (thieves duel 0)"
  using deque_wait_free [OF duel_reach] by (force simp: duel_pcs)

end
