(* ===== verification/Task_State.thy ===== *)
theory Task_State
  imports Prelude
begin

section \<open>Completion of a task and its waiter (Task.hpp, FinalDelete.hpp, dispatchTask.hpp)\<close>

text \<open>
  A task and at most one coroutine that waits for it meet in the promise's \<open>workingState\<close>:
  1 while the task works, 2 once a continuation is registered, 0 once it is finished. Both
  sides change it by one compare-exchange, from different threads in any order. The model is
  a step relation: one step per access to the promise. The waiting coroutine counts as
  suspended from the call of \<open>await_suspend\<close> on, so another thread can resume it while the
  thread that runs \<open>await_suspend\<close> has not returned; the program counter is that thread's, and
  \<open>resumes\<close> counts how often the coroutine was continued after the await.
\<close>

subsection \<open>State\<close>

text \<open>
  The three ways to wait: \<open>co_await task.get()\<close>, a synchronous dispatch whose resources were
  not ready, and one whose resources were, where the dispatcher runs the task itself.
\<close>

datatype await_kind = Get | Sync_blocked | Sync_ready

text \<open>The thread that awaits, inside \<open>await_ready\<close> and \<open>await_suspend\<close>; the argument is \<open>expectedState\<close>.\<close>

datatype waiter_pc = W_await | W_store | W_cas | W_decide u32 | W_left

text \<open>The thread that runs the task, up to and through \<open>final_suspend\<close>.\<close>

datatype task_pc = T_created | T_body | T_returned | T_decide u32 | T_final "nat option" | T_gone | T_null_resume

record 'v promise =
  working_state :: u32
  continuation_handle :: "nat option"
  result_value :: "'v option"
  outside_task :: bool

record 'v completion =
  kind :: await_kind
  promise :: "'v promise"
  waiter :: waiter_pc
  task :: task_pc
  resumes :: nat
  received :: "'v option"

definition new_promise :: "'v promise" where
  "new_promise = \<lparr>working_state = 1, continuation_handle = None, result_value = None, outside_task = True\<rparr>"

definition completion_init :: "'v completion \<Rightarrow> bool" where
  "completion_init s \<longleftrightarrow> promise s = new_promise \<and> waiter s = W_await \<and> task s = T_created \<and>
     resumes s = 0 \<and> received s = None"

text \<open>The coroutine that waits; there is one, so its handle is a constant of the model.\<close>

definition waiter_handle :: nat where
  "waiter_handle = 1"

subsection \<open>The awaiting side\<close>

text \<open>
  \<open>await_resume\<close> runs when the coroutine is continued: it reads the result and, for \<open>get\<close>,
  notes that no handle outside the task is left.
\<close>

definition await_resume :: "'v completion \<Rightarrow> 'v completion" where
  "await_resume s = s\<lparr>resumes := resumes s + 1, received := result_value (promise s),
     promise := (if kind s = Get then (promise s)\<lparr>outside_task := False\<rparr> else promise s)\<rparr>"

text \<open>\<open>await_ready\<close>: only \<open>get\<close> looks whether the task is done.\<close>

definition await_ready :: "'v completion \<Rightarrow> bool" where
  "await_ready s \<longleftrightarrow> kind s = Get \<and> working_state (promise s) = 0"

text \<open>What \<open>await_suspend\<close> returns: whether the coroutine goes on in this thread.\<close>

definition await_continues :: "await_kind \<Rightarrow> u32 \<Rightarrow> bool" where
  "await_continues k expected =
     (case k of
        Get \<Rightarrow> \<not> (expected \<noteq> 0)
      | Sync_ready \<Rightarrow> False
      | Sync_blocked \<Rightarrow> expected = 0)"

definition waiter_step :: "'v completion \<Rightarrow> 'v completion option" where
  "waiter_step s =
     (case waiter s of
        W_await \<Rightarrow>
          if await_ready s then Some (await_resume (s\<lparr>waiter := W_left\<rparr>))
          else Some (s\<lparr>waiter := W_store\<rparr>)
      | W_store \<Rightarrow>
          Some (s\<lparr>promise := (promise s)\<lparr>continuation_handle := Some waiter_handle\<rparr>, waiter := W_cas\<rparr>)
      | W_cas \<Rightarrow>
          let (ok, ws, expected) = compare_exchange (working_state (promise s)) 1 2
          in Some (s\<lparr>promise := (promise s)\<lparr>working_state := ws\<rparr>, waiter := W_decide expected\<rparr>)
      | W_decide expected \<Rightarrow>
          if await_continues (kind s) expected then Some (await_resume (s\<lparr>waiter := W_left\<rparr>))
          else Some (s\<lparr>waiter := W_left\<rparr>)
      | W_left \<Rightarrow> None)"

subsection \<open>The task side\<close>

text \<open>
  With \<open>Sync_ready\<close> the task is started by \<open>await_suspend\<close> returning its handle; otherwise the
  thread pool or the thread that freed its resources starts it at any time.
\<close>

definition may_start :: "'v completion \<Rightarrow> bool" where
  "may_start s \<longleftrightarrow> kind s \<noteq> Sync_ready \<or> waiter s = W_left"

text \<open>
  \<open>FinalDelete::await_suspend\<close> gives up \<open>self\<close> and transfers to its copy of the handle; \<open>None\<close>
  is the no-op coroutine.
\<close>

definition final_delete :: "nat option \<Rightarrow> 'v completion \<Rightarrow> 'v completion" where
  "final_delete h s =
     (let s1 = s\<lparr>task := T_gone\<rparr>
      in case h of None \<Rightarrow> s1 | Some c \<Rightarrow> await_resume s1)"

text \<open>
  \<open>final_suspend\<close>: one compare-exchange; the continuation is read from the promise only if the
  state was 2, into the awaiter \<open>FinalDelete\<close>. A null continuation would be resumed as such:
  \<open>T_null_resume\<close>.
\<close>

definition task_step :: "'v \<Rightarrow> 'v completion \<Rightarrow> 'v completion option" where
  "task_step v s =
     (case task s of
        T_created \<Rightarrow> if may_start s then Some (s\<lparr>task := T_body\<rparr>) else None
      | T_body \<Rightarrow> Some (s\<lparr>promise := (promise s)\<lparr>result_value := Some v\<rparr>, task := T_returned\<rparr>)
      | T_returned \<Rightarrow>
          let (ok, ws, expected) = compare_exchange (working_state (promise s)) 1 0
          in Some (s\<lparr>promise := (promise s)\<lparr>working_state := ws\<rparr>, task := T_decide expected\<rparr>)
      | T_decide expected \<Rightarrow>
          if expected = 2
          then (case continuation_handle (promise s) of
                  None \<Rightarrow> Some (s\<lparr>task := T_null_resume\<rparr>)
                | Some h \<Rightarrow> Some (s\<lparr>task := T_final (Some h)\<rparr>))
          else Some (s\<lparr>task := T_final None\<rparr>)
      | T_final h \<Rightarrow> Some (final_delete h s)
      | T_gone \<Rightarrow> None
      | T_null_resume \<Rightarrow> None)"

inductive completion_step :: "'v \<Rightarrow> 'v completion \<Rightarrow> 'v completion \<Rightarrow> bool" for v :: 'v where
  waiter_moves: "waiter_step s = Some t \<Longrightarrow> completion_step v s t"
| task_moves: "task_step v s = Some t \<Longrightarrow> completion_step v s t"

inductive_cases completion_stepE: "completion_step v s t"

subsection \<open>The invariant\<close>

text \<open>
  Line by line: what the task has done so far; state 2 belongs to a waiter that registered in
  time; state 1 to one that has not; state 0 to a waiter that finds the task finished.
\<close>

definition task_ok :: "'v \<Rightarrow> 'v completion \<Rightarrow> bool" where
  "task_ok v s \<longleftrightarrow>
     (case task s of
        T_created \<Rightarrow> working_state (promise s) \<in> {1, 2} \<and> resumes s = 0
      | T_body \<Rightarrow> working_state (promise s) \<in> {1, 2} \<and> resumes s = 0
      | T_returned \<Rightarrow> result_value (promise s) = Some v \<and> working_state (promise s) \<in> {1, 2} \<and> resumes s = 0
      | T_decide e \<Rightarrow> result_value (promise s) = Some v \<and>
          (e = 2 \<and> working_state (promise s) = 2 \<and> resumes s = 0 \<or>
           e = 1 \<and> working_state (promise s) = 0)
      | T_final None \<Rightarrow> result_value (promise s) = Some v \<and> working_state (promise s) = 0
      | T_final (Some h) \<Rightarrow> result_value (promise s) = Some v \<and> working_state (promise s) = 2 \<and>
          h = waiter_handle \<and> resumes s = 0
      | T_gone \<Rightarrow> result_value (promise s) = Some v \<and>
          (working_state (promise s) = 2 \<and> resumes s = 1 \<or> working_state (promise s) = 0)
      | T_null_resume \<Rightarrow> False)"

definition waiter_ok :: "'v completion \<Rightarrow> bool" where
  "waiter_ok s \<longleftrightarrow>
     (working_state (promise s) = 2 \<longrightarrow>
        continuation_handle (promise s) = Some waiter_handle \<and> waiter s \<in> {W_decide 1, W_left}) \<and>
     (working_state (promise s) = 1 \<longrightarrow> waiter s \<in> {W_await, W_store, W_cas} \<and> resumes s = 0) \<and>
     (working_state (promise s) = 0 \<longrightarrow>
        waiter s \<in> {W_await, W_store, W_cas, W_decide 0} \<and> resumes s = 0 \<or> waiter s = W_left \<and> resumes s = 1) \<and>
     (waiter s = W_cas \<longrightarrow> continuation_handle (promise s) = Some waiter_handle)"

definition completion_inv :: "'v \<Rightarrow> 'v completion \<Rightarrow> bool" where
  "completion_inv v s \<longleftrightarrow> task_ok v s \<and> waiter_ok s \<and>
     (task s = T_created \<or> may_start s) \<and>
     received s = (if resumes s = 0 then None else result_value (promise s))"

lemma completion_inv_init: "completion_init s \<Longrightarrow> completion_inv v s"
  by (simp add: completion_init_def completion_inv_def task_ok_def waiter_ok_def new_promise_def)

lemmas completion_simps = completion_inv_def task_ok_def waiter_ok_def await_ready_def await_continues_def
  may_start_def waiter_step_def task_step_def final_delete_def Let_def

lemma await_resume_simps [simp]:
  "working_state (promise (await_resume s)) = working_state (promise s)"
  "continuation_handle (promise (await_resume s)) = continuation_handle (promise s)"
  "result_value (promise (await_resume s)) = result_value (promise s)"
  "resumes (await_resume s) = Suc (resumes s)" "received (await_resume s) = result_value (promise s)"
  "waiter (await_resume s) = waiter s" "task (await_resume s) = task s" "kind (await_resume s) = kind s"
  by (simp_all add: await_resume_def)

lemma waiter_step_inv:
  assumes inv: "completion_inv v s" and step: "waiter_step s = Some t"
  shows "completion_inv v t"
proof (cases "waiter s")
  case W_await
  then show ?thesis using assms
    by (cases "task s") (auto simp: completion_simps split: if_splits option.splits)
next
  case W_store
  then show ?thesis using assms
    by (cases "task s") (auto simp: completion_simps split: if_splits option.splits)
next
  case W_cas
  then show ?thesis using assms
    by (cases "task s"; cases "working_state (promise s) = 1")
      (auto simp: completion_simps split: if_splits option.splits)
next
  case (W_decide e)
  then show ?thesis using assms
    by (cases "task s"; cases "kind s") (auto simp: completion_simps split: if_splits option.splits)
next
  case W_left
  then show ?thesis using step by (simp add: waiter_step_def)
qed

lemma waiter_ok_cong:
  "waiter_ok s \<Longrightarrow> working_state (promise t) = working_state (promise s) \<Longrightarrow>
    continuation_handle (promise t) = continuation_handle (promise s) \<Longrightarrow>
    waiter t = waiter s \<Longrightarrow> resumes t = resumes s \<Longrightarrow> waiter_ok t"
  by (simp add: waiter_ok_def)

lemma task_step_inv:
  assumes inv: "completion_inv v s" and step: "task_step v s = Some t"
  shows "completion_inv v t"
proof -
  have ok: "task_ok v s" "waiter_ok s" "task s = T_created \<or> may_start s"
    and rec: "received s = (if resumes s = 0 then None else result_value (promise s))"
    using inv by (simp_all add: completion_inv_def)
  show ?thesis
  proof (cases "task s")
    case T_created
    then have "t = s\<lparr>task := T_body\<rparr>" "may_start s" using step by (simp_all add: task_step_def final_delete_def split: if_splits)
    then show ?thesis using T_created ok rec
      by (simp add: completion_inv_def task_ok_def may_start_def waiter_ok_cong [OF ok(2)])
  next
    case T_body
    then have "t = s\<lparr>promise := (promise s)\<lparr>result_value := Some v\<rparr>, task := T_returned\<rparr>"
      using step by (simp add: task_step_def final_delete_def)
    then show ?thesis using T_body ok rec
      by (simp add: completion_inv_def task_ok_def may_start_def waiter_ok_cong [OF ok(2)])
  next
    case T_returned
    then have "working_state (promise s) = 1 \<or> working_state (promise s) = 2" "resumes s = 0"
      using ok(1) by (simp_all add: task_ok_def)
    then show ?thesis using T_returned ok rec step
      by (elim disjE) (auto simp: completion_inv_def task_step_def final_delete_def task_ok_def waiter_ok_def may_start_def)
  next
    case (T_decide e)
    then have "t = s\<lparr>task := T_final (if e = 2 then Some waiter_handle else None)\<rparr>"
      using ok step by (auto simp: task_step_def final_delete_def task_ok_def waiter_ok_def split: if_splits option.splits)
    then show ?thesis using T_decide ok rec
      by (auto simp: completion_inv_def task_ok_def may_start_def intro: waiter_ok_cong)
  next
    case (T_final h)
    then show ?thesis
    proof (cases h)
      case None
      then show ?thesis using T_final ok rec step
        by (auto simp: completion_inv_def task_step_def final_delete_def task_ok_def may_start_def intro: waiter_ok_cong)
    next
      case (Some g)
      then show ?thesis using T_final ok rec step
        by (auto simp: completion_inv_def task_step_def final_delete_def task_ok_def waiter_ok_def may_start_def)
    qed
  qed (use step in \<open>simp_all add: task_step_def final_delete_def\<close>)
qed

interpretation cpl: invariant_system completion_init "completion_step v" "completion_inv v" for v :: 'v
  by unfold_locales
    (auto intro: completion_inv_init elim!: completion_stepE dest: waiter_step_inv task_step_inv)

text \<open>Every step takes one thread further: a bound on the steps that are left.\<close>

fun waiter_rank :: "waiter_pc \<Rightarrow> nat" where
  "waiter_rank W_await = 4" | "waiter_rank W_store = 3" | "waiter_rank W_cas = 2"
| "waiter_rank (W_decide e) = 1" | "waiter_rank W_left = 0"

fun task_rank :: "task_pc \<Rightarrow> nat" where
  "task_rank T_created = 5" | "task_rank T_body = 4" | "task_rank T_returned = 3"
| "task_rank (T_decide e) = 2" | "task_rank (T_final h) = 1" | "task_rank T_gone = 0"
| "task_rank T_null_resume = 0"

definition steps_left :: "'v completion \<Rightarrow> nat" where
  "steps_left s = waiter_rank (waiter s) + task_rank (task s)"

lemma step_ranks: "completion_step v s t \<Longrightarrow> steps_left t < steps_left s"
proof (elim completion_stepE)
  assume "waiter_step s = Some t"
  then show ?thesis
    by (auto simp: waiter_step_def steps_left_def await_resume_def Let_def
        split: waiter_pc.splits if_splits prod.splits)
next
  assume "task_step v s = Some t"
  then show ?thesis
    by (auto simp: task_step_def final_delete_def steps_left_def await_resume_def Let_def
        split: task_pc.splits if_splits prod.splits option.splits)
qed

lemma no_step_finished:
  assumes inv: "completion_inv v s" and "waiter_step s = None" and "task_step v s = None"
  shows "resumes s = 1 \<and> received s = Some v"
proof -
  have w: "waiter s = W_left"
    using assms(2) by (cases "waiter s") (auto simp: waiter_step_def Let_def split: if_splits prod.splits)
  have "task s \<noteq> T_null_resume" using inv by (auto simp: completion_inv_def task_ok_def waiter_ok_def)
  then have "task s = T_gone"
    using assms(3) w by (cases "task s")
      (auto simp: task_step_def final_delete_def may_start_def Let_def split: if_splits option.splits prod.splits)
  then show ?thesis using inv w by (auto simp: completion_inv_def task_ok_def waiter_ok_def)
qed

text \<open>A schedule: \<open>True\<close> lets the waiting thread move, \<open>False\<close> the thread of the task.\<close>

fun run_schedule :: "'v \<Rightarrow> bool list \<Rightarrow> 'v completion \<Rightarrow> 'v completion" where
  "run_schedule v [] s = s"
| "run_schedule v (b # bs) s =
     (case (if b then waiter_step s else task_step v s) of
        None \<Rightarrow> run_schedule v bs s
      | Some t \<Rightarrow> run_schedule v bs t)"

lemma run_schedule_reach:
  "reach completion_init (completion_step v) s \<Longrightarrow>
    reach completion_init (completion_step v) (run_schedule v bs s)"
proof (induction bs arbitrary: s)
  case (Cons b bs)
  then show ?case
    by (cases "if b then waiter_step s else task_step v s")
      (auto split: if_splits intro: reach_step completion_step.intros)
qed simp

definition fresh_completion :: "await_kind \<Rightarrow> 'v completion" where
  "fresh_completion k = \<lparr>kind = k, promise = new_promise, waiter = W_await, task = T_created,
     resumes = 0, received = None\<rparr>"

lemma fresh_reach: "reach completion_init (completion_step v) (fresh_completion k)"
  by (rule reach_init) (simp add: completion_init_def fresh_completion_def)

subsection \<open>Properties\<close>

text \<open>
  C19. Whatever the interleaving of the thread that finishes a task and the thread that awaits
  it, the waiting coroutine is continued at most once, never through a null continuation
  handle, and only after the task has stored its result: it receives the value returned.
\<close>

theorem waiter_resumed_once:
  assumes "reach completion_init (completion_step v) s"
  shows "resumes s \<le> 1 \<and> task s \<noteq> T_null_resume \<and> (resumes s = 0 \<or> received s = Some v)"
proof -
  have inv: "completion_inv v s" by (rule cpl.reach_inv [OF assms])
  show ?thesis
  proof (cases "task s")
    case (T_final h)
    then show ?thesis using inv by (cases h) (auto simp: completion_inv_def task_ok_def waiter_ok_def)
  qed (use inv in \<open>auto simp: completion_inv_def task_ok_def waiter_ok_def\<close>)
qed

text \<open>
  C20. No wake-up is lost: from every reachable state at most nine steps remain, and where no
  step is possible the waiting coroutine has been continued with the task's value.
\<close>

theorem no_lost_wakeup:
  assumes "reach completion_init (completion_step v) s"
  shows "steps_left s \<le> 9 \<and> (\<exists>t. (completion_step v)\<^sup>*\<^sup>* s t \<and> resumes t = 1 \<and> received t = Some v) \<and>
    ((\<exists>t. completion_step v s t) \<or> resumes s = 1 \<and> received s = Some v)"
proof -
  have inv: "completion_inv v s" by (rule cpl.reach_inv [OF assms])
  have fin: "(\<exists>t. completion_step v s t) \<or> resumes s = 1 \<and> received s = Some v"
    if "completion_inv v s" for s
    using no_step_finished [OF that] completion_step.intros by (metis not_Some_eq)
  have "\<exists>t. (completion_step v)\<^sup>*\<^sup>* s t \<and> resumes t = 1 \<and> received t = Some v"
    using inv
  proof (induction s rule: measure_induct_rule [of steps_left])
    case (less s)
    show ?case
    proof (cases "\<exists>t. completion_step v s t")
      case True
      then obtain t where t: "completion_step v s t" by blast
      have "completion_inv v t" using t less.prems by (rule cpl.inv_step [rotated])
      then have "\<exists>u. (completion_step v)\<^sup>*\<^sup>* t u \<and> resumes u = 1 \<and> received u = Some v"
        by (rule less.IH [OF step_ranks [OF t]])
      then show ?thesis using t by (meson converse_rtranclp_into_rtranclp)
    next
      case False
      then show ?thesis using fin [OF less.prems] by blast
    qed
  qed
  moreover have "steps_left s \<le> 9"
    by (cases "waiter s"; cases "task s") (simp_all add: steps_left_def)
  ultimately show ?thesis using fin [OF inv] by blast
qed


text \<open>The task is resumed by the other thread while \<open>await_suspend\<close> has not returned yet.\<close>

definition late_return :: "nat completion" where
  "late_return = run_schedule 7 [True, True, True, False, False, False, False, False]
     (fresh_completion Get)"

lemma late_return_reach: "reach completion_init (completion_step 7) late_return"
  unfolding late_return_def by (rule run_schedule_reach [OF fresh_reach])

lemma waiter_resumed_once_witness:
  "resumes late_return = 1 \<and> waiter late_return = W_decide 1 \<and> task late_return \<noteq> T_null_resume
    \<and> received late_return = Some 7"
proof -
  have r: "resumes late_return = 1" and w: "waiter late_return = W_decide 1" by code_simp+
  then show ?thesis using waiter_resumed_once [OF late_return_reach] by simp
qed

lemma no_lost_wakeup_witness:
  "steps_left (fresh_completion Sync_ready :: nat completion) \<le> 9 \<and>
    (\<exists>t. (completion_step 7)\<^sup>*\<^sup>* (fresh_completion Sync_ready :: nat completion) t \<and> resumes t = 1 \<and> received t = Some 7)"
  using no_lost_wakeup [OF fresh_reach [of 7 Sync_ready]] by blast

end
