(* ===== verification/Task_Void.thy ===== *)
theory Task_Void
  imports Task_State
begin

section \<open>Tasks without a result (Task.hpp)\<close>

text \<open>
  The specialisation \<open>Task<void>\<close> repeats the promise of \<open>Task<T>\<close> without the result. It has no
  \<open>get\<close>; a coroutine waits for it by dispatching it synchronously. The model is its own state and
  steps; it is shown to be the model of \<open>Task<T>\<close> with the result left out.
\<close>

record void_promise =
  v_working_state :: u32
  v_continuation_handle :: "nat option"
  v_outside_task :: bool

record void_completion =
  v_ready :: bool
  v_promise :: void_promise
  v_waiter :: waiter_pc
  v_task :: task_pc
  v_resumes :: nat

definition new_void_promise :: void_promise where
  "new_void_promise = \<lparr>v_working_state = 1, v_continuation_handle = None, v_outside_task = True\<rparr>"

definition void_init :: "void_completion \<Rightarrow> bool" where
  "void_init s \<longleftrightarrow> v_promise s = new_void_promise \<and> v_waiter s = W_await \<and> v_task s = T_created \<and> v_resumes s = 0"

subsection \<open>Steps\<close>

text \<open>\<open>await_resume\<close> of a synchronous dispatch returns nothing.\<close>

definition void_await_resume :: "void_completion \<Rightarrow> void_completion" where
  "void_await_resume s = s\<lparr>v_resumes := v_resumes s + 1\<rparr>"

text \<open>\<open>await_ready\<close> is false; \<open>await_suspend\<close> with the resources ready, or not.\<close>

definition void_waiter_step :: "void_completion \<Rightarrow> void_completion option" where
  "void_waiter_step s =
     (case v_waiter s of
        W_await \<Rightarrow> Some (s\<lparr>v_waiter := W_store\<rparr>)
      | W_store \<Rightarrow> Some (s\<lparr>v_promise := (v_promise s)\<lparr>v_continuation_handle := Some waiter_handle\<rparr>, v_waiter := W_cas\<rparr>)
      | W_cas \<Rightarrow>
          let (ok, ws, expected) = compare_exchange (v_working_state (v_promise s)) 1 2
          in Some (s\<lparr>v_promise := (v_promise s)\<lparr>v_working_state := ws\<rparr>, v_waiter := W_decide expected\<rparr>)
      | W_decide expected \<Rightarrow>
          if \<not> v_ready s \<and> expected = 0 then Some (void_await_resume (s\<lparr>v_waiter := W_left\<rparr>))
          else Some (s\<lparr>v_waiter := W_left\<rparr>)
      | W_left \<Rightarrow> None)"

definition void_final_delete :: "nat option \<Rightarrow> void_completion \<Rightarrow> void_completion" where
  "void_final_delete h s =
     (let s1 = s\<lparr>v_task := T_gone\<rparr> in case h of None \<Rightarrow> s1 | Some c \<Rightarrow> void_await_resume s1)"

text \<open>\<open>return_void\<close> stores nothing; \<open>final_suspend\<close> is that of \<open>Task<T>\<close>.\<close>

definition void_task_step :: "void_completion \<Rightarrow> void_completion option" where
  "void_task_step s =
     (case v_task s of
        T_created \<Rightarrow> if \<not> v_ready s \<or> v_waiter s = W_left then Some (s\<lparr>v_task := T_body\<rparr>) else None
      | T_body \<Rightarrow> Some (s\<lparr>v_task := T_returned\<rparr>)
      | T_returned \<Rightarrow>
          let (ok, ws, expected) = compare_exchange (v_working_state (v_promise s)) 1 0
          in Some (s\<lparr>v_promise := (v_promise s)\<lparr>v_working_state := ws\<rparr>, v_task := T_decide expected\<rparr>)
      | T_decide expected \<Rightarrow>
          if expected = 2
          then (case v_continuation_handle (v_promise s) of
                  None \<Rightarrow> Some (s\<lparr>v_task := T_null_resume\<rparr>)
                | Some h \<Rightarrow> Some (s\<lparr>v_task := T_final (Some h)\<rparr>))
          else Some (s\<lparr>v_task := T_final None\<rparr>)
      | T_final h \<Rightarrow> Some (void_final_delete h s)
      | T_gone \<Rightarrow> None
      | T_null_resume \<Rightarrow> None)"

inductive void_step :: "void_completion \<Rightarrow> void_completion \<Rightarrow> bool" where
  void_waiter_moves: "void_waiter_step s = Some t \<Longrightarrow> void_step s t"
| void_task_moves: "void_task_step s = Some t \<Longrightarrow> void_step s t"

inductive_cases void_stepE: "void_step s t"

subsection \<open>The result left out\<close>

definition erase :: "'v completion \<Rightarrow> void_completion" where
  "erase s = \<lparr>v_ready = (kind s = Sync_ready),
     v_promise = \<lparr>v_working_state = working_state (promise s), v_continuation_handle = continuation_handle (promise s),
       v_outside_task = outside_task (promise s)\<rparr>,
     v_waiter = waiter s, v_task = task s, v_resumes = resumes s\<rparr>"

lemma erase_waiter: "kind s \<noteq> Get \<Longrightarrow> void_waiter_step (erase s) = map_option erase (waiter_step s)"
  by (cases "waiter s"; cases "kind s")
    (simp_all add: void_waiter_step_def waiter_step_def erase_def await_ready_def await_continues_def void_await_resume_def
      await_resume_def compare_exchange_def Let_def)

lemma erase_task: "kind s \<noteq> Get \<Longrightarrow> void_task_step (erase s) = map_option erase (task_step v s)"
  by (cases "task s"; cases "kind s")
    (simp_all add: void_task_step_def task_step_def erase_def may_start_def void_final_delete_def final_delete_def
      void_await_resume_def await_resume_def compare_exchange_def Let_def split: option.split)

lemma kind_kept: "completion_step v s t \<Longrightarrow> kind t = kind s"
  by (erule completion_stepE)
    (auto simp: waiter_step_def task_step_def final_delete_def Let_def split: waiter_pc.splits task_pc.splits
      option.splits if_splits prod.splits)

lemma erase_step:
  assumes "completion_step v s t" and "kind s \<noteq> Get"
  shows "void_step (erase s) (erase t)"
  using assms(1)
proof (rule completion_stepE)
  assume "waiter_step s = Some t"
  then show ?thesis using erase_waiter [OF assms(2)] by (intro void_waiter_moves) simp
next
  assume "task_step v s = Some t"
  then show ?thesis using erase_task [OF assms(2), of v] by (intro void_task_moves) simp
qed

lemma unerase_step:
  assumes "void_step (erase s) u" and "kind s \<noteq> Get"
  shows "\<exists>t. completion_step v s t \<and> u = erase t"
  using assms(1)
proof (rule void_stepE)
  assume "void_waiter_step (erase s) = Some u"
  then show ?thesis using erase_waiter [OF assms(2)] by (auto intro: waiter_moves)
next
  assume "void_task_step (erase s) = Some u"
  then show ?thesis using erase_task [OF assms(2), of v] by (auto intro: task_moves)
qed

lemma unerase_reach:
  "reach void_init void_step u \<Longrightarrow>
   \<exists>s. reach completion_init (completion_step v) s \<and> kind s \<noteq> Get \<and> u = erase s"
proof (induction rule: reach.induct)
  case (reach_init u)
  let ?s = "fresh_completion (if v_ready u then Sync_ready else Sync_blocked)"
  have u: "u = erase ?s"
    using reach_init by (simp add: void_init_def erase_def fresh_completion_def new_promise_def new_void_promise_def)
  have k: "kind ?s \<noteq> Get" by (simp add: fresh_completion_def)
  show ?case by (intro exI [of _ ?s] conjI fresh_reach k u)
next
  case (reach_step u w)
  then obtain s where s: "reach completion_init (completion_step v) s" "kind s \<noteq> Get" "u = erase s" by (elim exE conjE)
  obtain t where t: "completion_step v s t" "w = erase t"
    using unerase_step [OF reach_step(2) [unfolded s(3)] s(2), of v] by (elim exE conjE)
  have "kind t \<noteq> Get" using s(2) kind_kept [OF t(1)] by simp
  then show ?case using reach.reach_step [OF s(1) t(1)] t(2) by (intro exI [of _ t] conjI)
qed

lemma erase_steps: "(completion_step v)\<^sup>*\<^sup>* s t \<Longrightarrow> kind s \<noteq> Get \<Longrightarrow> void_step\<^sup>*\<^sup>* (erase s) (erase t) \<and> kind t \<noteq> Get"
proof (induction rule: rtranclp_induct)
  case (step t u)
  then show ?case using erase_step [OF step(2)] kind_kept [OF step(2)] by (auto intro: rtranclp.rtrancl_into_rtrancl)
qed simp

lemma completion_finishes:
  "completion_inv v s \<Longrightarrow> \<exists>t. (completion_step v)\<^sup>*\<^sup>* s t \<and> resumes t = 1 \<and> task t \<noteq> T_null_resume"
proof (induction s rule: measure_induct_rule [of steps_left])
  case (less s)
  show ?case
  proof (cases "\<exists>t. completion_step v s t")
    case True
    then obtain t where t: "completion_step v s t" by blast
    from less.IH [OF step_ranks [OF t] cpl.inv_step [OF less.prems t]] t show ?thesis
      by (meson converse_rtranclp_into_rtranclp)
  next
    case False
    then have "waiter_step s = None" "task_step v s = None" using completion_step.intros by (metis not_Some_eq)+
    then show ?thesis using no_step_finished [OF less.prems] less.prems by (auto simp: completion_inv_def task_ok_def)
  qed
qed

lemma resumes_once: "completion_inv v s \<Longrightarrow> resumes s \<le> 1 \<and> task s \<noteq> T_null_resume"
  by (cases "task s") (auto simp: completion_inv_def task_ok_def waiter_ok_def split: option.splits)

subsection \<open>Properties\<close>

text \<open>
  C21. \<open>Task<void>\<close> is \<open>Task<T>\<close> without the result: the steps of the one are the steps of the other, and
  so a coroutine that waits for a task without a result is continued at most once, never
  through a null handle, and can always still be continued.
\<close>

theorem void_task_is_task:
  assumes "reach void_init void_step u"
  shows "(\<exists>s. reach completion_init (completion_step v) s \<and> u = erase s) \<and>
    v_resumes u \<le> 1 \<and> v_task u \<noteq> T_null_resume \<and> (\<exists>w. void_step\<^sup>*\<^sup>* u w \<and> v_resumes w = 1)"
proof -
  obtain s where s: "reach completion_init (completion_step v) s" "kind s \<noteq> Get" "u = erase s"
    using unerase_reach [OF assms, of v] by (elim exE conjE)
  have inv: "completion_inv v s" by (rule cpl.reach_inv [OF s(1)])
  obtain t where t: "(completion_step v)\<^sup>*\<^sup>* s t" "resumes t = 1" using completion_finishes [OF inv] by blast
  have "void_step\<^sup>*\<^sup>* u (erase t)" using erase_steps [OF t(1) s(2)] s(3) by simp
  moreover have "v_resumes (erase t) = 1" using t(2) by (simp add: erase_def)
  moreover have "v_resumes u \<le> 1" "v_task u \<noteq> T_null_resume" using resumes_once [OF inv] s(3) by (simp_all add: erase_def)
  ultimately show ?thesis using s(1,3) by blast
qed

definition fresh_void :: void_completion where
  "fresh_void = \<lparr>v_ready = True, v_promise = new_void_promise, v_waiter = W_await, v_task = T_created, v_resumes = 0\<rparr>"

theorem void_task_is_task_witness: "\<exists>w. void_step\<^sup>*\<^sup>* fresh_void w \<and> v_resumes w = 1"
proof -
  have "reach void_init void_step fresh_void" by (rule reach_init) (simp add: void_init_def fresh_void_def)
  from void_task_is_task [OF this, of "0 :: nat"] show ?thesis by blast
qed

end
