(* ===== verification/Shared_Handle.thy ===== *)
theory Shared_Handle
  imports Prelude
begin

section \<open>Reference-counted coroutine handles (SharedCoroutineHandle.hpp)\<close>

text \<open>
  A \<open>SharedCoroutineHandle\<close> is a pair of pointers: to a coroutine frame and to the reference
  count, which lives inside that frame (\<open>promise_type::sharedOwnerCounter\<close>). Handle objects
  live on stacks, in promises and in awaiters, that is, possibly in the very frame they point
  to. The model is a store of handle objects by location, the counts, the frames that are
  alive, and for each frame the handle objects inside it, which its destruction destroys.
  Touching a handle object, a count or a frame that is gone is an error value.
\<close>

subsection \<open>Store\<close>

text \<open>Address \<open>0\<close> is \<open>nullptr\<close>; a count is addressed by the frame that contains it.\<close>

record shandle =
  sh_addr :: nat
  sh_count :: nat

definition null_handle :: shandle where
  "null_handle = \<lparr>sh_addr = 0, sh_count = 0\<rparr>"

definition handle_to :: "nat \<Rightarrow> shandle" where
  "handle_to c = \<lparr>sh_addr = c, sh_count = c\<rparr>"

record store =
  objs :: "nat \<Rightarrow> shandle option"
  counts :: "nat \<Rightarrow> u32"
  live :: "nat list"
  inside :: "nat \<Rightarrow> nat list"

datatype handle_error = Dead_object nat | Dead_count nat | Dead_frame nat

subsection \<open>Counting\<close>

definition increment_ref :: "nat \<Rightarrow> store \<Rightarrow> handle_error + store" where
  "increment_ref l s =
     (case objs s l of None \<Rightarrow> Inl (Dead_object l)
      | Some h \<Rightarrow>
          if sh_count h = 0 then Inr s
          else if sh_count h \<notin> set (live s) then Inl (Dead_count (sh_count h))
          else Inr (s\<lparr>counts := (counts s)(sh_count h := snd (fetch_add (counts s (sh_count h)) 1))\<rparr>))"

text \<open>
  \<open>decrement_ref\<close> up to the point where it calls \<open>destroy\<close>: the frame to destroy, if the
  count was 1, and the store; the object then keeps its address and drops its count pointer.
\<close>

definition decrement_ref :: "nat \<Rightarrow> store \<Rightarrow> handle_error + nat option \<times> store" where
  "decrement_ref l s =
     (case objs s l of None \<Rightarrow> Inl (Dead_object l)
      | Some h \<Rightarrow>
          if sh_count h = 0 then Inr (None, s)
          else if sh_count h \<notin> set (live s) then Inl (Dead_count (sh_count h))
          else let (old, new) = fetch_sub (counts s (sh_count h)) 1;
                   s1 = s\<lparr>counts := (counts s)(sh_count h := new)\<rparr>
               in if old = 1
                  then Inr (Some (sh_addr h), s1\<lparr>objs := (objs s1)(l \<mapsto> h\<lparr>sh_count := 0\<rparr>)\<rparr>)
                  else Inr (None, s1))"

lemma decrement_ref_live: "decrement_ref l s = Inr (r, s1) \<Longrightarrow> live s1 = live s"
  by (auto simp: decrement_ref_def Let_def fetch_sub_def split: option.splits if_splits)

text \<open>The storage of a handle object ends.\<close>

definition forget :: "nat \<Rightarrow> store \<Rightarrow> store" where
  "forget l s = s\<lparr>objs := (objs s)(l := None)\<rparr>"

definition bury :: "nat \<Rightarrow> store \<Rightarrow> store" where
  "bury c s = s\<lparr>live := remove1 c (live s)\<rparr>"

text \<open>
  The destructors of a list of handle objects, in order. Destroying a frame first runs the
  destructors of the handle objects inside it, which may destroy further frames.
\<close>

function drop_all :: "nat list \<Rightarrow> store \<Rightarrow> handle_error + store" where
  "drop_all [] s = Inr s"
| "drop_all (l # ls) s =
     (case decrement_ref l s of
        Inl e \<Rightarrow> Inl e
      | Inr (None, s1) \<Rightarrow> drop_all ls (forget l s1)
      | Inr (Some c, s1) \<Rightarrow>
          if c \<in> set (live s1) then drop_all (inside s1 c @ ls) (bury c (forget l s1))
          else Inl (Dead_frame c))"
  by pat_completeness auto

termination
proof (relation "measures [\<lambda>(ls, s). length (live s), \<lambda>(ls, s). length ls]", goal_cases)
  case 1
  show ?case by simp
next
  case (2 l ls s x2 x1 s1)
  then show ?case by (auto simp: forget_def dest: decrement_ref_live)
next
  case (3 l ls s x2 x1 s1 c)
  then have "live s1 = live s" by (auto dest: decrement_ref_live)
  with 3 show ?case
    by (auto simp: forget_def bury_def length_remove1 dest: length_pos_if_in_set)
qed

definition destroy_frame :: "nat \<Rightarrow> store \<Rightarrow> handle_error + store" where
  "destroy_frame c s =
     (if c \<in> set (live s) then drop_all (inside s c) (bury c s) else Inl (Dead_frame c))"

subsection \<open>Operations on handle objects\<close>

text \<open>The destructor.\<close>

definition destruct :: "nat \<Rightarrow> store \<Rightarrow> handle_error + store" where
  "destruct l s = drop_all [l] s"

text \<open>Copy construction of a new object at \<open>l\<close>.\<close>

definition copy_construct :: "nat \<Rightarrow> nat \<Rightarrow> store \<Rightarrow> handle_error + store" where
  "copy_construct l other s =
     (case objs s other of None \<Rightarrow> Inl (Dead_object other)
      | Some h \<Rightarrow> increment_ref l (s\<lparr>objs := (objs s)(l \<mapsto> h)\<rparr>))"

text \<open>Move construction: the source is nulled, no count changes.\<close>

definition move_construct :: "nat \<Rightarrow> nat \<Rightarrow> store \<Rightarrow> handle_error + store" where
  "move_construct l other s =
     (case objs s other of None \<Rightarrow> Inl (Dead_object other)
      | Some h \<Rightarrow> Inr (s\<lparr>objs := (objs s)(l \<mapsto> h, other \<mapsto> null_handle)\<rparr>))"

text \<open>
  What both assignments do first: count down, and destroy the frame if it was the last
  handle. The object survives with the pointers that \<open>decrement_ref\<close> left.
\<close>

definition release_object :: "nat \<Rightarrow> store \<Rightarrow> handle_error + store" where
  "release_object l s =
     (case decrement_ref l s of
        Inl e \<Rightarrow> Inl e
      | Inr (None, s1) \<Rightarrow> Inr s1
      | Inr (Some c, s1) \<Rightarrow> destroy_frame c s1)"

definition copy_assign :: "nat \<Rightarrow> nat \<Rightarrow> store \<Rightarrow> handle_error + store" where
  "copy_assign l other s =
     (if l = other then Inr s
      else case release_object l s of
        Inl e \<Rightarrow> Inl e
      | Inr s1 \<Rightarrow>
          (case (objs s1 l, objs s1 other) of
             (None, _) \<Rightarrow> Inl (Dead_object l)
           | (_, None) \<Rightarrow> Inl (Dead_object other)
           | (_, Some h) \<Rightarrow> increment_ref l (s1\<lparr>objs := (objs s1)(l \<mapsto> h)\<rparr>)))"

definition move_assign :: "nat \<Rightarrow> nat \<Rightarrow> store \<Rightarrow> handle_error + store" where
  "move_assign l other s =
     (if l = other then Inr s
      else case release_object l s of
        Inl e \<Rightarrow> Inl e
      | Inr s1 \<Rightarrow>
          (case (objs s1 l, objs s1 other) of
             (None, _) \<Rightarrow> Inl (Dead_object l)
           | (_, None) \<Rightarrow> Inl (Dead_object other)
           | (_, Some h) \<Rightarrow> Inr (s1\<lparr>objs := (objs s1)(l \<mapsto> h, other \<mapsto> null_handle)\<rparr>)))"

text \<open>\<open>reset\<close> nulls the object before it counts down, so the object may lie inside the frame.\<close>

definition reset_handle :: "nat \<Rightarrow> store \<Rightarrow> handle_error + store" where
  "reset_handle l s =
     (case objs s l of None \<Rightarrow> Inl (Dead_object l)
      | Some h \<Rightarrow>
          let s1 = s\<lparr>objs := (objs s)(l \<mapsto> null_handle)\<rparr> in
          if sh_count h = 0 then Inr s1
          else if sh_count h \<notin> set (live s1) then Inl (Dead_count (sh_count h))
          else let (old, new) = fetch_sub (counts s1 (sh_count h)) 1;
                   s2 = s1\<lparr>counts := (counts s1)(sh_count h := new)\<rparr>
               in if old = 1 then destroy_frame (sh_addr h) s2 else Inr s2)"

text \<open>
  A new coroutine frame: its count starts at 1 and the handle \<open>self\<close>, one of the objects
  inside it, is built on the count without incrementing it; the other objects are null.
\<close>

definition create_frame :: "nat \<Rightarrow> nat \<Rightarrow> nat list \<Rightarrow> store \<Rightarrow> store" where
  "create_frame c self others s =
     s\<lparr>objs := fold (\<lambda>l m. m(l \<mapsto> null_handle)) others ((objs s)(self \<mapsto> handle_to c)),
       counts := (counts s)(c := 1), live := c # live s,
       inside := (inside s)(c := self # others)\<rparr>"

definition is_init :: "nat \<Rightarrow> store \<Rightarrow> handle_error + bool" where
  "is_init l s =
     (case objs s l of None \<Rightarrow> Inl (Dead_object l) | Some h \<Rightarrow> Inr (sh_addr h \<noteq> 0))"

subsection \<open>The counting invariant\<close>

definition holders :: "nat \<Rightarrow> store \<Rightarrow> nat set" where
  "holders c s = {l. objs s l = Some (handle_to c)}"

text \<open>
  \<open>rc_inv ws s\<close>: every handle object has no count or points to a frame that is alive; the
  count of a frame that is alive is the number of its handle objects, which is not zero; the
  objects inside frames are in the store and belong to one frame. \<open>ws\<close> are the objects whose
  destructors are still to run; none of them is inside a frame that is alive.
\<close>

definition counted :: "store \<Rightarrow> bool" where
  "counted s \<longleftrightarrow>
     finite (dom (objs s)) \<and> distinct (live s) \<and> 0 \<notin> set (live s) \<and>
     (\<forall>l h. objs s l = Some h \<longrightarrow> sh_count h = 0 \<or> (\<exists>c \<in> set (live s). h = handle_to c)) \<and>
     (\<forall>c \<in> set (live s). unat (counts s c) = card (holders c s) \<and> holders c s \<noteq> {})"

definition nested :: "nat list \<Rightarrow> store \<Rightarrow> bool" where
  "nested ws s \<longleftrightarrow>
     (\<forall>c \<in> set (live s). set (inside s c) \<subseteq> dom (objs s) \<and> distinct (inside s c)
        \<and> set ws \<inter> set (inside s c) = {}) \<and>
     (\<forall>c \<in> set (live s). \<forall>c' \<in> set (live s). c \<noteq> c' \<longrightarrow> set (inside s c) \<inter> set (inside s c') = {}) \<and>
     distinct ws \<and> set ws \<subseteq> dom (objs s)"

definition rc_inv :: "nat list \<Rightarrow> store \<Rightarrow> bool" where
  "rc_inv ws s \<longleftrightarrow> counted s \<and> nested ws s"

definition in_frame :: "nat \<Rightarrow> store \<Rightarrow> bool" where
  "in_frame l s \<longleftrightarrow> (\<exists>c \<in> set (live s). l \<in> set (inside s c))"

lemma handle_simps [simp]:
  "sh_addr (handle_to c) = c" "sh_count (handle_to c) = c"
  "sh_addr null_handle = 0" "sh_count null_handle = 0"
  "handle_to c = handle_to c' \<longleftrightarrow> c = c'" "handle_to c = null_handle \<longleftrightarrow> c = 0"
  "null_handle = handle_to c \<longleftrightarrow> c = 0"
  by (auto simp: handle_to_def null_handle_def)

lemma store_frame [simp]:
  "objs (forget l s) = (objs s)(l := None)" "counts (forget l s) = counts s"
  "live (forget l s) = live s" "inside (forget l s) = inside s"
  "objs (bury c s) = objs s" "counts (bury c s) = counts s"
  "live (bury c s) = remove1 c (live s)" "inside (bury c s) = inside s"
  by (simp_all add: forget_def bury_def)

lemma holders_finite: "counted s \<Longrightarrow> finite (holders c s)"
  by (rule finite_subset [of _ "dom (objs s)"]) (auto simp: holders_def counted_def)

lemma unat_pred: "(x::u32) \<noteq> 0 \<Longrightarrow> unat (x - 1) = unat x - 1"
  by (simp add: unat_minus_one)

lemma unat_one_iff: "unat (x::u32) = 1 \<longleftrightarrow> x = 1"
  by (metis unat_1 word_unat_eq_iff)

text \<open>
  A new value \<open>v\<close> for an object that gives up its handle: gone, or without a count. The
  lemmas describe the new store \<open>s'\<close> by its components.
\<close>

definition uncounted :: "shandle option \<Rightarrow> bool" where
  "uncounted v \<longleftrightarrow> (\<forall>h. v = Some h \<longrightarrow> sh_count h = 0)"

lemma holders_update:
  assumes "uncounted v" and "objs s' = (objs s)(l := v)" and "c \<noteq> 0"
  shows "holders c s' = holders c s - {l}"
  using assms by (auto simp: holders_def uncounted_def)

lemma nested_update:
  assumes "nested ws s" and "objs s' = (objs s)(l := v)" and "live s' = live s" "inside s' = inside s"
    and "distinct ws'" "set ws' \<subseteq> set ws" and "v = None \<Longrightarrow> l \<notin> set ws' \<and> \<not> in_frame l s"
  shows "nested ws' s'"
  unfolding nested_def using assms
  by (cases v) (auto simp: nested_def in_frame_def; blast)+

lemma nested_bury:
  assumes "nested ws s" and "c \<in> set (live s)" and "distinct (live s)"
  shows "nested (inside s c @ ws) (bury c s)"
  using assms by (auto simp: nested_def; blast)

lemma counted_live: "counted s \<Longrightarrow> objs s l = Some h \<Longrightarrow> sh_count h \<noteq> 0 \<Longrightarrow>
    \<exists>c \<in> set (live s). h = handle_to c \<and> c \<noteq> 0"
  unfolding counted_def by (metis handle_simps(2))

text \<open>Dropping an object without a count changes no count.\<close>

lemma counted_null:
  assumes "counted s" and "objs s l = Some h" "sh_count h = 0" and "uncounted v"
    and "objs s' = (objs s)(l := v)" "counts s' = counts s" "live s' = live s"
  shows "counted s'"
proof -
  have "holders c s' = holders c s" if "c \<in> set (live s)" for c
  proof -
    have "c \<noteq> 0" using assms(1) that by (metis counted_def)
    moreover have "l \<notin> holders c s" using assms(2,3) calculation by (auto simp: holders_def)
    ultimately show ?thesis using holders_update [OF assms(4,5), of c] by simp
  qed
  then show ?thesis using assms by (auto simp: counted_def uncounted_def split: if_splits)
qed

text \<open>Giving up one of several handles: the count stays in step.\<close>

lemma counted_give_up:
  assumes inv: "counted s" and l: "objs s l = Some (handle_to c)" "c \<in> set (live s)"
    and many: "counts s c \<noteq> 1" and v: "uncounted v"
    and s': "objs s' = (objs s)(l := v)" "counts s' = (counts s)(c := counts s c - 1)" "live s' = live s"
  shows "counted s'"
proof -
  note i = inv [unfolded counted_def]
  have nz: "d \<noteq> 0" if "d \<in> set (live s)" for d using i that by metis
  have card: "unat (counts s c) = card (holders c s)" "l \<in> holders c s"
    using i l by (auto simp: holders_def)
  note fin = holders_finite [OF inv, of c]
  have "card (holders c s) \<noteq> 0" using fin card(2) by auto
  then have pos: "unat (counts s c) \<noteq> 0" "counts s c \<noteq> 0" using card(1) by auto
  have two: "1 < card (holders c s)" using pos(1) many unat_one_iff card(1) by (metis less_one nat_neq_iff)
  have h: "holders c s' = holders c s - {l}" by (rule holders_update [OF v s'(1) nz [OF l(2)]])
  have "card (holders c s') = card (holders c s) - 1" using fin card(2) h by simp
  then have "unat (counts s' c) = card (holders c s')" "holders c s' \<noteq> {}"
    using card(1) two pos s'(2) by (auto simp: unat_pred)
  moreover have "unat (counts s' d) = card (holders d s') \<and> holders d s' \<noteq> {}"
    if d: "d \<in> set (live s)" "d \<noteq> c" for d
  proof -
    have "holders d s' = holders d s"
      using holders_update [OF v s'(1) nz [OF d(1)]] l(1) d(2) by (auto simp: holders_def)
    then show ?thesis using i d s'(2) by auto
  qed
  ultimately show ?thesis
    using i s' v by (auto simp: counted_def uncounted_def split: if_splits)
qed

text \<open>Giving up the last handle: no object points to the frame any more.\<close>

lemma counted_last:
  assumes inv: "counted s" and l: "objs s l = Some (handle_to c)" "c \<in> set (live s)"
    and one: "counts s c = 1" and v: "uncounted v"
    and s': "objs s' = (objs s)(l := v)" "counts s' = (counts s)(c := n)" "live s' = remove1 c (live s)"
  shows "counted s'"
proof -
  note i = inv [unfolded counted_def]
  have nz: "d \<noteq> 0" if "d \<in> set (live s)" for d using i that by metis
  have "card (holders c s) = 1" using i l(2) one by (metis unat_1)
  moreover have "l \<in> holders c s" using l(1) by (simp add: holders_def)
  ultimately have only: "holders c s = {l}" by (metis card_1_singletonE singletonD)
  have keep: "holders d s' = holders d s" if "d \<in> set (live s)" "d \<noteq> c" for d
    using holders_update [OF v s'(1) nz [OF that(1)]] l(1) that(2) by (auto simp: holders_def)
  have "\<exists>d \<in> set (live s'). h = handle_to d"
    if h: "objs s' k = Some h" "sh_count h \<noteq> 0" for k h
  proof -
    have k: "k \<noteq> l" "objs s k = Some h" using h s'(1) v by (auto simp: uncounted_def split: if_splits)
    then obtain d where d: "d \<in> set (live s)" "h = handle_to d" using counted_live [OF inv] h(2) by metis
    have "d \<noteq> c" using k d only by (auto simp: holders_def)
    then show ?thesis using d s'(3) by auto
  qed
  then have "\<forall>k h. objs s' k = Some h \<longrightarrow> sh_count h = 0 \<or> (\<exists>d \<in> set (live s'). h = handle_to d)"
    by blast
  moreover have "\<forall>d \<in> set (live s'). unat (counts s' d) = card (holders d s') \<and> holders d s' \<noteq> {}"
    using i s' keep by auto
  moreover have "finite (dom (objs s'))" "distinct (live s')" "0 \<notin> set (live s')"
    using i s' by (auto simp: s'(1))
  ultimately show ?thesis unfolding counted_def by blast
qed


subsection \<open>Destructors keep the count right\<close>

text \<open>A call that succeeds, leaves counts right and every object outside the frames in place.\<close>

definition survives :: "nat set \<Rightarrow> store \<Rightarrow> handle_error + store \<Rightarrow> bool" where
  "survives gone s r \<longleftrightarrow>
     (\<exists>s'. r = Inr s' \<and> rc_inv [] s' \<and> set (live s') \<subseteq> set (live s) \<and>
       (\<forall>l. objs s' l = objs s l \<or> objs s' l = None) \<and>
       (\<forall>l. l \<notin> gone \<longrightarrow> \<not> in_frame l s \<longrightarrow> objs s' l = objs s l) \<and>
       (\<forall>l. in_frame l s' \<longrightarrow> in_frame l s) \<and>
       (\<forall>l \<in> gone. objs s' l = None))"

lemma nested_head: "nested (l # ws) s \<Longrightarrow>
    l \<in> dom (objs s) \<and> l \<notin> set ws \<and> \<not> in_frame l s \<and> distinct ws"
  by (auto simp: nested_def in_frame_def)

lemma uncounted_simps [simp]:
  "uncounted None" "uncounted (Some h) \<longleftrightarrow> sh_count h = 0"
  by (simp_all add: uncounted_def)

text \<open>
  The two outcomes of one count-down, for any new uncounted value of the object: the frame
  lives on, or it is buried and its objects are added to the work.
\<close>

lemma rc_give_up:
  assumes "rc_inv ws s" and "objs s l = Some (handle_to c)" "c \<in> set (live s)" "counts s c \<noteq> 1"
    and "uncounted v" "v = None \<Longrightarrow> l \<notin> set ws' \<and> \<not> in_frame l s" and "distinct ws'" "set ws' \<subseteq> set ws"
    and "objs s' = (objs s)(l := v)" "counts s' = (counts s)(c := counts s c - 1)"
    and "live s' = live s" "inside s' = inside s"
  shows "rc_inv ws' s'"
  using assms unfolding rc_inv_def by (blast intro: counted_give_up nested_update)

lemma rc_last:
  assumes inv: "rc_inv ws s" and l: "objs s l = Some (handle_to c)" "c \<in> set (live s)" "counts s c = 1"
    and v: "uncounted v" "v = None \<Longrightarrow> l \<notin> set ws' \<and> \<not> in_frame l s"
    and ws: "distinct ws'" "set ws' \<subseteq> set ws"
    and s': "objs s' = (objs s)(l := v)" "counts s' = (counts s)(c := n)"
      "live s' = live s" "inside s' = inside s"
  shows "rc_inv (inside s' c @ ws') (bury c s')"
proof -
  have "nested ws' s'" using inv s' ws v(2) nested_update unfolding rc_inv_def by blast
  moreover have "distinct (live s')" using inv s'(3) by (simp add: rc_inv_def counted_def)
  ultimately have "nested (inside s' c @ ws') (bury c s')" using l(2) s'(3) nested_bury by simp
  moreover have "counted (bury c s')"
    using counted_last [of s l c v "bury c s'" n] inv l v(1) s' by (simp add: rc_inv_def)
  ultimately show ?thesis by (simp add: rc_inv_def)
qed

lemma rc_null:
  assumes "rc_inv ws s" and "objs s l = Some h" "sh_count h = 0"
    and "uncounted v" "v = None \<Longrightarrow> l \<notin> set ws' \<and> \<not> in_frame l s" and "distinct ws'" "set ws' \<subseteq> set ws"
    and "objs s' = (objs s)(l := v)" "counts s' = counts s" "live s' = live s" "inside s' = inside s"
  shows "rc_inv ws' s'"
  using assms unfolding rc_inv_def by (blast intro: counted_null nested_update)

lemma decrement_ref_null: "objs s l = Some h \<Longrightarrow> sh_count h = 0 \<Longrightarrow> decrement_ref l s = Inr (None, s)"
  by (simp add: decrement_ref_def)

lemma decrement_ref_some:
  assumes "objs s l = Some (handle_to c)" and "c \<in> set (live s)" "c \<noteq> 0"
  shows "decrement_ref l s =
    (if counts s c = 1
     then Inr (Some c, s\<lparr>counts := (counts s)(c := 0), objs := (objs s)(l \<mapsto> \<lparr>sh_addr = c, sh_count = 0\<rparr>)\<rparr>)
     else Inr (None, s\<lparr>counts := (counts s)(c := counts s c - 1)\<rparr>))"
  using assms by (simp add: decrement_ref_def Let_def fetch_sub_def handle_to_def)

lemma in_frame_bury: "in_frame k (bury c s) \<Longrightarrow> distinct (live s) \<Longrightarrow> in_frame k s"
  by (auto simp: in_frame_def)


lemma survives_step:
  assumes r: "survives gone' t r" and t: "set (live t) \<subseteq> set (live s)" "inside t = inside s"
      "\<And>k. objs t k = objs s k \<or> objs t k = None"
    and keep: "\<And>k. k \<notin> gone \<Longrightarrow> \<not> in_frame k s \<Longrightarrow> k \<notin> gone' \<and> objs t k = objs s k"
    and gone: "\<And>k. k \<in> gone \<Longrightarrow> k \<in> gone' \<or> objs t k = None \<and> \<not> in_frame k t"
  shows "survives gone s r"
proof -
  have f: "in_frame k t \<Longrightarrow> in_frame k s" for k using t by (auto simp: in_frame_def)
  obtain s' where s': "r = Inr s'" "rc_inv [] s'" "set (live s') \<subseteq> set (live t)"
      "\<And>k. objs s' k = objs t k \<or> objs s' k = None"
      "\<And>k. k \<notin> gone' \<Longrightarrow> \<not> in_frame k t \<Longrightarrow> objs s' k = objs t k"
      "\<And>k. in_frame k s' \<Longrightarrow> in_frame k t" "\<And>k. k \<in> gone' \<Longrightarrow> objs s' k = None"
    using r unfolding survives_def by blast
  have "objs s' k = objs s k" if "k \<notin> gone" "\<not> in_frame k s" for k
    using keep [OF that] s'(5) f that(2) by metis
  moreover have "objs s' k = None" if "k \<in> gone" for k
    using gone [OF that] s'(5,7) by metis
  moreover have "objs s' k = objs s k \<or> objs s' k = None" for k
    using s'(4) [of k] t(3) [of k] by auto
  ultimately show ?thesis using s'(1-3,6) t(1) f unfolding survives_def by blast
qed

lemma drop_all_inv:
  "rc_inv ws s \<Longrightarrow> survives (set ws) s (drop_all ws s)"
proof (induction ws s rule: drop_all.induct)
  case (1 s)
  then show ?case by (simp add: survives_def)
next
  case (2 l ls s)
  note inv = 2(3)
  obtain h where h: "objs s l = Some h" and l: "l \<notin> set ls" "\<not> in_frame l s" "distinct ls"
    using inv nested_head by (fastforce simp: rc_inv_def)
  show ?case
  proof (cases "sh_count h = 0")
    case True
    then have d: "decrement_ref l s = Inr (None, s)" using h by (simp add: decrement_ref_null)
    have "rc_inv ls (forget l s)"
      by (rule rc_null [OF inv h True, of None]) (use l in auto)
    then have "survives (set ls) (forget l s) (drop_all ls (forget l s))"
      using 2(1) [OF d] by blast
    then have r: "survives (set ls) (forget l s) (drop_all (l # ls) s)" using d by simp
    show ?thesis
      by (rule survives_step [OF r]) (use l in \<open>auto simp: in_frame_def split: if_splits\<close>)
  next
    case False
    then obtain c where c: "h = handle_to c" "c \<in> set (live s)" "c \<noteq> 0"
      using counted_live h inv unfolding rc_inv_def by blast
    show ?thesis
    proof (cases "counts s c = 1")
      case one: True
      define s1 where "s1 = s\<lparr>counts := (counts s)(c := 0),
          objs := (objs s)(l \<mapsto> \<lparr>sh_addr = c, sh_count = 0\<rparr>)\<rparr>"
      have d: "decrement_ref l s = Inr (Some c, s1)"
        using h c one by (simp add: decrement_ref_some s1_def)
      have "rc_inv (inside (forget l s1) c @ ls) (bury c (forget l s1))"
        by (rule rc_last [OF inv, of l c None]) (use h c one l in \<open>auto simp: s1_def\<close>)
      then have r: "survives (set (inside s1 c @ ls)) (bury c (forget l s1))
          (drop_all (inside s1 c @ ls) (bury c (forget l s1)))"
        using 2(2) [OF d] c by (simp add: s1_def)
      have "live s1 = live s" "inside s1 = inside s" by (simp_all add: s1_def)
      then have e: "drop_all (l # ls) s = drop_all (inside s1 c @ ls) (bury c (forget l s1))"
        using d c by simp
      show ?thesis unfolding e
      proof (rule survives_step [OF r])
        show "set (live (bury c (forget l s1))) \<subseteq> set (live s)"
          using set_remove1_subset by (simp add: s1_def)
        fix k
        show "k \<notin> set (l # ls) \<Longrightarrow> \<not> in_frame k s \<Longrightarrow>
            k \<notin> set (inside s1 c @ ls) \<and> objs (bury c (forget l s1)) k = objs s k"
          using c(2) by (auto simp: s1_def in_frame_def)
        have "distinct (live s)" using inv by (simp add: rc_inv_def counted_def)
        then show "k \<in> set (l # ls) \<Longrightarrow> k \<in> set (inside s1 c @ ls) \<or>
            objs (bury c (forget l s1)) k = None \<and> \<not> in_frame k (bury c (forget l s1))"
          using l(2) by (auto simp: s1_def in_frame_def)
      qed (use h in \<open>auto simp: s1_def split: if_splits\<close>)
    next
      case many: False
      define s1 where "s1 = s\<lparr>counts := (counts s)(c := counts s c - 1)\<rparr>"
      have d: "decrement_ref l s = Inr (None, s1)"
        using h c many by (simp add: decrement_ref_some s1_def)
      have "rc_inv ls (forget l s1)"
        by (rule rc_give_up [OF inv, of l c None]) (use h c many l in \<open>auto simp: s1_def\<close>)
      then have "survives (set ls) (forget l s1) (drop_all ls (forget l s1))"
        using 2(1) [OF d] by blast
      then have r: "survives (set ls) (forget l s1) (drop_all (l # ls) s)" using d by simp
      show ?thesis
        by (rule survives_step [OF r]) (use l in \<open>auto simp: in_frame_def s1_def split: if_splits\<close>)
    qed
  qed
qed


text \<open>
  Counting down an object that survives it (\<open>release_object\<close>), or one that was nulled
  beforehand (\<open>reset\<close>): both set the object to an uncounted value.
\<close>

lemma release_last:
  assumes inv: "rc_inv [] s" and l: "objs s l = Some (handle_to c)" "c \<in> set (live s)" "counts s c = 1"
    and v: "sh_count h = 0" and s': "objs s' = (objs s)(l \<mapsto> h)" "counts s' = (counts s)(c := n)"
      "live s' = live s" "inside s' = inside s"
  shows "survives {} s' (destroy_frame c s')"
proof -
  have "rc_inv (inside s' c @ []) (bury c s')"
    by (rule rc_last [OF inv l, of "Some h"]) (use v s' in auto)
  then have r: "survives (set (inside s' c)) (bury c s') (drop_all (inside s' c) (bury c s'))"
    using drop_all_inv by simp
  have e: "destroy_frame c s' = drop_all (inside s' c) (bury c s')"
    using l(2) s'(3) by (simp add: destroy_frame_def)
  show ?thesis unfolding e
    by (rule survives_step [OF r]) (use set_remove1_subset [of c "live s'"] l(2) s'(3) in \<open>auto simp: in_frame_def\<close>)
qed

lemma survives_refl: "rc_inv [] s \<Longrightarrow> survives {} s (Inr s)"
  by (simp add: survives_def)


text \<open>An object takes up a handle to the frame that \<open>h\<close> points to, or takes over the handle of \<open>k\<close>.\<close>

lemma rc_acquire:
  assumes inv: "rc_inv [] t" and l: "objs t l = None \<or> objs t l = Some g \<and> sh_count g = 0"
    and k: "objs t k = Some (handle_to c)" "c \<in> set (live t)"
    and room: "Suc (card (holders c t)) < 2 ^ 32"
    and s': "objs s' = (objs t)(l \<mapsto> handle_to c)" "counts s' = (counts t)(c := counts t c + 1)"
      "live s' = live t" "inside s' = inside t"
  shows "rc_inv [] s'"
proof -
  have i: "counted t" and n: "nested [] t" using inv by (auto simp: rc_inv_def)
  have nz: "d \<noteq> 0" if "d \<in> set (live t)" for d using i that unfolding counted_def by metis
  note fin = holders_finite [OF i]
  have out: "l \<notin> holders d t" if "d \<in> set (live t)" for d
    using l nz [OF that] by (auto simp: holders_def)
  have h: "holders c s' = insert l (holders c t)" using s'(1) by (auto simp: holders_def)
  have h': "holders d s' = holders d t" if "d \<in> set (live t)" "d \<noteq> c" for d
    using s'(1) that l nz [OF that(1)] by (auto simp: holders_def)
  have "unat (counts t c) = card (holders c t)" using i k(2) by (simp add: counted_def)
  then have "unat (counts t c + 1) = Suc (card (holders c t))"
    using room by (simp add: unat_word_ariths)
  then have "unat (counts s' c) = card (holders c s')" using h out [OF k(2)] fin [of c] s'(2) by simp
  moreover have "holders c s' \<noteq> {}" using h by simp
  ultimately have "\<forall>d \<in> set (live s'). unat (counts s' d) = card (holders d s') \<and> holders d s' \<noteq> {}"
    using i s' h' unfolding counted_def by auto
  then have "counted s'" using i s' k(2) unfolding counted_def by auto
  moreover have "nested [] s'" using n s' by (auto simp: nested_def; blast)
  ultimately show ?thesis by (simp add: rc_inv_def)
qed

lemma rc_copy_null:
  assumes inv: "rc_inv [] t" and l: "objs t l = None \<or> objs t l = Some g \<and> sh_count g = 0"
    and h: "sh_count h = 0"
    and s': "objs s' = (objs t)(l \<mapsto> h)" "counts s' = counts t" "live s' = live t" "inside s' = inside t"
  shows "rc_inv [] s'"
proof -
  have i: "counted t" and n: "nested [] t" using inv by (auto simp: rc_inv_def)
  have "holders d s' = holders d t" if "d \<in> set (live t)" for d
  proof -
    have "d \<noteq> 0" using i that unfolding counted_def by metis
    then show ?thesis using l h s'(1) by (auto simp: holders_def)
  qed
  then have "counted s'" using i s' h unfolding counted_def by auto
  moreover have "nested [] s'" using n s' by (auto simp: nested_def; blast)
  ultimately show ?thesis by (simp add: rc_inv_def)
qed

lemma rc_take_over:
  assumes inv: "rc_inv [] t" and l: "objs t l = None \<or> objs t l = Some g \<and> sh_count g = 0" "l \<noteq> k"
    and k: "objs t k = Some h"
    and s': "objs s' = (objs t)(l \<mapsto> h, k \<mapsto> null_handle)" "counts s' = counts t"
      "live s' = live t" "inside s' = inside t"
  shows "rc_inv [] s'"
proof -
  have i: "counted t" and n: "nested [] t" using inv by (auto simp: rc_inv_def)
  have "card (holders d s') = card (holders d t) \<and> (holders d t \<noteq> {} \<longrightarrow> holders d s' \<noteq> {})"
    if "d \<in> set (live t)" for d
  proof (cases "h = handle_to d")
    case True
    have "d \<noteq> 0" using i that unfolding counted_def by metis
    moreover have "l \<notin> holders d t" "k \<in> holders d t"
      using l k True \<open>d \<noteq> 0\<close> unfolding holders_def by auto
    moreover have "holders d s' = insert l (holders d t - {k})"
      using s'(1) True l(2) \<open>d \<noteq> 0\<close> by (auto simp: holders_def)
    moreover have "Suc (card (holders d t - {k})) = card (holders d t)"
      by (rule card_Suc_Diff1 [OF holders_finite [OF i] \<open>k \<in> holders d t\<close>])
    ultimately show ?thesis using holders_finite [OF i, of d] by (metis Diff_iff card_insert_disjoint
        finite_Diff insert_not_empty)
  next
    case False
    have "d \<noteq> 0" using i that unfolding counted_def by metis
    then have "holders d s' = holders d t" using s'(1) l k False by (auto simp: holders_def)
    then show ?thesis by simp
  qed
  then have "counted s'" using i s' k unfolding counted_def by (auto split: if_splits)
  moreover have "nested [] s'" using n s' by (auto simp: nested_def; blast)
  ultimately show ?thesis by (simp add: rc_inv_def)
qed


text \<open>
  \<open>release_object\<close> on an object outside the frames, followed by whatever makes the object take
  a new value: seen from the store \<open>t\<close> in which the object is uncounted, nothing else happened.
\<close>

lemma release_object_inv:
  assumes inv: "rc_inv [] s" and l: "objs s l = Some h" and out: "sh_count h \<noteq> 0 \<Longrightarrow> \<not> in_frame l s"
  shows "\<exists>s' t g. release_object l s = Inr s' \<and> rc_inv [] t \<and> sh_count g = 0 \<and>
    objs t l = Some g \<and> (\<forall>v. (objs s')(l \<mapsto> v) = (objs t)(l \<mapsto> v)) \<and> l \<in> dom (objs s') \<and>
    counts t = counts s' \<and> live t = live s' \<and> inside t = inside s' \<and>
    set (live t) \<subseteq> set (live s) \<and> (\<forall>k. k \<noteq> l \<longrightarrow> objs t k = objs s k \<or> objs t k = None) \<and>
    (\<forall>k. k \<noteq> l \<longrightarrow> (sh_count h \<noteq> 0 \<longrightarrow> \<not> in_frame k s) \<longrightarrow> objs t k = objs s k)"
proof (cases "sh_count h = 0")
  case True
  then show ?thesis using inv l
    by (intro exI [of _ s] exI [of _ h]) (auto simp: release_object_def decrement_ref_null)
next
  case False
  then obtain c where c: "h = handle_to c" "c \<in> set (live s)" "c \<noteq> 0"
    using counted_live l inv unfolding rc_inv_def by blast
  let ?g = "\<lparr>sh_addr = c, sh_count = 0\<rparr>"
  show ?thesis
  proof (cases "counts s c = 1")
    case True
    define s1 where "s1 = s\<lparr>counts := (counts s)(c := 0), objs := (objs s)(l \<mapsto> ?g)\<rparr>"
    have d: "release_object l s = destroy_frame c s1"
      using l c True by (simp add: release_object_def decrement_ref_some s1_def)
    have "survives {} s1 (destroy_frame c s1)"
      by (rule release_last [OF inv, of l c ?g]) (use l c True in \<open>auto simp: s1_def\<close>)
    then obtain t where t: "destroy_frame c s1 = Inr t" "rc_inv [] t"
        "set (live t) \<subseteq> set (live s1)" "\<And>k. objs t k = objs s1 k \<or> objs t k = None"
        "\<And>k. \<not> in_frame k s1 \<Longrightarrow> objs t k = objs s1 k"
      unfolding survives_def by auto
    have f: "in_frame k s1 = in_frame k s" for k by (simp add: s1_def in_frame_def)
    have "objs t l = Some ?g" using t(5) [of l] f out False by (simp add: s1_def)
    moreover have "objs t k = objs s k" if "k \<noteq> l" "\<not> in_frame k s" for k
      using t(5) [of k] that f by (simp add: s1_def)
    moreover have "\<forall>k. k \<noteq> l \<longrightarrow> objs t k = objs s k \<or> objs t k = None"
    proof (intro allI impI)
      fix k assume "k \<noteq> l"
      then show "objs t k = objs s k \<or> objs t k = None" using t(4) [of k] by (simp add: s1_def)
    qed
    ultimately show ?thesis using t(1-3) d l False
      by (intro exI [of _ t] exI [of _ ?g]) (auto simp: s1_def split: if_splits)
  next
    case many: False
    define s1 where "s1 = s\<lparr>counts := (counts s)(c := counts s c - 1)\<rparr>"
    have d: "release_object l s = Inr s1"
      using l c many by (simp add: release_object_def decrement_ref_some s1_def)
    have "rc_inv [] (s1\<lparr>objs := (objs s)(l \<mapsto> null_handle)\<rparr>)"
      by (rule rc_give_up [OF inv, of l c "Some null_handle"]) (use l c many in \<open>auto simp: s1_def\<close>)
    then show ?thesis using d l
      by (intro exI [of _ s1] exI [of _ "s1\<lparr>objs := (objs s)(l \<mapsto> null_handle)\<rparr>"]
          exI [of _ null_handle]) (auto simp: s1_def)
  qed
qed


subsection \<open>Sequences of operations\<close>

datatype handle_op =
    Create nat nat "nat list"
  | Declare nat
  | Destruct nat
  | Copy_construct nat nat
  | Move_construct nat nat
  | Copy_assign nat nat
  | Move_assign nat nat
  | Reset_handle nat

fun apply_handle_op :: "handle_op \<Rightarrow> store \<Rightarrow> handle_error + store" where
  "apply_handle_op (Create c self others) s = Inr (create_frame c self others s)"
| "apply_handle_op (Declare l) s = Inr (s\<lparr>objs := (objs s)(l \<mapsto> null_handle)\<rparr>)"
| "apply_handle_op (Destruct l) s = destruct l s"
| "apply_handle_op (Copy_construct l k) s = copy_construct l k s"
| "apply_handle_op (Move_construct l k) s = move_construct l k s"
| "apply_handle_op (Copy_assign l k) s = copy_assign l k s"
| "apply_handle_op (Move_assign l k) s = move_assign l k s"
| "apply_handle_op (Reset_handle l) s = reset_handle l s"

text \<open>
  What the rest of the program owes the handles: objects are constructed where there is none
  and used where there is one; those inside a frame are not destructed by anyone but the frame,
  and are assigned to only while they are null or by an operation that does not destroy the
  frames around them (the comment ``it will burn''). \<open>room\<close>: no counter is at its maximum.
\<close>

definition assignable :: "nat \<Rightarrow> nat \<Rightarrow> store \<Rightarrow> bool" where
  "assignable l k s \<longleftrightarrow> objs s k \<noteq> None \<and>
     (case objs s l of None \<Rightarrow> False
      | Some h \<Rightarrow> sh_count h = 0 \<or> l = k \<or> \<not> in_frame l s \<and> \<not> in_frame k s)"

fun legal :: "handle_op \<Rightarrow> store \<Rightarrow> bool" where
  "legal (Create c self others) s \<longleftrightarrow>
     c \<noteq> 0 \<and> c \<notin> set (live s) \<and> distinct (self # others) \<and> (\<forall>l \<in> set (self # others). objs s l = None)"
| "legal (Declare l) s \<longleftrightarrow> objs s l = None"
| "legal (Destruct l) s \<longleftrightarrow> objs s l \<noteq> None \<and> \<not> in_frame l s"
| "legal (Copy_construct l k) s \<longleftrightarrow> objs s l = None \<and> objs s k \<noteq> None"
| "legal (Move_construct l k) s \<longleftrightarrow> objs s l = None \<and> objs s k \<noteq> None"
| "legal (Copy_assign l k) s \<longleftrightarrow> assignable l k s"
| "legal (Move_assign l k) s \<longleftrightarrow> assignable l k s"
| "legal (Reset_handle l) s \<longleftrightarrow> objs s l \<noteq> None"

definition room :: "store \<Rightarrow> bool" where
  "room s \<longleftrightarrow> (\<forall>c \<in> set (live s). counts s c + 1 \<noteq> 0)"

lemma no_wrap: "(x::u32) + 1 \<noteq> 0 \<Longrightarrow> Suc (unat x) < 2 ^ 32"
proof (rule ccontr)
  assume x: "x + 1 \<noteq> 0" and "\<not> Suc (unat x) < 2 ^ 32"
  moreover have "unat x < 2 ^ 32" using unsigned_less [of x] by simp
  ultimately have "unat x = 2 ^ 32 - 1" by simp
  then have "unat (x + 1) = 0" by (simp add: unat_word_ariths)
  then show False using x by (simp add: unat_eq_0)
qed

lemma room_holders:
  assumes "room s" and "counted s" and "counted t" and "set (live t) \<subseteq> set (live s)"
    and "c \<in> set (live t)" and "holders c t \<subseteq> holders c s"
  shows "Suc (card (holders c t)) < 2 ^ 32"
proof -
  have "counts s c + 1 \<noteq> 0" "unat (counts s c) = card (holders c s)"
    using assms unfolding room_def counted_def by auto
  moreover have "card (holders c t) \<le> card (holders c s)"
    by (rule card_mono [OF holders_finite [OF assms(2)] assms(6)])
  moreover have "Suc (unat (counts s c)) < 2 ^ 32"
    using calculation(1) no_wrap by blast
  ultimately show ?thesis by linarith
qed

lemma increment_ref_null: "objs s l = Some h \<Longrightarrow> sh_count h = 0 \<Longrightarrow> increment_ref l s = Inr s"
  by (simp add: increment_ref_def)

lemma increment_ref_some:
  "objs s l = Some (handle_to c) \<Longrightarrow> c \<in> set (live s) \<Longrightarrow> c \<noteq> 0 \<Longrightarrow>
    increment_ref l s = Inr (s\<lparr>counts := (counts s)(c := counts s c + 1)\<rparr>)"
  by (simp add: increment_ref_def fetch_add_def)

text \<open>Pointing an uncounted (or new) object at the target of another and incrementing.\<close>

lemma copy_inv:
  assumes inv: "rc_inv [] t" and l: "objs t l = None \<or> objs t l = Some g \<and> sh_count g = 0"
    and k: "objs t k = Some h" and room: "\<And>c. c \<in> set (live t) \<Longrightarrow> Suc (card (holders c t)) < 2 ^ 32"
    and s: "\<And>v. (objs s)(l \<mapsto> v) = (objs t)(l \<mapsto> v)" "counts s = counts t" "live s = live t" "inside s = inside t"
  shows "\<exists>s'. increment_ref l (s\<lparr>objs := (objs s)(l \<mapsto> h)\<rparr>) = Inr s' \<and> rc_inv [] s'"
proof (cases "sh_count h = 0")
  case True
  have "rc_inv [] (s\<lparr>objs := (objs s)(l \<mapsto> h)\<rparr>)"
    by (rule rc_copy_null [OF inv l True]) (use s in auto)
  then show ?thesis using True by (simp add: increment_ref_null)
next
  case False
  then obtain c where c: "h = handle_to c" "c \<in> set (live t)" "c \<noteq> 0"
    using counted_live k inv unfolding rc_inv_def by blast
  let ?s' = "s\<lparr>objs := (objs s)(l \<mapsto> h), counts := (counts s)(c := counts s c + 1)\<rparr>"
  have "rc_inv [] ?s'"
    by (rule rc_acquire [OF inv l _ c(2) room [OF c(2)], of k]) (use s c k in auto)
  then show ?thesis using c s(3) by (simp add: increment_ref_some)
qed


lemma fold_null: "fold (\<lambda>l m. m(l \<mapsto> null_handle)) ls m k = (if k \<in> set ls then Some null_handle else m k)"
  by (induction ls arbitrary: m) auto

lemma create_frame_simps:
  "objs (create_frame c self others s) l =
    (if l \<in> set others then Some null_handle else if l = self then Some (handle_to c) else objs s l)"
  "live (create_frame c self others s) = c # live s"
  "inside (create_frame c self others s) = (inside s)(c := self # others)"
  "counts (create_frame c self others s) = (counts s)(c := 1)"
  by (simp_all add: create_frame_def fold_null)

lemma create_frame_inv:
  assumes inv: "rc_inv [] s" and ok: "legal (Create c self others) s"
  shows "rc_inv [] (create_frame c self others s)"
proof -
  let ?s = "create_frame c self others s"
  have i: "counted s" and n: "nested [] s" using inv by (auto simp: rc_inv_def)
  have c: "c \<noteq> 0" "c \<notin> set (live s)" using ok by auto
  have fresh: "objs s l = None" if "l \<in> set (self # others)" for l using ok that by auto
  have none: "objs s l \<noteq> Some (handle_to c)" for l
    using i c unfolding counted_def by (metis handle_simps(2,5))
  have hc: "holders c ?s = {self}"
    using none c(1) ok by (auto simp: holders_def create_frame_simps split: if_splits)
  have "holders d ?s = holders d s" if "d \<in> set (live s)" for d
  proof -
    have "d \<noteq> 0" "d \<noteq> c" using i c that unfolding counted_def by metis+
    then show ?thesis using fresh by (auto simp: holders_def create_frame_simps split: if_splits)
  qed
  moreover have old: "sh_count h = 0 \<or> (\<exists>d \<in> set (live s). h = handle_to d)"
    if "objs s l = Some h" for l h using i that unfolding counted_def by blast
  ultimately have "\<forall>d \<in> set (live ?s). unat (counts ?s d) = card (holders d ?s) \<and> holders d ?s \<noteq> {}"
    using i hc c by (auto simp: counted_def create_frame_simps)
  moreover have "finite (dom (objs ?s))"
    by (rule finite_subset [of _ "set (self # others) \<union> dom (objs s)"])
       (use i in \<open>auto simp: create_frame_simps counted_def dom_def split: if_splits\<close>)
  moreover have "\<forall>l h. objs ?s l = Some h \<longrightarrow> sh_count h = 0 \<or> (\<exists>d \<in> set (live ?s). h = handle_to d)"
    using old by (auto simp: create_frame_simps split: if_splits dest!: old)
  moreover have "distinct (live ?s)" "0 \<notin> set (live ?s)"
    using i c by (auto simp: counted_def create_frame_simps)
  ultimately have "counted ?s" unfolding counted_def by blast
  moreover have "nested [] ?s"
  proof -
    have out: "set (inside s d) \<inter> set (self # others) = {}" if "d \<in> set (live s)" for d
      using n fresh that unfolding nested_def by fastforce
    have "set (inside ?s d) \<subseteq> dom (objs ?s) \<and> distinct (inside ?s d)" if "d \<in> set (live ?s)" for d
    proof (cases "d = c")
      case True
      then show ?thesis using ok by (auto simp: create_frame_simps domIff)
    next
      case False
      then have "set (inside s d) \<subseteq> dom (objs s)" "distinct (inside s d)"
        using n that unfolding nested_def by (auto simp: create_frame_simps)
      then show ?thesis using False by (auto simp: create_frame_simps domIff)
    qed
    moreover have "set (inside ?s d) \<inter> set (inside ?s e) = {}"
      if "d \<in> set (live ?s)" "e \<in> set (live ?s)" "d \<noteq> e" for d e
      using n that out [of d] out [of e] c(2)
      unfolding nested_def by (cases "d = c"; cases "e = c") (auto simp: create_frame_simps)
    ultimately show ?thesis by (simp add: nested_def)
  qed
  ultimately show ?thesis by (simp add: rc_inv_def)
qed

lemma destruct_inv: "rc_inv [] s \<Longrightarrow> legal (Destruct l) s \<Longrightarrow> \<exists>s'. destruct l s = Inr s' \<and> rc_inv [] s'"
proof -
  assume "rc_inv [] s" "legal (Destruct l) s"
  then have "rc_inv [l] s" by (auto simp: rc_inv_def nested_def in_frame_def)
  from drop_all_inv [OF this] show ?thesis by (auto simp: survives_def destruct_def)
qed

lemma construct_inv:
  assumes inv: "rc_inv [] s" and l: "l \<notin> dom (objs s)" "k \<in> dom (objs s)" and "room s"
  shows "\<exists>s'. copy_construct l k s = Inr s' \<and> rc_inv [] s'"
    and "\<exists>s'. move_construct l k s = Inr s' \<and> rc_inv [] s'"
proof -
  obtain h where h: "objs s k = Some h" using l by auto
  have none: "objs s l = None" using l by auto
  have r: "Suc (card (holders c s)) < 2 ^ 32" if "c \<in> set (live s)" for c
    using room_holders [OF assms(4)] inv that by (simp add: rc_inv_def)
  show "\<exists>s'. copy_construct l k s = Inr s' \<and> rc_inv [] s'"
    using copy_inv [OF inv disjI1 [OF none] h r, of s] h by (simp add: copy_construct_def)
  have "rc_inv [] (s\<lparr>objs := (objs s)(l \<mapsto> h, k \<mapsto> null_handle)\<rparr>)"
    by (rule rc_take_over [OF inv disjI1 [OF none] _ h]) (use l in auto)
  then show "\<exists>s'. move_construct l k s = Inr s' \<and> rc_inv [] s'"
    using h by (simp add: move_construct_def)
qed

lemma assign_inv:
  assumes inv: "rc_inv [] s" and a: "assignable l k s" and "room s"
  shows "\<exists>s'. copy_assign l k s = Inr s' \<and> rc_inv [] s'"
    and "\<exists>s'. move_assign l k s = Inr s' \<and> rc_inv [] s'"
proof -
  have "(\<exists>s'. copy_assign l k s = Inr s' \<and> rc_inv [] s') \<and> (\<exists>s'. move_assign l k s = Inr s' \<and> rc_inv [] s')"
  proof (cases "l = k")
    case True
    then show ?thesis using inv by (simp add: copy_assign_def move_assign_def)
  next
    case ne: False
    obtain h hk where h: "objs s l = Some h" "objs s k = Some hk"
      and out: "sh_count h \<noteq> 0 \<Longrightarrow> \<not> in_frame l s \<and> \<not> in_frame k s"
      using a ne by (auto simp: assignable_def split: option.splits)
    obtain s1 t g where t: "release_object l s = Inr s1" "rc_inv [] t" "sh_count g = 0"
      "objs t l = Some g" "\<And>v. (objs s1)(l \<mapsto> v) = (objs t)(l \<mapsto> v)" "l \<in> dom (objs s1)"
      "counts t = counts s1" "live t = live s1" "inside t = inside s1" "set (live t) \<subseteq> set (live s)"
      "objs t k = Some hk" "\<And>k. k \<noteq> l \<Longrightarrow> objs t k = objs s k \<or> objs t k = None"
      using release_object_inv [OF inv h(1)] out h(2) ne by (metis (no_types, lifting))
    have k: "objs s1 k = Some hk" using t(5,11) ne by (metis fun_upd_apply)
    have tl: "objs t l = None \<or> objs t l = Some g \<and> sh_count g = 0" using t(3,4) by simp
    have "holders c t \<subseteq> holders c s" if "c \<noteq> 0" for c
    proof
      fix j assume "j \<in> holders c t"
      moreover then have "j \<noteq> l" using t(3,4) that by (auto simp: holders_def)
      ultimately show "j \<in> holders c s" using t(12) [of j] by (auto simp: holders_def)
    qed
    moreover have "c \<noteq> 0" if "c \<in> set (live t)" for c
    proof -
      have "0 \<notin> set (live t)" using t(2) by (simp add: rc_inv_def counted_def)
      then show ?thesis using that by metis
    qed
    moreover have "counted s" "counted t" using inv t(2) by (simp_all add: rc_inv_def)
    ultimately have r: "Suc (card (holders c t)) < 2 ^ 32" if "c \<in> set (live t)" for c
      using room_holders [OF assms(3) _ _ t(10) that] that by blast
    obtain f where f: "objs s1 l = Some f" using t(6) by auto
    have "\<exists>s'. copy_assign l k s = Inr s' \<and> rc_inv [] s'"
      using copy_inv [OF t(2) tl t(11) r t(5) t(7-9) [symmetric]] t(1) f k ne
      by (simp add: copy_assign_def)
    moreover have "rc_inv [] (s1\<lparr>objs := (objs s1)(l \<mapsto> hk, k \<mapsto> null_handle)\<rparr>)"
      by (rule rc_take_over [OF t(2) tl ne t(11)]) (use t(5,7-9) in auto)
    ultimately show ?thesis using t(1) f k ne by (simp add: move_assign_def)
  qed
  then show "\<exists>s'. copy_assign l k s = Inr s' \<and> rc_inv [] s'" "\<exists>s'. move_assign l k s = Inr s' \<and> rc_inv [] s'"
    by auto
qed

lemma reset_inv:
  assumes inv: "rc_inv [] s" and l: "l \<in> dom (objs s)"
  shows "\<exists>s'. reset_handle l s = Inr s' \<and> rc_inv [] s'"
proof -
  obtain h where h: "objs s l = Some h" using l by auto
  show ?thesis
  proof (cases "sh_count h = 0")
    case True
    have "rc_inv [] (s\<lparr>objs := (objs s)(l \<mapsto> null_handle)\<rparr>)"
      by (rule rc_null [OF inv h True, of "Some null_handle"]) auto
    then show ?thesis using h True by (simp add: reset_handle_def Let_def)
  next
    case False
    then obtain c where c: "h = handle_to c" "c \<in> set (live s)" "c \<noteq> 0"
      using counted_live h inv unfolding rc_inv_def by blast
    define s2 where "s2 = s\<lparr>objs := (objs s)(l \<mapsto> null_handle), counts := (counts s)(c := counts s c - 1)\<rparr>"
    have e: "reset_handle l s = (if counts s c = 1 then destroy_frame c s2 else Inr s2)"
      using h c by (simp add: reset_handle_def Let_def fetch_sub_def s2_def)
    show ?thesis
    proof (cases "counts s c = 1")
      case True
      have "survives {} s2 (destroy_frame c s2)"
        by (rule release_last [OF inv, of l c null_handle]) (use h c True in \<open>auto simp: s2_def\<close>)
      then show ?thesis using e True by (auto simp: survives_def)
    next
      case many: False
      have "rc_inv [] s2"
        by (rule rc_give_up [OF inv, of l c "Some null_handle"]) (use h c many in \<open>auto simp: s2_def\<close>)
      then show ?thesis using e many by simp
    qed
  qed
qed


lemma op_inv:
  assumes inv: "rc_inv [] s" and ok: "legal op s" and room: "room s"
  shows "\<exists>s'. apply_handle_op op s = Inr s' \<and> rc_inv [] s'"
proof (cases op)
  case (Declare l)
  have "rc_inv [] (s\<lparr>objs := (objs s)(l \<mapsto> null_handle)\<rparr>)"
    by (rule rc_copy_null [OF inv, of l null_handle null_handle]) (use ok Declare in auto)
  then show ?thesis using Declare by simp
qed (use inv ok room create_frame_inv destruct_inv construct_inv assign_inv reset_inv in
    \<open>auto simp: domIff\<close>)

fun handle_run :: "handle_op list \<Rightarrow> store \<Rightarrow> handle_error + store" where
  "handle_run [] s = Inr s"
| "handle_run (op # ops) s =
     (case apply_handle_op op s of Inl e \<Rightarrow> Inl e | Inr s' \<Rightarrow> handle_run ops s')"

fun legal_run :: "handle_op list \<Rightarrow> store \<Rightarrow> bool" where
  "legal_run [] s \<longleftrightarrow> True"
| "legal_run (op # ops) s \<longleftrightarrow> legal op s \<and> room s \<and>
     (case apply_handle_op op s of Inl e \<Rightarrow> True | Inr s' \<Rightarrow> legal_run ops s')"

lemma legal_run_Cons:
  "legal op s \<Longrightarrow> room s \<Longrightarrow> apply_handle_op op s = Inr s' \<Longrightarrow> legal_run ops s' \<Longrightarrow> legal_run (op # ops) s"
  by simp

definition empty_store :: store where
  "empty_store = \<lparr>objs = \<lambda>l. None, counts = \<lambda>c. 0, live = [], inside = \<lambda>c. []\<rparr>"

lemma rc_inv_empty: "rc_inv [] empty_store"
  by (simp add: rc_inv_def counted_def nested_def empty_store_def)

lemma run_inv: "rc_inv [] s \<Longrightarrow> legal_run ops s \<Longrightarrow> \<exists>s'. handle_run ops s = Inr s' \<and> rc_inv [] s'"
proof (induction ops arbitrary: s)
  case (Cons op ops)
  then obtain s' where "apply_handle_op op s = Inr s'" "rc_inv [] s'" using op_inv by fastforce
  then show ?case using Cons by simp
qed simp

lemma counted_meaning:
  assumes "counted s" and "c \<noteq> 0"
  shows "(c \<in> set (live s) \<longleftrightarrow> holders c s \<noteq> {}) \<and>
    (c \<in> set (live s) \<longrightarrow> unat (counts s c) = card (holders c s))"
proof -
  have "c \<in> set (live s)" if "objs s l = Some (handle_to c)" for l
    using assms that unfolding counted_def by (metis handle_simps(2,5))
  then show ?thesis using assms(1) unfolding counted_def by (auto simp: holders_def)
qed

subsection \<open>Properties\<close>

text \<open>
  C24. Whatever handle objects the program constructs, copies, moves, assigns, resets and
  destroys, starting from none and using each as a C++ object must be used, no operation touches
  a frame, a count or an object that is gone, and none destroys a frame twice. After the
  sequence a frame is alive exactly when a handle object points to it, and its counter is the
  number of these objects.
\<close>

theorem handles_never_dangle:
  assumes "legal_run ops empty_store"
  shows "\<exists>s. handle_run ops empty_store = Inr s \<and> distinct (live s) \<and>
    (\<forall>c. c = 0 \<or> (c \<in> set (live s)) = (holders c s \<noteq> {}) \<and>
       (c \<notin> set (live s) \<or> unat (counts s c) = card (holders c s)))"
proof -
  obtain s where s: "handle_run ops empty_store = Inr s" "rc_inv [] s"
    using run_inv [OF rc_inv_empty assms] by blast
  have i: "counted s" using s(2) by (simp add: rc_inv_def)
  then have "distinct (live s)" by (simp add: counted_def)
  moreover have "c = 0 \<or> (c \<in> set (live s)) = (holders c s \<noteq> {}) \<and>
      (c \<notin> set (live s) \<or> unat (counts s c) = card (holders c s))" for c
    using counted_meaning [OF i, of c] by blast
  ultimately show ?thesis using s(1) by blast
qed

text \<open>
  The program below makes a child frame 2 that keeps its parent frame 1 alive; the child's last
  handle is its own, reset at its end, which destroys both frames.
\<close>

definition family :: "handle_op list" where
  "family = [Create 1 10 [], Copy_construct 30 10, Create 2 20 [21], Copy_assign 21 10,
     Reset_handle 10, Destruct 30, Reset_handle 20]"

lemmas handle_defs = room_def in_frame_def forget_def bury_def destroy_frame_def
  create_frame_def copy_construct_def copy_assign_def destruct_def reset_handle_def
  release_object_def assignable_def increment_ref_def decrement_ref_def null_handle_def
  handle_to_def empty_store_def Let_def

lemma family_legal: "legal_run family empty_store"
  unfolding family_def
  apply (rule legal_run_Cons, simp add: handle_defs, simp add: handle_defs, simp add: handle_defs)
  apply (rule legal_run_Cons, simp add: handle_defs, simp add: handle_defs, simp add: handle_defs)
  apply (rule legal_run_Cons, simp add: handle_defs, simp add: handle_defs, simp add: handle_defs)
  apply (rule legal_run_Cons, simp add: handle_defs, simp add: handle_defs,
      simp add: handle_defs fetch_sub_def)
  apply (rule legal_run_Cons, simp add: handle_defs, simp add: handle_defs,
      simp add: handle_defs fetch_sub_def)
  apply (rule legal_run_Cons, simp add: handle_defs, simp add: handle_defs,
      simp add: handle_defs fetch_sub_def)
  apply (simp add: handle_defs fetch_sub_def)
  done

lemma handles_never_dangle_witness:
  "\<exists>s. handle_run family empty_store = Inr s \<and> distinct (live s) \<and>
    (\<forall>c. c = 0 \<or> (c \<in> set (live s)) = (holders c s \<noteq> {}) \<and>
       (c \<notin> set (live s) \<or> unat (counts s c) = card (holders c s)))"
  by (rule handles_never_dangle [OF family_legal])

text \<open>
  The comments on the assignment operators, ``if this is the last object alive, and you
  assign to itself, it will burn'', and on \<open>reset\<close>: when a handle object lies in the frame it
  points to and is the last handle of it, assigning to it destroys the frame and then writes to
  the object that died with it, while \<open>reset\<close> destroys the frame and touches nothing.
\<close>

theorem last_handle_in_own_frame:
  assumes "rc_inv [] s" and "objs s l = Some (handle_to c)" and "c \<in> set (live s)"
    and "l \<in> set (inside s c)" and "counts s c = 1" and "l \<noteq> k" and "objs s k = Some h"
  shows "copy_assign l k s = Inl (Dead_object l) \<and> move_assign l k s = Inl (Dead_object l) \<and>
    (\<exists>s'. reset_handle l s = Inr s' \<and> c \<notin> set (live s') \<and> objs s' l = None)"
proof -
  have nz: "c \<noteq> 0" using assms(1,3) by (metis counted_def rc_inv_def)
  have dist: "distinct (live s)" using assms(1) by (simp add: rc_inv_def counted_def)
  have gone: "\<exists>t. destroy_frame c s' = Inr t \<and> objs t l = None \<and> c \<notin> set (live t)"
    if s': "objs s' = (objs s)(l \<mapsto> g)" "sh_count g = 0" "counts s' = (counts s)(c := 0)"
      "live s' = live s" "inside s' = inside s" for s' g
  proof -
    have "rc_inv (inside s' c @ []) (bury c s')"
      by (rule rc_last [OF assms(1,2,3,5), of "Some g"]) (use s' in auto)
    then have "survives (set (inside s' c)) (bury c s') (drop_all (inside s' c) (bury c s'))"
      using drop_all_inv by simp
    then obtain t where "drop_all (inside s' c) (bury c s') = Inr t" "objs t l = None"
        "set (live t) \<subseteq> set (remove1 c (live s))"
      using assms(4) s'(4,5) unfolding survives_def by auto
    then show ?thesis using s'(4) assms(3) dist by (auto simp: destroy_frame_def)
  qed
  have r: "\<exists>t. release_object l s = Inr t \<and> objs t l = None"
    using gone [of "s\<lparr>counts := (counts s)(c := 0), objs := (objs s)(l \<mapsto> \<lparr>sh_addr = c, sh_count = 0\<rparr>)\<rparr>"
        "\<lparr>sh_addr = c, sh_count = 0\<rparr>"]
      assms(2,3,5) nz by (auto simp: release_object_def decrement_ref_some)
  have "\<exists>s'. reset_handle l s = Inr s' \<and> c \<notin> set (live s') \<and> objs s' l = None"
    using gone [of "s\<lparr>objs := (objs s)(l \<mapsto> null_handle), counts := (counts s)(c := 0)\<rparr>" null_handle]
      assms(2,3,5) nz by (auto simp: reset_handle_def fetch_sub_def)
  then show ?thesis using r assms(6) by (auto simp: copy_assign_def move_assign_def)
qed

definition lone_frame :: store where
  "lone_frame = create_frame 1 10 [] (empty_store\<lparr>objs := [5 \<mapsto> null_handle]\<rparr>)"

lemma last_handle_in_own_frame_witness:
  "copy_assign 10 5 lone_frame = Inl (Dead_object 10) \<and> move_assign 10 5 lone_frame = Inl (Dead_object 10) \<and>
    (\<exists>s'. reset_handle 10 lone_frame = Inr s' \<and> 1 \<notin> set (live s') \<and> objs s' 10 = None)"
proof (rule last_handle_in_own_frame)
  have "rc_inv [] (empty_store\<lparr>objs := [5 \<mapsto> null_handle]\<rparr>)"
    by (rule rc_copy_null [OF rc_inv_empty, of 5 null_handle null_handle]) (simp_all add: empty_store_def)
  then show "rc_inv [] lone_frame"
    unfolding lone_frame_def by (rule create_frame_inv) (simp add: empty_store_def)
qed (simp_all add: lone_frame_def create_frame_def empty_store_def null_handle_def handle_to_def)

end
