(* ===== verification/Task_Object.thy ===== *)
theory Task_Object
  imports Shared_Handle
begin

section \<open>Task objects and the flag coroOutsideTask (Task.hpp)\<close>

text \<open>
  A \<open>Task\<close> is the return object of a task coroutine: a shared handle and the flag \<open>isMoved\<close>.
  The promise keeps \<open>coroOutsideTask\<close>, true while the return object still holds its handle; the
  barrier subtracts it from the reference count to learn how many children are left. The
  model puts the handle of the object at the same location of the handle store.
\<close>

record tasks =
  handles :: store
  is_moved :: "nat \<Rightarrow> bool"
  outside :: "nat \<Rightarrow> bool"

definition with_handles :: "tasks \<Rightarrow> handle_error + store \<Rightarrow> handle_error + tasks" where
  "with_handles ts r = (case r of Inl e \<Rightarrow> Inl e | Inr s \<Rightarrow> Inr (ts\<lparr>handles := s\<rparr>))"

subsection \<open>Operations\<close>

text \<open>\<open>Task(h)\<close>, called by \<open>get_return_object\<close> with the promise's \<open>self\<close>.\<close>

definition task_construct :: "nat \<Rightarrow> nat \<Rightarrow> tasks \<Rightarrow> handle_error + tasks" where
  "task_construct l h ts =
     with_handles (ts\<lparr>is_moved := (is_moved ts)(l := False)\<rparr>) (copy_construct l h (handles ts))"

definition task_default :: "nat \<Rightarrow> tasks \<Rightarrow> handle_error + tasks" where
  "task_default l ts = Inr (ts\<lparr>handles := (handles ts)\<lparr>objs := (objs (handles ts))(l \<mapsto> null_handle)\<rparr>,
     is_moved := (is_moved ts)(l := False)\<rparr>)"

definition task_move_construct :: "nat \<Rightarrow> nat \<Rightarrow> tasks \<Rightarrow> handle_error + tasks" where
  "task_move_construct l x ts =
     with_handles (ts\<lparr>is_moved := (is_moved ts)(l := False, x := True)\<rparr>) (move_construct l x (handles ts))"

text \<open>Move assignment leaves \<open>isMoved\<close> of the object itself as it was.\<close>

definition task_move_assign :: "nat \<Rightarrow> nat \<Rightarrow> tasks \<Rightarrow> handle_error + tasks" where
  "task_move_assign l x ts =
     with_handles (ts\<lparr>is_moved := (is_moved ts)(x := True)\<rparr>) (move_assign l x (handles ts))"

text \<open>The destructor: the body writes to the promise, then the member handle is destroyed.\<close>

definition task_destruct :: "nat \<Rightarrow> tasks \<Rightarrow> handle_error + tasks" where
  "task_destruct l ts =
     (case objs (handles ts) l of
        None \<Rightarrow> Inl (Dead_object l)
      | Some h \<Rightarrow>
          if \<not> is_moved ts l \<and> sh_addr h \<noteq> 0
          then (if sh_addr h \<in> set (live (handles ts))
                then with_handles (ts\<lparr>outside := (outside ts)(sh_addr h := False)\<rparr>) (destruct l (handles ts))
                else Inl (Dead_frame (sh_addr h)))
          else with_handles ts (destruct l (handles ts)))"

text \<open>\<open>get\<close> moves the handle into the awaiter at \<open>a\<close>; \<open>await_resume\<close> clears the flag.\<close>

definition task_get :: "nat \<Rightarrow> nat \<Rightarrow> tasks \<Rightarrow> handle_error + tasks" where
  "task_get a l ts = with_handles ts (move_construct a l (handles ts))"

definition get_await_resume :: "nat \<Rightarrow> tasks \<Rightarrow> handle_error + tasks" where
  "get_await_resume a ts =
     (case objs (handles ts) a of
        None \<Rightarrow> Inl (Dead_object a)
      | Some h \<Rightarrow>
          if sh_addr h \<in> set (live (handles ts))
          then Inr (ts\<lparr>outside := (outside ts)(sh_addr h := False)\<rparr>)
          else Inl (Dead_frame (sh_addr h)))"

text \<open>
  \<open>await_transform\<close> of the parent \<open>me\<close> for a child it dispatches: the child gets the parent's pool and,
  unless the child finishes before the dispatch returns, a copy of the parent's handle \<open>self\<close> in
  its handle \<open>parent\<close>. \<open>pools\<close> is the pool pointer of each promise.
\<close>

definition await_transform ::
    "bool \<Rightarrow> nat \<Rightarrow> nat \<Rightarrow> nat \<Rightarrow> nat \<Rightarrow> (nat \<Rightarrow> nat) \<times> store \<Rightarrow> handle_error + (nat \<Rightarrow> nat) \<times> store" where
  "await_transform finished_on_return me self child parent ps =
     (case ps of (pools, s) \<Rightarrow>
        let pools' = pools(child := pools me)
        in if finished_on_return then Inr (pools', s)
           else case copy_assign parent self s of Inl e \<Rightarrow> Inl e | Inr s' \<Rightarrow> Inr (pools', s'))"

text \<open>
  What the barrier computes from a frame: the reference count less the flag, in 32 bits
  (\<open>BarrierQueue::process_and_extract\<close>).
\<close>

definition other_handles :: "nat \<Rightarrow> tasks \<Rightarrow> u32" where
  "other_handles c ts = counts (handles ts) c - (if outside ts c then 1 else 0)"

subsection \<open>Properties\<close>

lemma drop_one_survivor:
  assumes "objs s l = Some (handle_to c)" and "c \<in> set (live s)" "c \<noteq> 0" and "counts s c \<noteq> 1"
  shows "destruct l s = Inr (forget l (s\<lparr>counts := (counts s)(c := counts s c - 1)\<rparr>))"
  using assms by (simp add: destruct_def decrement_ref_some)

text \<open>A child that was just created keeps its parent alive: the parent has one more handle.\<close>

lemma await_transform_keeps_parent:
  assumes inv: "rc_inv [] s" and self: "objs s self = Some (handle_to me)" "me \<noteq> 0" and new: "objs s parent = Some null_handle"
  shows "\<exists>s'. await_transform False me self child parent (pools, s) = Inr (pools(child := pools me), s') \<and>
    objs s' parent = Some (handle_to me) \<and> counts s' me = counts s me + 1 \<and> me \<in> set (live s')"
proof -
  have live: "me \<in> set (live s)"
    using counted_live inv self unfolding rc_inv_def by (metis handle_simps(2,5))
  have "parent \<noteq> self" using self new by auto
  then show ?thesis
    using self new live
    by (simp add: await_transform_def copy_assign_def release_object_def decrement_ref_null increment_ref_some)
qed

text \<open>
  Destroying a \<open>Task\<close> that was not moved from, while its frame lives on, leaves the number of
  handles apart from the return object as it was: the count goes down by one with the flag.
  Moving a \<open>Task\<close> into a new one leaves it as it was too.
\<close>

theorem return_object_is_not_counted:
  assumes "rc_inv [] (handles ts)" and "objs (handles ts) l = Some (handle_to c)" and "c \<noteq> 0"
    and "\<not> is_moved ts l" and "outside ts c" and "counts (handles ts) c \<noteq> 1"
    and "objs (handles ts) m = None"
  shows "(\<exists>ts'. task_destruct l ts = Inr ts' \<and> \<not> outside ts' c \<and> other_handles c ts' = other_handles c ts) \<and>
    (\<exists>ts'. task_move_construct m l ts = Inr ts' \<and> \<not> is_moved ts' m \<and> is_moved ts' l \<and>
       other_handles c ts' = other_handles c ts)"
proof -
  have c: "c \<in> set (live (handles ts))"
    using counted_live assms(1-3) unfolding rc_inv_def by (metis handle_simps(2,5))
  have "l \<noteq> m" using assms(2,7) by auto
  then show ?thesis
    using assms c drop_one_survivor [of "handles ts" l c]
    by (auto simp: task_destruct_def task_move_construct_def with_handles_def move_construct_def
        other_handles_def)
qed

text \<open>
  A parent task: frame 1 with its \<open>self\<close> at 10, its return object at 30, and at 31 a \<open>Task\<close> that
  was moved from.
\<close>

definition parent_store :: store where
  "parent_store = \<lparr>objs = [10 \<mapsto> handle_to 1, 30 \<mapsto> handle_to 1, 31 \<mapsto> null_handle],
     counts = (\<lambda>c. 0)(1 := 2), live = [1], inside = (\<lambda>c. [])(1 := [10])\<rparr>"

definition parent_tasks :: tasks where
  "parent_tasks = \<lparr>handles = parent_store, is_moved = (\<lambda>l. False)(31 := True), outside = \<lambda>c. True\<rparr>"

lemma parent_store_inv: "rc_inv [] parent_store"
proof -
  have "holders 1 parent_store = {10, 30}"
    by (auto simp: holders_def parent_store_def split: if_splits)
  then have "counted parent_store"
    by (auto simp: counted_def parent_store_def split: if_splits)
  moreover have "nested [] parent_store" by (simp add: nested_def parent_store_def)
  ultimately show ?thesis by (simp add: rc_inv_def)
qed

lemma return_object_is_not_counted_witness:
  "(\<exists>ts'. task_destruct 30 parent_tasks = Inr ts' \<and> \<not> outside ts' 1
      \<and> other_handles 1 ts' = other_handles 1 parent_tasks) \<and>
    (\<exists>ts'. task_move_construct 32 30 parent_tasks = Inr ts' \<and> \<not> is_moved ts' 32 \<and> is_moved ts' 30 \<and>
       other_handles 1 ts' = other_handles 1 parent_tasks)"
  by (rule return_object_is_not_counted)
    (simp_all add: parent_tasks_def parent_store_inv, simp_all add: parent_store_def)

text \<open>
  C37. Move assignment does not reset \<open>isMoved\<close>: a \<open>Task\<close> that was moved from, is assigned another
  task and is then destroyed does not clear the flag of that task, so the number the barrier
  computes drops below the number of handles that are left.
\<close>

theorem moved_flag_sticks:
  assumes "rc_inv [] (handles ts)" and "objs (handles ts) x = Some (handle_to c)" and "c \<noteq> 0"
    and "outside ts c" and "counts (handles ts) c \<noteq> 1"
    and "objs (handles ts) l = Some null_handle" and "is_moved ts l"
  shows "\<exists>t1 t2. task_move_assign l x ts = Inr t1 \<and> task_destruct l t1 = Inr t2 \<and> outside t2 c \<and>
    counts (handles t2) c = counts (handles ts) c - 1 \<and> other_handles c t2 = other_handles c ts - 1"
proof -
  let ?s = "(handles ts)\<lparr>objs := (objs (handles ts))(l \<mapsto> handle_to c, x \<mapsto> null_handle)\<rparr>"
  have c: "c \<in> set (live (handles ts))"
    using counted_live assms(1-3) unfolding rc_inv_def by (metis handle_simps(2,5))
  have ne: "l \<noteq> x" using assms(2,3,6) by auto
  have "task_move_assign l x ts = Inr (ts\<lparr>is_moved := (is_moved ts)(x := True), handles := ?s\<rparr>)"
    using assms(2,6) ne
    by (simp add: task_move_assign_def move_assign_def release_object_def decrement_ref_null with_handles_def)
  moreover have "destruct l ?s = Inr (forget l (?s\<lparr>counts := (counts ?s)(c := counts ?s c - 1)\<rparr>))"
    by (rule drop_one_survivor) (use c assms(3,5) ne in auto)
  ultimately show ?thesis
    using assms(3,4,7) ne c
    by (auto simp: task_destruct_def with_handles_def other_handles_def algebra_simps)
qed

lemma moved_flag_sticks_witness:
  "\<exists>t1 t2. task_move_assign 31 30 parent_tasks = Inr t1 \<and> task_destruct 31 t1 = Inr t2 \<and> outside t2 1 \<and>
    counts (handles t2) 1 = counts (handles parent_tasks) 1 - 1 \<and>
    other_handles 1 t2 = other_handles 1 parent_tasks - 1"
  by (rule moved_flag_sticks)
    (simp_all add: parent_tasks_def parent_store_inv, simp_all add: parent_store_def)

end
