(* ===== verification/Barrier_Queue.thy ===== *)
theory Barrier_Queue
  imports Task_Object
begin

section \<open>The barrier queue (BarrierQueue.hpp)\<close>

text \<open>
  Tasks that wait in a barrier until their children are done: a vector of coroutine handles,
  each with pointers to its reference count and to its flag \<open>coroOutsideTask\<close>, guarded by a
  mutex, so that every operation is atomic. \<open>process_and_extract\<close> hands the tasks that are ready
  to the thread pool and erases them from the vector while it iterates over it.
\<close>

record barrier_entry =
  be_handle :: nat
  be_count :: nat
  be_flag :: nat

type_synonym barrier_queue = "barrier_entry list"

definition barrier_emplace_back :: "shandle \<Rightarrow> nat \<Rightarrow> barrier_queue \<Rightarrow> barrier_queue" where
  "barrier_emplace_back h flag q =
     q @ [\<lparr>be_handle = sh_addr h, be_count = sh_count h, be_flag = flag\<rparr>]"

definition barrier_is_ready :: "(nat \<Rightarrow> u32) \<Rightarrow> (nat \<Rightarrow> bool) \<Rightarrow> barrier_entry \<Rightarrow> bool" where
  "barrier_is_ready cnt flag e \<longleftrightarrow> cnt (be_count e) - (if flag (be_flag e) then 1 else 0) = 1"

text \<open>The loop: the iterator as an index, the tasks handed to the pool in order.\<close>

function barrier_loop :: "(barrier_entry \<Rightarrow> bool) \<Rightarrow> nat \<Rightarrow> barrier_queue \<Rightarrow> nat list \<Rightarrow> barrier_queue \<times> nat list" where
  "barrier_loop ready it q pool =
     (if length q \<le> it then (q, pool)
      else if ready (q ! it)
      then barrier_loop ready it (take it q @ drop (it + 1) q) (pool @ [be_handle (q ! it)])
      else barrier_loop ready (it + 1) q pool)"
  by pat_completeness auto
termination
  by (relation "measure (\<lambda>(ready, it, q, pool). length q - it)") auto

declare barrier_loop.simps [simp del]

definition process_and_extract ::
    "(nat \<Rightarrow> u32) \<Rightarrow> (nat \<Rightarrow> bool) \<Rightarrow> barrier_queue \<Rightarrow> nat list \<Rightarrow> barrier_queue \<times> nat list" where
  "process_and_extract cnt flag q pool = barrier_loop (barrier_is_ready cnt flag) 0 q pool"

definition barrier_empty :: "barrier_queue \<Rightarrow> bool" where
  "barrier_empty q \<longleftrightarrow> q = []"

definition barrier_size :: "barrier_queue \<Rightarrow> nat" where
  "barrier_size q = length q"

lemma barrier_loop_eq:
  "it \<le> length q \<Longrightarrow> barrier_loop ready it q pool =
    (take it q @ filter (\<lambda>e. \<not> ready e) (drop it q), pool @ map be_handle (filter ready (drop it q)))"
proof (induction ready it q pool rule: barrier_loop.induct)
  case (1 ready it q pool)
  show ?case
  proof (cases "length q \<le> it")
    case True
    then show ?thesis using 1(3) by (subst barrier_loop.simps) simp
  next
    case False
    then have d: "drop it q = q ! it # drop (Suc it) q" by (simp add: Cons_nth_drop_Suc)
    show ?thesis
    proof (cases "ready (q ! it)")
      case True
      then show ?thesis using False 1(1) d
        by (subst barrier_loop.simps) (simp add: min_def)
    next
      case not: False
      have "take (Suc it) q = take it q @ [q ! it]" using False by (simp add: take_Suc_conv_app_nth)
      then show ?thesis using False not 1(2) d by (subst barrier_loop.simps) simp
    qed
  qed
qed

text \<open>
  One call hands to the thread pool exactly the tasks whose reference count less the flag
  is 1, each once and in the order in which they came, and keeps the others in their order:
  erasing while iterating skips and repeats nothing.
\<close>

theorem process_and_extract_partitions:
  "process_and_extract cnt flag q pool =
    (filter (\<lambda>e. \<not> barrier_is_ready cnt flag e) q,
     pool @ map be_handle (filter (barrier_is_ready cnt flag) q))"
  by (simp add: process_and_extract_def barrier_loop_eq)

text \<open>
  In terms of handles: if the counts are right, a waiting task is handed on exactly when the
  only handle to it, apart from its return object while that holds one, is its own \<open>self\<close>.
\<close>

theorem barrier_ready_means_no_children:
  assumes "rc_inv [] (handles ts)" and "objs (handles ts) self = Some (handle_to c)" and "c \<noteq> 0"
    and "outside ts c = (obj \<in> holders c (handles ts))" and "obj \<noteq> self"
  shows "barrier_is_ready (counts (handles ts)) (outside ts) \<lparr>be_handle = c, be_count = c, be_flag = c\<rparr> =
    (holders c (handles ts) \<subseteq> {self, obj})"
proof -
  let ?n = "counts (handles ts) c" and ?H = "holders c (handles ts)"
  have i: "counted (handles ts)" using assms(1) by (simp add: rc_inv_def)
  have c: "c \<in> set (live (handles ts))"
    using counted_live [OF i] assms(2,3) by (metis handle_simps(2,5))
  have n: "unat ?n = card ?H" using i c by (simp add: counted_def)
  have two_32: "unat (2::u32) = 2" by simp
  have fin: "finite ?H" by (rule holders_finite [OF i])
  have self: "self \<in> ?H" using assms(2) by (simp add: holders_def)
  note obj = assms(4)
  show ?thesis
  proof (cases "outside ts c")
    case True
    then have two: "{self, obj} \<subseteq> ?H" using self obj by auto
    have "(?n - 1 = 1) = (?n = 2)" by (metis add_diff_cancel_right' diff_add_cancel one_add_one)
    also have "\<dots> = (card ?H = 2)" using n two_32 by (metis word_unat_eq_iff)
    also have "\<dots> = (?H \<subseteq> {self, obj})"
    proof
      assume "card ?H = 2"
      moreover have "card {self, obj} = 2" using assms(5) by auto
      ultimately show "?H \<subseteq> {self, obj}" using two fin by (metis card_subset_eq order_refl)
    next
      assume "?H \<subseteq> {self, obj}"
      then have "?H = {self, obj}" using two by auto
      then show "card ?H = 2" using assms(5) by simp
    qed
    finally show ?thesis using True by (simp add: barrier_is_ready_def)
  next
    case False
    then have out: "obj \<notin> ?H" using obj by simp
    have "(?n = 1) = (card ?H = 1)" using n unat_one_iff by metis
    also have "\<dots> = (?H \<subseteq> {self, obj})"
    proof
      assume "card ?H = 1"
      then show "?H \<subseteq> {self, obj}" using self by (metis card_1_singletonE insert_subsetI singletonD subsetI insertI1)
    next
      assume "?H \<subseteq> {self, obj}"
      then have "?H = {self}" using self out by auto
      then show "card ?H = 1" by simp
    qed
    finally show ?thesis using False by (simp add: barrier_is_ready_def)
  qed
qed

lemma barrier_ready_means_no_children_witness:
  "barrier_is_ready (counts (handles parent_tasks)) (outside parent_tasks)
     \<lparr>be_handle = 1, be_count = 1, be_flag = 1\<rparr> = (holders 1 (handles parent_tasks) \<subseteq> {10, 30})"
  by (rule barrier_ready_means_no_children)
    (simp_all add: parent_tasks_def parent_store_inv, simp_all add: parent_store_def holders_def)

end
