(* ===== verification/Task_Handles.thy ===== *)
theory Task_Handles
  imports Barrier_Queue
begin

section \<open>What the barrier counts (Task.hpp, BarrierQueue.hpp)\<close>

text \<open>
  Sequences of operations on \<open>Task\<close> objects, the awaiters of \<open>get\<close> and the handles of promises,
  in any order. The barrier takes \<open>use_count - coroOutsideTask\<close> for the number of handles that are
  neither in the return object of the task nor in the awaiter it was moved to; this is an
  invariant as long as no \<open>Task\<close> is assigned to that holds a handle or was moved from.
\<close>

subsection \<open>What an operation on handles touches\<close>

definition keeps :: "nat set \<Rightarrow> store \<Rightarrow> store \<Rightarrow> bool" where
  "keeps touched s s' \<longleftrightarrow> set (live s') \<subseteq> set (live s) \<and> inside s' = inside s \<and>
     (\<forall>k. k \<notin> touched \<longrightarrow> \<not> in_frame k s \<longrightarrow> objs s' k = objs s k)"

lemma frame_mono: "in_frame k t \<Longrightarrow> set (live t) \<subseteq> set (live s) \<Longrightarrow> inside t = inside s \<Longrightarrow> in_frame k s"
  by (auto simp: in_frame_def)

lemma keeps_trans: "keeps A s t \<Longrightarrow> keeps A t u \<Longrightarrow> keeps A s u"
  unfolding keeps_def using frame_mono [of _ t s] by auto

lemma keeps_mono: "keeps A s t \<Longrightarrow> A \<subseteq> B \<Longrightarrow> keeps B s t"
  by (auto simp: keeps_def)

lemma keeps_then: "keeps A s t \<Longrightarrow> keeps {} t u \<Longrightarrow> keeps A s u"
  by (rule keeps_trans) (auto intro: keeps_mono)

lemma keeps_frame: "keeps A s t \<Longrightarrow> in_frame k t \<Longrightarrow> in_frame k s"
  by (auto simp: keeps_def in_frame_def)

lemma keeps_objs:
  "inside t = inside s \<Longrightarrow> live t = live s \<Longrightarrow> (\<And>k. k \<notin> A \<Longrightarrow> objs t k = objs s k) \<Longrightarrow> keeps A s t"
  by (auto simp: keeps_def)

lemma decrement_keeps: "decrement_ref l s = Inr (r, t) \<Longrightarrow> keeps {l} s t \<and> live t = live s \<and> (\<forall>k. k \<noteq> l \<longrightarrow> objs t k = objs s k)"
  by (auto simp: decrement_ref_def Let_def fetch_sub_def keeps_def split: option.splits if_splits)

lemma increment_keeps: "increment_ref l s = Inr t \<Longrightarrow> keeps {} s t"
  by (auto simp: increment_ref_def fetch_add_def keeps_def split: option.splits if_splits)

lemma drop_all_keeps: "drop_all ls s = Inr t \<Longrightarrow> keeps (set ls) s t"
proof (induction ls s rule: drop_all.induct)
  case (1 s)
  then show ?case by (simp add: keeps_def)
next
  case (2 l ls s)
  obtain r s1 where d: "decrement_ref l s = Inr (r, s1)" using 2(3) by (auto split: sum.splits)
  have one: "keeps (set (l # ls)) s (forget l s1)"
    using decrement_keeps [OF d] by (auto simp: keeps_def)
  show ?case
  proof (cases r)
    case None
    then have "keeps (set ls) (forget l s1) t" using 2(1) [OF d] 2(3) d by simp
    from keeps_trans [OF one keeps_mono [OF this]] show ?thesis by auto
  next
    case (Some c)
    then have c: "c \<in> set (live s1)" using 2(3) d by (simp split: if_splits)
    then have rest: "keeps (set (inside s1 c @ ls)) (bury c (forget l s1)) t" using 2(2) [OF d [unfolded Some]] 2(3) d Some by simp
    have s1: "inside s1 = inside s" "live s1 = live s" using decrement_keeps [OF d] by (auto simp: keeps_def)
    have sub: "set (remove1 c (live s)) \<subseteq> set (live s)" by (rule set_remove1_subset)
    have "objs t k = objs s k" if "k \<notin> set (l # ls)" "\<not> in_frame k s" for k
    proof -
      have "k \<notin> set (inside s1 c @ ls)" using that c s1 by (auto simp: in_frame_def)
      moreover have "\<not> in_frame k (bury c (forget l s1))" using that(2) s1 sub by (auto simp: in_frame_def)
      ultimately have "objs t k = objs s1 k" using rest that(1) by (simp add: keeps_def)
      then show ?thesis using decrement_keeps [OF d] that(1) by simp
    qed
    then show ?thesis using rest s1 sub by (auto simp: keeps_def)
  qed
qed

lemma destroy_keeps: "destroy_frame c s = Inr t \<Longrightarrow> keeps {} s t"
proof -
  assume "destroy_frame c s = Inr t"
  then have c: "c \<in> set (live s)" and "drop_all (inside s c) (bury c s) = Inr t"
    by (auto simp: destroy_frame_def split: if_splits)
  from drop_all_keeps [OF this(2)] have k: "keeps (set (inside s c)) (bury c s) t" .
  have "set (remove1 c (live s)) \<subseteq> set (live s)" by (rule set_remove1_subset)
  moreover have "objs t k = objs s k" if out: "\<not> in_frame k s" for k
  proof -
    have "k \<notin> set (inside s c)" using out c by (auto simp: in_frame_def)
    moreover have "\<not> in_frame k (bury c s)" using out frame_mono [of k "bury c s" s] calculation(1) set_remove1_subset [of c "live s"] by auto
    ultimately show ?thesis using k by (simp add: keeps_def)
  qed
  ultimately show ?thesis using k by (auto simp: keeps_def)
qed

lemma release_keeps: "release_object l s = Inr t \<Longrightarrow> keeps {l} s t"
  by (auto simp: release_object_def split: sum.splits option.splits dest!: decrement_keeps destroy_keeps
      intro: keeps_then)

fun touched :: "handle_op \<Rightarrow> nat set" where
  "touched (Create c self others) = set (self # others)"
| "touched (Declare l) = {l}"
| "touched (Destruct l) = {l}"
| "touched (Copy_construct l k) = {l}"
| "touched (Move_construct l k) = {l, k}"
| "touched (Copy_assign l k) = {l}"
| "touched (Move_assign l k) = {l, k}"
| "touched (Reset_handle l) = {l}"

lemma keeps_writes:
  "keeps {l} s (s\<lparr>objs := (objs s)(l \<mapsto> h)\<rparr>)" "keeps {l, k} s (s\<lparr>objs := (objs s)(l \<mapsto> h, k \<mapsto> g)\<rparr>)"
  by (simp_all add: keeps_def)

lemma construct_keeps:
  "copy_construct l k s = Inr t \<Longrightarrow> keeps {l} s t"
  "move_construct l k s = Inr t \<Longrightarrow> keeps {l, k} s t"
  by (auto simp: copy_construct_def move_construct_def keeps_writes split: option.splits
      intro: keeps_then [OF keeps_writes(1) increment_keeps])

lemma assign_keeps:
  "copy_assign l k s = Inr t \<Longrightarrow> keeps {l} s t"
  "move_assign l k s = Inr t \<Longrightarrow> keeps {l, k} s t"
proof -
  assume "copy_assign l k s = Inr t"
  then show "keeps {l} s t"
    by (auto simp: copy_assign_def split: if_splits sum.splits option.splits dest!: release_keeps increment_keeps
        intro: keeps_objs elim!: keeps_trans keeps_then [rotated])
next
  assume "move_assign l k s = Inr t"
  then show "keeps {l, k} s t"
    by (auto simp: move_assign_def split: if_splits sum.splits option.splits dest!: release_keeps
        intro: keeps_objs elim!: keeps_trans [OF keeps_mono])
qed

lemma reset_keeps: "reset_handle l s = Inr t \<Longrightarrow> keeps {l} s t"
  by (auto simp: reset_handle_def Let_def fetch_sub_def split: option.splits if_splits dest!: destroy_keeps
      intro: keeps_objs elim!: keeps_then [rotated])

lemma op_keeps:
  assumes "apply_handle_op op s = Inr t" and "\<nexists>c self others. op = Create c self others"
  shows "keeps (touched op) s t"
  using assms drop_all_keeps [of "[l]" s t for l]
  by (cases op) (auto simp: destruct_def keeps_writes simp del: drop_all.simps
      intro: construct_keeps assign_keeps reset_keeps)

subsection \<open>Sequences of operations on tasks\<close>

text \<open>
  The \<open>Task\<close> objects and the awaiters of \<open>get\<close> that have not resumed. A task is created with its
  frame, in which \<open>coroOutsideTask\<close> is true, and its return object.
\<close>

record task_world =
  tw_tasks :: tasks
  tw_objects :: "nat set"
  tw_awaiters :: "nat set"

abbreviation tw_store :: "task_world \<Rightarrow> store" where
  "tw_store w \<equiv> handles (tw_tasks w)"

definition create_task :: "nat \<Rightarrow> nat \<Rightarrow> nat list \<Rightarrow> nat \<Rightarrow> tasks \<Rightarrow> handle_error + tasks" where
  "create_task c self others l ts =
     task_construct l self (ts\<lparr>handles := create_frame c self others (handles ts), outside := (outside ts)(c := True)\<rparr>)"

text \<open>
  Objects are used as in Shared_Handle. A \<open>Task\<close> is assigned to only when it is empty and was not
  moved from, and not to itself. Operations of promises and parents leave the handles in \<open>Task\<close>s
  and awaiters alone, where they are private.
\<close>

inductive task_world_step :: "task_world \<Rightarrow> task_world \<Rightarrow> bool" where
  tw_create: "legal (Create c self others) (tw_store w) \<Longrightarrow> objs (tw_store w) l = None \<Longrightarrow> l \<notin> set (self # others) \<Longrightarrow>
     room (tw_store w) \<Longrightarrow> create_task c self others l (tw_tasks w) = Inr ts \<Longrightarrow>
     task_world_step w (w\<lparr>tw_tasks := ts, tw_objects := insert l (tw_objects w)\<rparr>)"
| tw_default: "objs (tw_store w) l = None \<Longrightarrow> task_default l (tw_tasks w) = Inr ts \<Longrightarrow>
     task_world_step w (w\<lparr>tw_tasks := ts, tw_objects := insert l (tw_objects w)\<rparr>)"
| tw_move: "objs (tw_store w) l = None \<Longrightarrow> x \<in> tw_objects w \<Longrightarrow> task_move_construct l x (tw_tasks w) = Inr ts \<Longrightarrow>
     task_world_step w (w\<lparr>tw_tasks := ts, tw_objects := insert l (tw_objects w)\<rparr>)"
| tw_assign: "l \<in> tw_objects w \<Longrightarrow> x \<in> tw_objects w \<Longrightarrow> l \<noteq> x \<Longrightarrow> objs (tw_store w) l = Some null_handle \<Longrightarrow>
     \<not> is_moved (tw_tasks w) l \<Longrightarrow> task_move_assign l x (tw_tasks w) = Inr ts \<Longrightarrow>
     task_world_step w (w\<lparr>tw_tasks := ts\<rparr>)"
| tw_get: "objs (tw_store w) a = None \<Longrightarrow> l \<in> tw_objects w \<Longrightarrow> task_get a l (tw_tasks w) = Inr ts \<Longrightarrow>
     task_world_step w (w\<lparr>tw_tasks := ts, tw_awaiters := insert a (tw_awaiters w)\<rparr>)"
| tw_resume: "a \<in> tw_awaiters w \<Longrightarrow> get_await_resume a (tw_tasks w) = Inr ts \<Longrightarrow>
     task_world_step w (w\<lparr>tw_tasks := ts, tw_awaiters := tw_awaiters w - {a}\<rparr>)"
| tw_destruct: "l \<in> tw_objects w \<Longrightarrow> task_destruct l (tw_tasks w) = Inr ts \<Longrightarrow>
     task_world_step w (w\<lparr>tw_tasks := ts, tw_objects := tw_objects w - {l}\<rparr>)"
| tw_handle: "legal op (tw_store w) \<Longrightarrow> room (tw_store w) \<Longrightarrow> \<nexists>c self others. op = Create c self others \<Longrightarrow>
     touched op \<inter> (tw_objects w \<union> tw_awaiters w) = {} \<Longrightarrow> apply_handle_op op (tw_store w) = Inr s \<Longrightarrow>
     task_world_step w (w\<lparr>tw_tasks := (tw_tasks w)\<lparr>handles := s\<rparr>\<rparr>)"

definition tw_start :: "task_world \<Rightarrow> bool" where
  "tw_start w \<longleftrightarrow> tw_store w = empty_store \<and> tw_objects w = {} \<and> tw_awaiters w = {}"

subsection \<open>The flag and the return object\<close>

text \<open>Exactly one return object or awaiter has the handle of a task whose flag is set, none of another.\<close>

definition flag_fits :: "bool \<Rightarrow> nat set \<Rightarrow> bool" where
  "flag_fits b R \<longleftrightarrow> (if b then \<exists>l. R = {l} else R = {})"

definition ret_inv :: "store \<Rightarrow> (nat \<Rightarrow> bool) \<Rightarrow> (nat \<Rightarrow> bool) \<Rightarrow> nat set \<Rightarrow> nat set \<Rightarrow> bool" where
  "ret_inv s moved out T A \<longleftrightarrow> rc_inv [] s \<and> T \<inter> A = {} \<and>
     (\<forall>l \<in> T \<union> A. \<not> in_frame l s \<and> (\<exists>h. objs s l = Some h \<and> (sh_count h = 0 \<longrightarrow> h = null_handle))) \<and>
     (\<forall>l \<in> T. moved l \<longrightarrow> objs s l = Some null_handle) \<and>
     (\<forall>c \<in> set (live s). flag_fits (out c) ((T \<union> A) \<inter> holders c s))"

definition tw_inv :: "task_world \<Rightarrow> bool" where
  "tw_inv w \<longleftrightarrow> ret_inv (tw_store w) (is_moved (tw_tasks w)) (outside (tw_tasks w)) (tw_objects w) (tw_awaiters w)"

lemma tw_inv_init: "tw_start w \<Longrightarrow> tw_inv w"
  by (auto simp: tw_start_def tw_inv_def ret_inv_def rc_inv_empty) (simp add: empty_store_def)

lemma flag_fits_member: "flag_fits b R \<Longrightarrow> l \<in> R \<Longrightarrow> b \<and> R = {l}"
  by (auto simp: flag_fits_def split: if_splits)

lemma ret_inv_parts:
  assumes "ret_inv s moved out T A"
  shows "rc_inv [] s" "T \<inter> A = {}" "l \<in> T \<union> A \<Longrightarrow> \<not> in_frame l s"
    "l \<in> T \<union> A \<Longrightarrow> objs s l = Some null_handle \<or> (\<exists>c \<in> set (live s). c \<noteq> 0 \<and> objs s l = Some (handle_to c))"
    "l \<in> T \<Longrightarrow> moved l \<Longrightarrow> objs s l = Some null_handle"
    "c \<in> set (live s) \<Longrightarrow> flag_fits (out c) ((T \<union> A) \<inter> holders c s)"
proof -
  note i = assms [unfolded ret_inv_def]
  show "rc_inv [] s" "T \<inter> A = {}" "l \<in> T \<union> A \<Longrightarrow> \<not> in_frame l s" "l \<in> T \<Longrightarrow> moved l \<Longrightarrow> objs s l = Some null_handle"
    "c \<in> set (live s) \<Longrightarrow> flag_fits (out c) ((T \<union> A) \<inter> holders c s)" using i by blast+
  assume l: "l \<in> T \<union> A"
  have all: "\<forall>l \<in> T \<union> A. \<exists>h. objs s l = Some h \<and> (sh_count h = 0 \<longrightarrow> h = null_handle)" using i by blast
  obtain h where h: "objs s l = Some h" "sh_count h = 0 \<longrightarrow> h = null_handle" using bspec [OF all l] by (elim exE conjE)
  have n: "counted s" using i by (simp add: rc_inv_def)
  show "objs s l = Some null_handle \<or> (\<exists>c \<in> set (live s). c \<noteq> 0 \<and> objs s l = Some (handle_to c))"
  proof (cases "sh_count h = 0")
    case False
    from counted_live [OF n h(1) this] h(1) show ?thesis by blast
  qed (use h in simp)
qed

lemma ret_shrink:
  assumes inv: "ret_inv s moved out T A" and k: "keeps X s t" and rc: "rc_inv [] t"
    and sub: "T' \<subseteq> T" "A' \<subseteq> A" and out: "X \<inter> (T' \<union> A') = {}" and mv: "\<And>l. l \<in> T' \<Longrightarrow> moved' l = moved l"
    and fits: "\<And>c. c \<in> set (live t) \<Longrightarrow> flag_fits (out' c) ((T' \<union> A') \<inter> holders c s)"
  shows "ret_inv t moved' out' T' A'"
proof -
  have same: "objs t l = objs s l" if "l \<in> T' \<union> A'" for l
  proof -
    have "l \<notin> X" "\<not> in_frame l s" using that out sub ret_inv_parts(3) [OF inv, of l] by blast+
    then show ?thesis using k by (simp add: keeps_def)
  qed
  then have "(T' \<union> A') \<inter> holders c t = (T' \<union> A') \<inter> holders c s" for c by (auto simp: holders_def)
  moreover have "\<not> in_frame l t" if "l \<in> T' \<union> A'" for l
    using keeps_frame [OF k] ret_inv_parts(3) [OF inv, of l] that sub by blast
  ultimately show ?thesis
    using inv rc sub fits mv same unfolding ret_inv_def by (auto; blast)
qed

lemma outside_frames: "rc_inv [] s \<Longrightarrow> objs s l = None \<Longrightarrow> \<not> in_frame l s"
  by (auto simp: rc_inv_def nested_def in_frame_def dest!: bspec)

lemma live_not_0: "rc_inv [] s \<Longrightarrow> c \<in> set (live s) \<Longrightarrow> c \<noteq> 0"
  unfolding rc_inv_def counted_def by metis

text \<open>A handle moves from one \<open>Task\<close> to a new object or an empty one.\<close>

lemma ret_give:
  assumes inv: "ret_inv s moved out T A" and x: "x \<in> T" "l \<noteq> x" "objs s x = Some h"
    and l: "objs s l = None \<and> l \<notin> T \<union> A \<or> l \<in> T \<and> objs s l = Some null_handle"
    and s': "s' = s\<lparr>objs := (objs s)(l \<mapsto> h, x \<mapsto> null_handle)\<rparr>"
    and T': "T' \<union> A' = insert l (T \<union> A)" "T' \<inter> A' = {}" "T' \<subseteq> insert l T" "l \<in> T' \<Longrightarrow> \<not> moved' l"
    and mv: "\<And>k. k \<noteq> l \<Longrightarrow> k \<noteq> x \<Longrightarrow> moved' k = moved k"
  shows "ret_inv s' moved' out T' A'"
proof -
  note parts = ret_inv_parts [OF inv]
  have rc: "rc_inv [] s'"
    by (rule rc_take_over [OF parts(1) _ x(2,3), of null_handle]) (use l s' in auto)
  have frames: "in_frame k s' = in_frame k s" for k by (simp add: s' in_frame_def)
  have "\<not> in_frame l s" using l outside_frames [OF parts(1)] parts(3) by blast
  then have places: "\<not> in_frame k s'" if "k \<in> T' \<union> A'" for k using that parts(3) T'(1) frames by auto
  have "h = null_handle \<or> (\<exists>c \<in> set (live s). c \<noteq> 0 \<and> h = handle_to c)" using parts(4) [of x] x by auto
  then have forms: "\<exists>g. objs s' k = Some g \<and> (sh_count g = 0 \<longrightarrow> g = null_handle)" if "k \<in> T' \<union> A'" for k
    using that T'(1) parts(4) [of k] by (auto simp: s')
  have gone: "objs s' k = Some null_handle" if "k \<in> T'" "moved' k" for k
    using that T'(3,4) mv [of k] parts(5) [of k] by (auto simp: s')
  have "flag_fits (out c) ((T' \<union> A') \<inter> holders c s')" if c: "c \<in> set (live s')" for c
  proof -
    have live: "c \<in> set (live s)" "c \<noteq> 0" using c live_not_0 [OF rc] by (auto simp: s')
    note fits = parts(6) [OF live(1)]
    show ?thesis
    proof (cases "h = handle_to c")
      case True
      then have "x \<in> (T \<union> A) \<inter> holders c s" using x by (simp add: holders_def)
      then have b: "out c" "(T \<union> A) \<inter> holders c s = {x}" using fits flag_fits_member by metis+
      have "(T' \<union> A') \<inter> holders c s' = {l}"
      proof -
        have "k = l" if "k \<in> T' \<union> A'" "k \<in> holders c s'" for k
        proof (rule ccontr)
          assume "k \<noteq> l"
          then have "k \<in> T \<union> A" "k \<in> holders c s" "k \<noteq> x" using that T'(1) live(2) by (auto simp: s' holders_def split: if_splits)
          then show False using b(2) by blast
        qed
        moreover have "l \<in> holders c s'" using True x(2) by (simp add: s' holders_def)
        ultimately show ?thesis using T'(1) by blast
      qed
      then show ?thesis using b(1) by (simp add: flag_fits_def)
    next
      case False
      have "objs s l \<noteq> Some (handle_to c)" "objs s x \<noteq> Some (handle_to c)" using l x False live(2) by auto
      then have "(T' \<union> A') \<inter> holders c s' = (T \<union> A) \<inter> holders c s"
        using T'(1) False live(2) by (auto simp: s' holders_def)
      then show ?thesis using fits by simp
    qed
  qed
  then show ?thesis using rc T'(2) places forms gone unfolding ret_inv_def by blast
qed

text \<open>A new empty \<open>Task\<close>, and a new task.\<close>

lemma ret_empty:
  assumes inv: "ret_inv s moved out T A" and l: "objs s l = None"
  shows "ret_inv (s\<lparr>objs := (objs s)(l \<mapsto> null_handle)\<rparr>) (moved(l := False)) out (insert l T) A"
proof -
  let ?s = "s\<lparr>objs := (objs s)(l \<mapsto> null_handle)\<rparr>"
  note parts = ret_inv_parts [OF inv]
  have new: "l \<notin> T \<union> A" using parts(4) [of l] l by auto
  have rc: "rc_inv [] ?s" by (rule rc_copy_null [OF parts(1), of l null_handle null_handle]) (use l in auto)
  have f: "in_frame k ?s = in_frame k s" for k by (simp add: in_frame_def)
  have "(insert l T \<union> A) \<inter> holders c ?s = (T \<union> A) \<inter> holders c s" if "c \<in> set (live s)" for c
    using live_not_0 [OF parts(1) that] new by (auto simp: holders_def)
  then have "flag_fits (out c) ((insert l T \<union> A) \<inter> holders c ?s)" if "c \<in> set (live ?s)" for c
    using parts(6) [of c] that by simp
  moreover have "\<exists>h. objs ?s k = Some h \<and> (sh_count h = 0 \<longrightarrow> h = null_handle)" if "k \<in> insert l T \<union> A" for k
    using that parts(4) [of k] by (cases "k = l") auto
  moreover have "\<not> in_frame k ?s" if "k \<in> insert l T \<union> A" for k
    using that f parts(3) [of k] outside_frames [OF parts(1) l] by (cases "k = l") auto
  moreover have "objs ?s k = Some null_handle" if "k \<in> insert l T" "(moved(l := False)) k" for k
    using that parts(5) [of k] by (cases "k = l") auto
  moreover have "insert l T \<inter> A = {}" using new parts(2) by blast
  ultimately show ?thesis using rc unfolding ret_inv_def by blast
qed

lemma ret_create:
  assumes inv: "ret_inv s moved out T A" and ok: "legal (Create c self others) s" and l: "objs s l = None" "l \<notin> set (self # others)"
    and room: "room s"
  shows "\<exists>s'. copy_construct l self (create_frame c self others s) = Inr s' \<and>
    ret_inv s' (moved(l := False)) (out(c := True)) (insert l T) A"
proof -
  note parts = ret_inv_parts [OF inv]
  let ?s = "create_frame c self others s"
  let ?t = "?s\<lparr>objs := (objs ?s)(l \<mapsto> handle_to c), counts := (counts ?s)(c := 2)\<rparr>"
  have c: "c \<noteq> 0" "c \<notin> set (live s)" "self \<notin> set others" using ok by auto
  have self: "objs ?s self = Some (handle_to c)" "objs ?s l = None" "room ?s"
    using c l room by (auto simp: create_frame_simps room_def)
  have t: "copy_construct l self ?s = Inr ?t"
    using self c by (simp add: copy_construct_def increment_ref_some create_frame_simps)
  have rc: "rc_inv [] ?t"
    using construct_inv(1) [OF create_frame_inv [OF parts(1) ok], of l self] self t by auto
  have old: "objs ?t k = objs s k" "k \<noteq> l" "objs s k \<noteq> Some (handle_to c)" if "k \<in> T \<union> A" for k
  proof -
    have k: "objs s k \<noteq> None" using parts(4) [OF that] by auto
    then show "k \<noteq> l" using l by auto
    moreover have "k \<notin> set (self # others)" using k ok by auto
    ultimately show "objs ?t k = objs s k" by (auto simp: create_frame_simps)
    show "objs s k \<noteq> Some (handle_to c)" using parts(4) [OF that] c by auto
  qed
  have "flag_fits ((out(c := True)) d) ((insert l T \<union> A) \<inter> holders d ?t)" if d: "d \<in> set (live ?t)" for d
  proof (cases "d = c")
    case True
    have "l \<in> holders c ?t" by (simp add: holders_def)
    moreover have "k \<notin> holders c ?t" if "k \<in> T \<union> A" for k using old [OF that] unfolding holders_def by simp
    ultimately have "(insert l T \<union> A) \<inter> holders c ?t = {l}" by blast
    then show ?thesis using True by (simp add: flag_fits_def)
  next
    case False
    then have "d \<in> set (live s)" using d by (simp add: create_frame_simps)
    moreover have "(insert l T \<union> A) \<inter> holders d ?t = (T \<union> A) \<inter> holders d s"
    proof -
      have "k \<in> holders d ?t \<longleftrightarrow> k \<in> holders d s" if "k \<in> T \<union> A" for k using old(1) [OF that] unfolding holders_def by simp
      moreover have "l \<notin> holders d ?t" using False by (simp add: holders_def)
      moreover have "l \<notin> T \<union> A" using old(2) by blast
      ultimately show ?thesis by blast
    qed
    ultimately show ?thesis using parts(6) False by simp
  qed
  moreover have "\<exists>h. objs ?t k = Some h \<and> (sh_count h = 0 \<longrightarrow> h = null_handle)" if "k \<in> insert l T \<union> A" for k
  proof (cases "k = l")
    case False
    then show ?thesis using that old(1) [of k] parts(4) [of k] by auto
  qed (simp add: c)
  moreover have "\<not> in_frame k ?t" if "k \<in> insert l T \<union> A" for k
  proof -
    have "k \<notin> set (self # others)" using that l(2) ok parts(4) [of k] by auto
    moreover have "\<not> in_frame k s" using that outside_frames [OF parts(1) l(1)] parts(3) [of k] by auto
    ultimately show ?thesis using c(2) by (auto simp: in_frame_def create_frame_simps)
  qed
  moreover have "objs ?t k = Some null_handle" if "k \<in> insert l T" "(moved(l := False)) k" for k
    using that parts(5) [of k] old [of k] by (auto split: if_splits)
  moreover have "insert l T \<inter> A = {}" using old(2) parts(2) by blast
  ultimately have "ret_inv ?t (moved(l := False)) (out(c := True)) (insert l T) A" using rc unfolding ret_inv_def by blast
  then show ?thesis using t by blast
qed

text \<open>The handle of a return object or awaiter is given up, or is no longer counted out.\<close>

lemma give_up_fits:
  assumes inv: "ret_inv s moved out T A" and l: "l \<in> T \<union> A" and sub: "T' \<union> A' = (T \<union> A) - {l}"
    and d: "d \<in> set (live s)"
  shows "flag_fits ((out(sh_addr (the (objs s l)) := False)) d) ((T' \<union> A') \<inter> holders d s)"
proof (cases "objs s l = Some (handle_to d)")
  case True
  then have "l \<in> (T \<union> A) \<inter> holders d s" using l by (simp add: holders_def)
  then have "(T \<union> A) \<inter> holders d s = {l}" using flag_fits_member ret_inv_parts(6) [OF inv d] by metis
  then have "(T' \<union> A') \<inter> holders d s = {}" using sub by blast
  then show ?thesis using True by (simp add: flag_fits_def)
next
  case False
  then have "(T' \<union> A') \<inter> holders d s = (T \<union> A) \<inter> holders d s" using sub by (auto simp: holders_def)
  moreover have "d \<noteq> sh_addr (the (objs s l))"
    using ret_inv_parts(4) [OF inv l] False live_not_0 [OF ret_inv_parts(1) [OF inv] d] by auto
  ultimately show ?thesis using ret_inv_parts(6) [OF inv d] by simp
qed

lemma task_destruct_eq:
  assumes inv: "ret_inv (handles ts) (is_moved ts) (outside ts) T A" and l: "l \<in> T"
  shows "\<exists>s. destruct l (handles ts) = Inr s \<and> rc_inv [] s \<and> keeps {l} (handles ts) s \<and>
    task_destruct l ts = Inr (ts\<lparr>outside := if objs (handles ts) l = Some null_handle then outside ts
      else (outside ts)(sh_addr (the (objs (handles ts) l)) := False), handles := s\<rparr>)"
proof -
  note parts = ret_inv_parts [OF inv]
  have l': "l \<in> T \<union> A" using l by simp
  have "legal (Destruct l) (handles ts)" using parts(3,4) [OF l'] by auto
  from destruct_inv [OF parts(1) this] obtain s where s: "destruct l (handles ts) = Inr s" "rc_inv [] s" by blast
  then have "keeps {l} (handles ts) s" using drop_all_keeps [of "[l]"] by (simp add: destruct_def del: drop_all.simps)
  then show ?thesis using s parts(4) [OF l'] parts(5) [OF l] by (auto simp: task_destruct_def with_handles_def)
qed

lemma destruct_keeps_inv:
  assumes inv: "ret_inv (handles ts) (is_moved ts) (outside ts) T A" and l: "l \<in> T" and d: "task_destruct l ts = Inr t"
  shows "ret_inv (handles t) (is_moved t) (outside t) (T - {l}) A"
proof -
  note parts = ret_inv_parts [OF inv]
  obtain s where s: "rc_inv [] s" "keeps {l} (handles ts) s"
    and t: "t = ts\<lparr>outside := if objs (handles ts) l = Some null_handle then outside ts
      else (outside ts)(sh_addr (the (objs (handles ts) l)) := False), handles := s\<rparr>"
    using task_destruct_eq [OF inv l] d by auto
  have sets: "(T - {l}) \<union> A = (T \<union> A) - {l}" "l \<in> T \<union> A" using l parts(2) by blast+
  show ?thesis
  proof (rule ret_shrink [OF inv])
    show "keeps {l} (handles ts) (handles t)" "rc_inv [] (handles t)" using s by (simp_all add: t)
    show "{l} \<inter> (T - {l} \<union> A) = {}" using l parts(2) by blast
    fix c assume "c \<in> set (live (handles t))"
    then have c: "c \<in> set (live (handles ts))" using s(2) by (auto simp: t keeps_def)
    note fits = give_up_fits [OF inv sets(2,1) c]
    show "flag_fits (outside t c) ((T - {l} \<union> A) \<inter> holders c (handles ts))"
      using fits live_not_0 [OF parts(1) c] by (cases "objs (handles ts) l = Some null_handle") (simp_all add: t)
  qed (simp_all add: t)
qed

lemma resume_keeps_inv:
  assumes inv: "ret_inv (handles ts) (is_moved ts) (outside ts) T A" and a: "a \<in> A" and d: "get_await_resume a ts = Inr t"
  shows "ret_inv (handles t) (is_moved t) (outside t) T (A - {a})"
proof -
  note parts = ret_inv_parts [OF inv]
  have t: "t = ts\<lparr>outside := (outside ts)(sh_addr (the (objs (handles ts) a)) := False)\<rparr>"
    using d by (auto simp: get_await_resume_def split: option.splits if_splits)
  have sets: "T \<union> (A - {a}) = (T \<union> A) - {a}" "a \<in> T \<union> A" using a parts(2) by blast+
  show ?thesis
    by (rule ret_shrink [OF inv, of "{}"]) (use parts(1) give_up_fits [OF inv sets(2,1)] in \<open>auto simp: t keeps_def\<close>)
qed

lemma with_handles_Inr: "with_handles ts r = Inr t \<longleftrightarrow> (\<exists>s. r = Inr s \<and> t = ts\<lparr>handles := s\<rparr>)"
  by (auto simp: with_handles_def split: sum.splits)

lemma move_construct_Inr:
  "move_construct l x s = Inr t \<Longrightarrow> \<exists>h. objs s x = Some h \<and> t = s\<lparr>objs := (objs s)(l \<mapsto> h, x \<mapsto> null_handle)\<rparr>"
  by (auto simp: move_construct_def split: option.splits)

lemma move_assign_empty:
  assumes "move_assign l x s = Inr t" and "l \<noteq> x" and "objs s l = Some null_handle"
  shows "\<exists>h. objs s x = Some h \<and> t = s\<lparr>objs := (objs s)(l \<mapsto> h, x \<mapsto> null_handle)\<rparr>"
  using assms by (auto simp: move_assign_def release_object_def decrement_ref_null split: option.splits)

lemma task_world_step_inv:
  assumes "tw_inv w" and "task_world_step w v"
  shows "tw_inv v"
  using assms(2)
proof cases
  case (tw_create c self others l ts)
  from ret_create [OF assms(1) [unfolded tw_inv_def] tw_create(2,3,4,5)] show ?thesis
    using tw_create(1,6) by (auto simp: tw_inv_def create_task_def task_construct_def with_handles_Inr)
next
  case (tw_default l ts)
  from ret_empty [OF assms(1) [unfolded tw_inv_def] tw_default(2)] show ?thesis
    using tw_default(1,3) by (auto simp: tw_inv_def task_default_def)
next
  case (tw_move l x ts)
  note inv = assms(1) [unfolded tw_inv_def]
  obtain h where h: "objs (tw_store w) x = Some h"
    "ts = (tw_tasks w)\<lparr>is_moved := (is_moved (tw_tasks w))(l := False, x := True),
       handles := (tw_store w)\<lparr>objs := (objs (tw_store w))(l \<mapsto> h, x \<mapsto> null_handle)\<rparr>\<rparr>"
    using tw_move(4) by (auto simp: task_move_construct_def with_handles_Inr dest!: move_construct_Inr)
  have l: "l \<noteq> x" "l \<notin> tw_objects w \<union> tw_awaiters w" using tw_move(2) h ret_inv_parts(4) [OF inv, of l] by auto
  have "ret_inv (handles ts) (is_moved ts) (outside (tw_tasks w)) (insert l (tw_objects w)) (tw_awaiters w)"
    by (rule ret_give [OF inv tw_move(3) l(1) h(1)])
      (use tw_move(2) h(2) l ret_inv_parts(2) [OF inv] in auto)
  then show ?thesis using tw_move(1) h(2) by (simp add: tw_inv_def)
next
  case (tw_assign l x ts)
  note inv = assms(1) [unfolded tw_inv_def]
  obtain h where h: "objs (tw_store w) x = Some h"
    "ts = (tw_tasks w)\<lparr>is_moved := (is_moved (tw_tasks w))(x := True),
       handles := (tw_store w)\<lparr>objs := (objs (tw_store w))(l \<mapsto> h, x \<mapsto> null_handle)\<rparr>\<rparr>"
    using tw_assign(4,5,7) by (auto simp: task_move_assign_def with_handles_Inr dest!: move_assign_empty)
  have "ret_inv (handles ts) (is_moved ts) (outside (tw_tasks w)) (tw_objects w) (tw_awaiters w)"
    by (rule ret_give [OF inv tw_assign(3,4) h(1)])
      (use tw_assign(2,5,6) tw_assign(4) h(2) ret_inv_parts(2) [OF inv] in auto)
  then show ?thesis using tw_assign(1) h(2) by (simp add: tw_inv_def)
next
  case (tw_get a l ts)
  note inv = assms(1) [unfolded tw_inv_def]
  obtain h where h: "objs (tw_store w) l = Some h"
    "ts = (tw_tasks w)\<lparr>handles := (tw_store w)\<lparr>objs := (objs (tw_store w))(a \<mapsto> h, l \<mapsto> null_handle)\<rparr>\<rparr>"
    using tw_get(4) by (auto simp: task_get_def with_handles_Inr dest!: move_construct_Inr)
  have a: "a \<noteq> l" "a \<notin> tw_objects w \<union> tw_awaiters w" using tw_get(2) h ret_inv_parts(4) [OF inv, of a] by auto
  have "ret_inv (handles ts) (is_moved ts) (outside (tw_tasks w)) (tw_objects w) (insert a (tw_awaiters w))"
    by (rule ret_give [OF inv tw_get(3) a(1) h(1)])
      (use tw_get(2) h(2) a ret_inv_parts(2) [OF inv] in auto)
  then show ?thesis using tw_get(1) h(2) by (simp add: tw_inv_def)
next
  case (tw_resume a ts)
  then show ?thesis using resume_keeps_inv [OF assms(1) [unfolded tw_inv_def]] by (simp add: tw_inv_def)
next
  case (tw_destruct l ts)
  then show ?thesis using destruct_keeps_inv [OF assms(1) [unfolded tw_inv_def]] by (simp add: tw_inv_def)
next
  case (tw_handle op s)
  note inv = assms(1) [unfolded tw_inv_def]
  note parts = ret_inv_parts [OF inv]
  have k: "keeps (touched op) (tw_store w) s" by (rule op_keeps [OF tw_handle(6,4)])
  have rc: "rc_inv [] s" using op_inv [OF parts(1) tw_handle(2,3)] tw_handle(6) by auto
  have live: "set (live s) \<subseteq> set (live (tw_store w))" using k by (simp add: keeps_def)
  have "ret_inv s (is_moved (tw_tasks w)) (outside (tw_tasks w)) (tw_objects w) (tw_awaiters w)"
    by (rule ret_shrink [OF inv k rc _ _ tw_handle(5)]) (use parts(6) live in auto)
  then show ?thesis using tw_handle(1) by (simp add: tw_inv_def)
qed

interpretation task_world: invariant_system tw_start task_world_step tw_inv
  by unfold_locales (auto intro: tw_inv_init task_world_step_inv)

subsection \<open>\<open>Task<void>\<close>\<close>

text \<open>The return object of the specialisation: the same members without \<open>get\<close>.\<close>

definition void_task_construct :: "nat \<Rightarrow> nat \<Rightarrow> tasks \<Rightarrow> handle_error + tasks" where
  "void_task_construct l h ts =
     (case copy_construct l h (handles ts) of
        Inl e \<Rightarrow> Inl e
      | Inr s \<Rightarrow> Inr (ts\<lparr>handles := s, is_moved := (is_moved ts)(l := False)\<rparr>))"

definition void_task_default :: "nat \<Rightarrow> tasks \<Rightarrow> handle_error + tasks" where
  "void_task_default l ts =
     (let s = handles ts
      in Inr (ts\<lparr>handles := s\<lparr>objs := (objs s)(l \<mapsto> null_handle)\<rparr>, is_moved := (is_moved ts)(l := False)\<rparr>))"

definition void_task_move_construct :: "nat \<Rightarrow> nat \<Rightarrow> tasks \<Rightarrow> handle_error + tasks" where
  "void_task_move_construct l x ts =
     (case move_construct l x (handles ts) of
        Inl e \<Rightarrow> Inl e
      | Inr s \<Rightarrow> Inr (ts\<lparr>handles := s, is_moved := (is_moved ts)(l := False, x := True)\<rparr>))"

definition void_task_move_assign :: "nat \<Rightarrow> nat \<Rightarrow> tasks \<Rightarrow> handle_error + tasks" where
  "void_task_move_assign l x ts =
     (case move_assign l x (handles ts) of
        Inl e \<Rightarrow> Inl e
      | Inr s \<Rightarrow> Inr (ts\<lparr>handles := s, is_moved := (is_moved ts)(x := True)\<rparr>))"

definition void_task_destruct :: "nat \<Rightarrow> tasks \<Rightarrow> handle_error + tasks" where
  "void_task_destruct l ts =
     (case objs (handles ts) l of
        None \<Rightarrow> Inl (Dead_object l)
      | Some h \<Rightarrow>
          let clear = \<not> is_moved ts l \<and> sh_addr h \<noteq> 0
          in if clear \<and> sh_addr h \<notin> set (live (handles ts)) then Inl (Dead_frame (sh_addr h))
             else let ts1 = if clear then ts\<lparr>outside := (outside ts)(sh_addr h := False)\<rparr> else ts
                  in (case destruct l (handles ts1) of Inl e \<Rightarrow> Inl e | Inr s \<Rightarrow> Inr (ts1\<lparr>handles := s\<rparr>)))"

text \<open>So the sequences above may have tasks of both kinds.\<close>

lemma void_task_is_task_object:
  "void_task_construct = task_construct" "void_task_default = task_default"
  "void_task_move_construct = task_move_construct" "void_task_move_assign = task_move_assign"
  "void_task_destruct = task_destruct"
  by (simp_all add: fun_eq_iff void_task_construct_def task_construct_def void_task_default_def task_default_def
      void_task_move_construct_def task_move_construct_def void_task_move_assign_def task_move_assign_def
      void_task_destruct_def task_destruct_def with_handles_def Let_def split: option.split sum.split)

subsection \<open>Properties\<close>

lemma others_counted:
  assumes inv: "tw_inv w" and c: "c \<in> set (live (tw_store w))"
  shows "unat (other_handles c (tw_tasks w)) = card (holders c (tw_store w) - (tw_objects w \<union> tw_awaiters w))"
proof -
  note inv = inv [unfolded tw_inv_def]
  let ?R = "tw_objects w \<union> tw_awaiters w" and ?s = "tw_store w"
  note fits = ret_inv_parts(6) [OF inv c]
  have n: "counted ?s" using ret_inv_parts(1) [OF inv] by (simp add: rc_inv_def)
  then have count: "unat (counts ?s c) = card (holders c ?s)" "finite (holders c ?s)"
    using c holders_finite [OF n] by (simp_all add: counted_def)
  show ?thesis
  proof (cases "outside (tw_tasks w) c")
    case True
    then obtain k where "?R \<inter> holders c ?s = {k}" using fits by (auto simp: flag_fits_def)
    then have k: "holders c ?s - ?R = holders c ?s - {k}" "k \<in> holders c ?s" by blast+
    then have "counts ?s c \<noteq> 0" using count by (metis card_0_eq empty_iff unat_0)
    then show ?thesis using True k count by (simp add: other_handles_def unat_pred)
  next
    case False
    then have "holders c ?s - ?R = holders c ?s" using fits by (auto simp: flag_fits_def)
    then show ?thesis using False count by (simp add: other_handles_def)
  qed
qed

text \<open>No \<open>Task\<close> is left whose destruction would touch a frame that is gone.\<close>

theorem tasks_can_be_destroyed:
  assumes "reach tw_start task_world_step w" and "l \<in> tw_objects w"
  shows "\<exists>ts. task_destruct l (tw_tasks w) = Inr ts"
  using task_destruct_eq [OF task_world.reach_inv [OF assms(1), unfolded tw_inv_def] assms(2)] by blast

text \<open>
  An entry of the barrier queue, made by a coroutine that waits: its frame is alive and holds
  its own handle \<open>self\<close>.
\<close>

definition waits_in :: "task_world \<Rightarrow> (nat \<Rightarrow> nat) \<Rightarrow> barrier_entry \<Rightarrow> bool" where
  "waits_in w self e \<longleftrightarrow> be_count e = be_handle e \<and> be_flag e = be_handle e \<and> be_handle e \<in> set (live (tw_store w)) \<and>
     self (be_handle e) \<in> holders (be_handle e) (tw_store w) - (tw_objects w \<union> tw_awaiters w)"

definition only_self :: "task_world \<Rightarrow> (nat \<Rightarrow> nat) \<Rightarrow> barrier_entry \<Rightarrow> bool" where
  "only_self w self e \<longleftrightarrow>
     holders (be_handle e) (tw_store w) - (tw_objects w \<union> tw_awaiters w) = {self (be_handle e)}"

lemma ready_when_alone:
  assumes "tw_inv w" and e: "waits_in w self e"
  shows "barrier_is_ready (counts (tw_store w)) (outside (tw_tasks w)) e = only_self w self e"
proof -
  let ?c = "be_handle e" let ?H = "holders ?c (tw_store w) - (tw_objects w \<union> tw_awaiters w)"
  have c: "?c \<in> set (live (tw_store w))" "self ?c \<in> ?H" using e by (simp_all add: waits_in_def)
  have "barrier_is_ready (counts (tw_store w)) (outside (tw_tasks w)) e \<longleftrightarrow> other_handles ?c (tw_tasks w) = 1"
    using e by (simp add: barrier_is_ready_def waits_in_def other_handles_def)
  also have "\<dots> \<longleftrightarrow> unat (other_handles ?c (tw_tasks w)) = 1" by (simp only: unat_one_iff)
  also have "\<dots> \<longleftrightarrow> card ?H = 1" by (simp only: others_counted [OF assms(1) c(1)])
  also have "\<dots> \<longleftrightarrow> ?H = {self ?c}" using c(2) by (metis card_1_singletonE is_singletonI is_singleton_altdef singletonD)
  finally show ?thesis by (simp add: only_self_def)
qed

text \<open>
  C25. Whatever tasks are created, moved, waited for and destroyed, and whatever handles promises
  copy, assign and drop: the number the barrier computes for a live frame is the number of its
  handles outside the \<open>Task\<close> objects and the awaiters of \<open>get\<close>, those of its children and its
  own; and a round of the barrier queue passes to the pool exactly the waiting tasks whose only
  such handle is their own, in their order, and keeps the others.
\<close>

theorem barrier_counts_others:
  assumes "reach tw_start task_world_step w"
  shows "(c \<in> set (live (tw_store w)) \<longrightarrow> unat (other_handles c (tw_tasks w)) =
      card (holders c (tw_store w) - (tw_objects w \<union> tw_awaiters w))) \<and>
    (list_all (waits_in w self) q \<longrightarrow> process_and_extract (counts (tw_store w)) (outside (tw_tasks w)) q pool =
      (filter (\<lambda>e. \<not> only_self w self e) q, pool @ map be_handle (filter (only_self w self) q)))"
proof (intro conjI impI)
  note inv = task_world.reach_inv [OF assms]
  show "c \<in> set (live (tw_store w)) \<Longrightarrow> unat (other_handles c (tw_tasks w)) =
      card (holders c (tw_store w) - (tw_objects w \<union> tw_awaiters w))"
    by (rule others_counted [OF inv])
  let ?ready = "barrier_is_ready (counts (tw_store w)) (outside (tw_tasks w))"
  assume "list_all (waits_in w self) q"
  then have "filter ?ready q = filter (only_self w self) q"
    "filter (\<lambda>e. \<not> ?ready e) q = filter (\<lambda>e. \<not> only_self w self e) q"
    using ready_when_alone [OF inv, of self] by (auto simp: list_all_iff intro: filter_cong)
  then show "process_and_extract (counts (tw_store w)) (outside (tw_tasks w)) q pool =
      (filter (\<lambda>e. \<not> only_self w self e) q, pool @ map be_handle (filter (only_self w self) q))"
    by (simp add: process_and_extract_def barrier_loop_eq)
qed

text \<open>
  A parent, frame 1, and its child, frame 2, whose handle \<open>parent\<close> at 21 keeps the parent alive. The
  parent's \<open>Task\<close> at 30 is moved to 32. The barrier counts two handles: the parent's own and the
  child's.
\<close>

definition family_tasks :: tasks where
  "family_tasks = \<lparr>handles =
     \<lparr>objs = [10 \<mapsto> handle_to 1, 20 \<mapsto> handle_to 2, 21 \<mapsto> handle_to 1, 30 \<mapsto> null_handle, 31 \<mapsto> handle_to 2, 32 \<mapsto> handle_to 1],
      counts = (\<lambda>_. 0)(1 := 3, 2 := 2), live = [2, 1], inside = (\<lambda>_. [])(1 := [10], 2 := [20, 21])\<rparr>,
     is_moved = (\<lambda>_. False)(30 := True), outside = (\<lambda>_. False)(1 := True, 2 := True)\<rparr>"

definition family_world :: task_world where
  "family_world = \<lparr>tw_tasks = family_tasks, tw_objects = {30, 31, 32}, tw_awaiters = {}\<rparr>"

lemmas task_world_defs = create_task_def task_construct_def with_handles_def copy_construct_def create_frame_def
  increment_ref_def fetch_add_def handle_to_def null_handle_def empty_store_def room_def

lemma family_world_reach: "reach tw_start task_world_step family_world"
proof -
  let ?t0 = "\<lparr>handles = empty_store, is_moved = \<lambda>_. False, outside = \<lambda>_. False\<rparr>"
  let ?w0 = "\<lparr>tw_tasks = ?t0, tw_objects = {}, tw_awaiters = {}\<rparr>"
  let ?s1 = "\<lparr>objs = [10 \<mapsto> handle_to 1, 30 \<mapsto> handle_to 1], counts = (\<lambda>_. 0)(1 := 2), live = [1], inside = (\<lambda>_. [])(1 := [10])\<rparr>"
  let ?t1 = "\<lparr>handles = ?s1, is_moved = \<lambda>_. False, outside = (\<lambda>_. False)(1 := True)\<rparr>"
  let ?w1 = "\<lparr>tw_tasks = ?t1, tw_objects = {30}, tw_awaiters = {}\<rparr>"
  let ?s2 = "\<lparr>objs = [10 \<mapsto> handle_to 1, 30 \<mapsto> handle_to 1, 20 \<mapsto> handle_to 2, 21 \<mapsto> null_handle, 31 \<mapsto> handle_to 2],
    counts = (\<lambda>_. 0)(1 := 2, 2 := 2), live = [2, 1], inside = (\<lambda>_. [])(1 := [10], 2 := [20, 21])\<rparr>"
  let ?t2 = "\<lparr>handles = ?s2, is_moved = \<lambda>_. False, outside = (\<lambda>_. False)(1 := True, 2 := True)\<rparr>"
  let ?w2 = "\<lparr>tw_tasks = ?t2, tw_objects = {30, 31}, tw_awaiters = {}\<rparr>"
  let ?s3 = "?s2\<lparr>objs := (objs ?s2)(21 \<mapsto> handle_to 1), counts := (\<lambda>_. 0)(1 := 3, 2 := 2)\<rparr>"
  let ?w3 = "?w2\<lparr>tw_tasks := ?t2\<lparr>handles := ?s3\<rparr>\<rparr>"
  have r: "reach tw_start task_world_step ?w0" by (rule reach_init) (simp add: tw_start_def)
  have c1: "create_task 1 10 [] 30 ?t0 = Inr ?t1"
    by (simp add: task_world_defs) (auto simp: fun_eq_iff)
  have "task_world_step ?w0 (?w0\<lparr>tw_tasks := ?t1, tw_objects := insert 30 (tw_objects ?w0)\<rparr>)"
    by (rule tw_create [of 1 10 "[]"]) (use c1 in \<open>simp_all add: empty_store_def room_def\<close>)
  moreover have "?w0\<lparr>tw_tasks := ?t1, tw_objects := insert 30 (tw_objects ?w0)\<rparr> = ?w1" by simp
  ultimately have r: "reach tw_start task_world_step ?w1" using reach_step [OF r] by (simp only:)
  have c2: "create_task 2 20 [21] 31 ?t1 = Inr ?t2"
    by (simp add: task_world_defs) (auto simp: fun_eq_iff)
  have "task_world_step ?w1 (?w1\<lparr>tw_tasks := ?t2, tw_objects := insert 31 (tw_objects ?w1)\<rparr>)"
    by (rule tw_create [of 2 20 "[21]"]) (use c2 in \<open>simp_all add: room_def\<close>)
  moreover have "?w1\<lparr>tw_tasks := ?t2, tw_objects := insert 31 (tw_objects ?w1)\<rparr> = ?w2" by (simp add: insert_commute)
  ultimately have r: "reach tw_start task_world_step ?w2" using reach_step [OF r] by (simp only:)
  have "copy_assign 21 10 ?s2 = Inr ?s3"
    by (simp add: copy_assign_def release_object_def decrement_ref_null increment_ref_some fun_upd_twist)
  then have "task_world_step ?w2 (?w2\<lparr>tw_tasks := (tw_tasks ?w2)\<lparr>handles := ?s3\<rparr>\<rparr>)"
    by (intro tw_handle [of "Copy_assign 21 10"]) (simp_all add: assignable_def room_def)
  moreover have "?w2\<lparr>tw_tasks := (tw_tasks ?w2)\<lparr>handles := ?s3\<rparr>\<rparr> = ?w3" by simp
  ultimately have r: "reach tw_start task_world_step ?w3" using reach_step [OF r] by (simp only:)
  have "task_move_construct 32 30 (tw_tasks ?w3) = Inr family_tasks"
    by (simp add: task_move_construct_def with_handles_def move_construct_def family_tasks_def) (auto simp: fun_eq_iff)
  then have "task_world_step ?w3 (?w3\<lparr>tw_tasks := family_tasks, tw_objects := insert 32 (tw_objects ?w3)\<rparr>)"
    by (intro tw_move) simp_all
  moreover have "?w3\<lparr>tw_tasks := family_tasks, tw_objects := insert 32 (tw_objects ?w3)\<rparr> = family_world"
    by (simp add: family_world_def insert_commute)
  ultimately show ?thesis using reach_step [OF r] by (simp only:)
qed

lemma tasks_can_be_destroyed_witness: "\<exists>ts. task_destruct 32 (tw_tasks family_world) = Inr ts"
  by (rule tasks_can_be_destroyed [OF family_world_reach]) (simp add: family_world_def)

text \<open>Parent and child wait in barriers; the child has no children and is passed to the pool.\<close>

lemma barrier_counts_others_witness:
  "unat (other_handles 1 family_tasks) = card ({10, 21} :: nat set) \<and>
    process_and_extract (counts (handles family_tasks)) (outside family_tasks) [\<lparr>be_handle = 1, be_count = 1, be_flag = 1\<rparr>,
      \<lparr>be_handle = 2, be_count = 2, be_flag = 2\<rparr>] [5] = ([\<lparr>be_handle = 1, be_count = 1, be_flag = 1\<rparr>], [5, 2])"
proof -
  let ?self = "\<lambda>c. if c = 1 then 10 else 20 :: nat"
  have h: "holders 1 (handles family_tasks) = {10, 21, 32}" "holders 2 (handles family_tasks) = {20, 31}"
    by (auto simp: holders_def family_tasks_def split: if_splits)
  have w: "tw_tasks family_world = family_tasks" "tw_objects family_world \<union> tw_awaiters family_world = {30, 31, 32}"
    "live (handles family_tasks) = [2, 1]"
    by (simp_all add: family_world_def family_tasks_def)
  have o: "{10, 21, 32} - {30, 31, 32} = {10, 21 :: nat}" "{20, 31} - {30, 31, 32} = {20 :: nat}" by auto
  let ?q = "[\<lparr>be_handle = 1, be_count = 1, be_flag = 1\<rparr>, \<lparr>be_handle = 2, be_count = 2, be_flag = 2\<rparr>]"
  have "list_all (waits_in family_world ?self) ?q" by (simp add: waits_in_def w h h [unfolded One_nat_def] o)
  moreover have "\<not> only_self family_world ?self (?q ! 0)" "only_self family_world ?self (?q ! 1)"
    by (simp_all add: only_self_def w h h [unfolded One_nat_def] o)
  ultimately show ?thesis
    using barrier_counts_others [OF family_world_reach, of 1 ?self ?q "[5]"] by (simp add: w h h [unfolded One_nat_def] o)
qed

text \<open>
  Assignment to a \<open>Task\<close> that still holds a task gives up its handle but leaves \<open>coroOutsideTask\<close>
  set, and no destructor clears it any more: the barrier counts one handle too few for the task
  that was held. With one child left the barrier in that task is taken to be ready.
\<close>

lemma overwritten_task_miscounts:
  assumes rc: "rc_inv [] (handles ts)" and l: "objs (handles ts) l = Some (handle_to c)" "c \<noteq> 0" "l \<noteq> x"
    and x: "objs (handles ts) x = Some (handle_to d)" "d \<noteq> c" and "outside ts c" and many: "counts (handles ts) c \<noteq> 1"
  shows "\<exists>t. task_move_assign l x ts = Inr t \<and> outside t c \<and> other_handles c t = other_handles c ts - 1 \<and>
    holders c (handles t) = holders c (handles ts) - {l}"
proof -
  have c: "c \<in> set (live (handles ts))" using counted_live rc l(1,2) unfolding rc_inv_def by (metis handle_simps(2,5))
  let ?s = "(handles ts)\<lparr>counts := (counts (handles ts))(c := counts (handles ts) c - 1)\<rparr>"
  have "release_object l (handles ts) = Inr ?s"
    using l c many by (simp add: release_object_def decrement_ref_some)
  then have "task_move_assign l x ts = Inr (ts\<lparr>is_moved := (is_moved ts)(x := True),
      handles := ?s\<lparr>objs := (objs (handles ts))(l \<mapsto> handle_to d, x \<mapsto> null_handle)\<rparr>\<rparr>)"
    using l x by (simp add: task_move_assign_def with_handles_def move_assign_def)
  then show ?thesis using assms by (auto simp: other_handles_def holders_def split: if_splits)
qed

end
