(* ===== verification/Wait_Counter.thy ===== *)
theory Wait_Counter
  imports Prelude
begin

section \<open>The wait counter: a task starts once, when its last resource is free\<close>

text \<open>
  The protocol of \<open>dispatch_task\<close> (dispatchTask.hpp), \<open>BarrierAwaiter::await_suspend\<close>
  (barrier.hpp) and the release side of \<open>ResourceNode\<close>, interleaved. The counter of a new task
  starts at \<open>INVALID_WAIT_STATE\<close>; the dispatcher adds the number of resources (at once, or one
  before each registration in the barrier), registers the task at each resource and subtracts
  \<open>INVALID_WAIT_STATE\<close> at the end. Whoever frees a resource for the task, at any time after the
  registration, subtracts one; a thread that finds the count at 1 starts the task, and so does
  the dispatcher if it finds \<open>INVALID_WAIT_STATE\<close>. One step is one atomic access to the counter.
\<close>

definition INVALID_WAIT_STATE :: u32 where
  "INVALID_WAIT_STATE = push_bit 31 1"

datatype dispatch_pc = D_announce | D_register | D_finished bool

text \<open>\<open>dp_starts\<close> counts the threads that found the count at 1 and passed the task to the pool.\<close>

record dispatching =
  dp_counter :: u32
  dp_pc :: dispatch_pc
  dp_registered :: nat
  dp_released :: nat
  dp_starts :: nat

definition dispatch_init :: "dispatching \<Rightarrow> bool" where
  "dispatch_init s \<longleftrightarrow> s = \<lparr>dp_counter = INVALID_WAIT_STATE, dp_pc = D_announce, dp_registered = 0,
     dp_released = 0, dp_starts = 0\<rparr>"

text \<open>The last atomic access of the dispatcher, common to both forms.\<close>

definition finish_dispatch :: "dispatching \<Rightarrow> dispatching" where
  "finish_dispatch s =
     (let (wc, new) = fetch_sub (dp_counter s) INVALID_WAIT_STATE
      in s\<lparr>dp_counter := new, dp_pc := D_finished (wc = INVALID_WAIT_STATE)\<rparr>)"

text \<open>
  \<open>dispatch_task\<close> with \<open>n\<close> resources: \<open>process_handle\<close> has counted them in a \<open>uint16_t\<close>, and what is
  added to the counter is that number.
\<close>

definition dispatch_step :: "nat \<Rightarrow> dispatching \<Rightarrow> dispatching option" where
  "dispatch_step n s =
     (case dp_pc s of
        D_announce \<Rightarrow>
          Some (s\<lparr>dp_counter := snd (fetch_add (dp_counter s) (ucast (of_nat n :: u16))), dp_pc := D_register\<rparr>)
      | D_register \<Rightarrow>
          if dp_registered s < n then Some (s\<lparr>dp_registered := dp_registered s + 1\<rparr>)
          else Some (finish_dispatch s)
      | D_finished r \<Rightarrow> None)"

text \<open>The barrier: \<open>processResource\<close> announces one resource before it registers.\<close>

definition barrier_step :: "nat \<Rightarrow> dispatching \<Rightarrow> dispatching option" where
  "barrier_step n s =
     (case dp_pc s of
        D_announce \<Rightarrow>
          if dp_registered s < n
          then Some (s\<lparr>dp_counter := snd (fetch_add (dp_counter s) 1), dp_pc := D_register\<rparr>)
          else Some (finish_dispatch s)
      | D_register \<Rightarrow> Some (s\<lparr>dp_registered := dp_registered s + 1, dp_pc := D_announce\<rparr>)
      | D_finished r \<Rightarrow> None)"

text \<open>A resource is freed for the task: \<open>waitCounter_p->fetch_sub(1) == 1\<close>.\<close>

definition release_step :: "dispatching \<Rightarrow> dispatching option" where
  "release_step s =
     (if dp_released s < dp_registered s
      then let (old, new) = fetch_sub (dp_counter s) 1
           in Some (s\<lparr>dp_counter := new, dp_released := dp_released s + 1,
                dp_starts := (if old = 1 then dp_starts s + 1 else dp_starts s)\<rparr>)
      else None)"

text \<open>\<open>barrier\<close> chooses the form of the dispatcher.\<close>

inductive wait_step :: "bool \<Rightarrow> nat \<Rightarrow> dispatching \<Rightarrow> dispatching \<Rightarrow> bool" for barrier n where
  dispatcher_moves: "(if barrier then barrier_step n s else dispatch_step n s) = Some t \<Longrightarrow> wait_step barrier n s t"
| releaser_moves: "release_step s = Some t \<Longrightarrow> wait_step barrier n s t"

inductive_cases wait_stepE: "wait_step barrier n s t"

text \<open>The numbers of resources the counters can hold: 16 bits in \<open>dispatch_task\<close>, 31 in the barrier.\<close>

definition count_fits :: "bool \<Rightarrow> nat \<Rightarrow> bool" where
  "count_fits barrier n \<longleftrightarrow> n < 2 ^ (if barrier then 31 else 16)"

lemma count_fits_31: "count_fits barrier n \<Longrightarrow> n < 2 ^ 31"
  by (simp add: count_fits_def split: if_splits)

lemma count_fits_16: "count_fits False n \<Longrightarrow> ucast (of_nat n :: u16) = (of_nat n :: u32)"
  by (simp add: count_fits_def unsigned_of_nat take_bit_nat_eq_self)

text \<open>How often the task has been started: by a releaser, or by the dispatcher.\<close>

definition task_starts :: "dispatching \<Rightarrow> nat" where
  "task_starts s = dp_starts s + (if dp_pc s = D_finished True then 1 else 0)"

subsection \<open>The invariant\<close>

definition announced :: "bool \<Rightarrow> nat \<Rightarrow> dispatching \<Rightarrow> nat" where
  "announced barrier n s =
     (case dp_pc s of
        D_announce \<Rightarrow> if barrier then dp_registered s else 0
      | D_register \<Rightarrow> if barrier then dp_registered s + 1 else n
      | D_finished r \<Rightarrow> n)"

definition offset :: "dispatching \<Rightarrow> nat" where
  "offset s = (case dp_pc s of D_finished r \<Rightarrow> 0 | _ \<Rightarrow> 2 ^ 31)"

definition wait_inv :: "bool \<Rightarrow> nat \<Rightarrow> dispatching \<Rightarrow> bool" where
  "wait_inv barrier n s \<longleftrightarrow>
     dp_counter s = of_nat (offset s + announced barrier n s - dp_released s) \<and>
     dp_released s \<le> dp_registered s \<and> dp_registered s \<le> announced barrier n s \<and>
     announced barrier n s \<le> n \<and>
     (case dp_pc s of
        D_finished ready \<Rightarrow> dp_registered s = n \<and>
          (if ready then dp_released s = n \<and> dp_starts s = 0
           else dp_starts s = (if dp_released s = n then 1 else 0))
      | _ \<Rightarrow> dp_starts s = 0)"

lemma of_nat_u32_eq: "x < 2 ^ 32 \<Longrightarrow> y < 2 ^ 32 \<Longrightarrow> ((of_nat x :: u32) = of_nat y) = (x = y)"
  using of_nat_inverse [of x "of_nat y :: u32"] of_nat_inverse [of y "of_nat y :: u32"] by auto

lemma invalid_eq: "INVALID_WAIT_STATE = of_nat (2 ^ 31)"
  by (simp add: INVALID_WAIT_STATE_def push_bit_eq_mult)

lemma of_nat_minus_one: "0 < x \<Longrightarrow> (of_nat x :: u32) - 1 = of_nat (x - 1)"
  by (simp add: of_nat_diff)

lemma of_nat_is_one: "x < 2 ^ 32 \<Longrightarrow> ((of_nat x :: u32) = 1) = (x = 1)"
  using of_nat_u32_eq [of x 1] by simp

lemma wait_inv_init: "n < 2 ^ 31 \<Longrightarrow> dispatch_init s \<Longrightarrow> wait_inv barrier n s"
  by (simp add: dispatch_init_def wait_inv_def announced_def offset_def invalid_eq)

lemma finish_inv:
  assumes n: "n < 2 ^ 31" and inv: "wait_inv barrier n s"
    and pc: "dp_pc s = (if barrier then D_announce else D_register)" and all: "dp_registered s = n"
  shows "wait_inv barrier n (finish_dispatch s)"
proof -
  let ?r = "dp_released s"
  have i: "dp_counter s = of_nat (2 ^ 31 + n - ?r)" "?r \<le> n" "dp_starts s = 0"
    using inv pc all by (auto simp: wait_inv_def announced_def offset_def split: if_splits)
  have "(dp_counter s = INVALID_WAIT_STATE) = (2 ^ 31 + n - ?r = 2 ^ 31)"
    unfolding i(1) invalid_eq by (rule of_nat_u32_eq) (use n i(2) in auto)
  then have ready: "(dp_counter s = INVALID_WAIT_STATE) = (?r = n)" using i(2) by auto
  have "dp_counter s - INVALID_WAIT_STATE = of_nat (2 ^ 31 + n - ?r) - of_nat (2 ^ 31)"
    by (simp only: i(1) invalid_eq)
  also have "\<dots> = (of_nat (n - ?r) :: u32)"
    using i(2) by (simp add: of_nat_diff)
  finally have "dp_counter s - INVALID_WAIT_STATE = of_nat (n - ?r)" .
  then show ?thesis
    using i(2,3) all ready
    by (simp add: finish_dispatch_def Let_def fetch_sub_def wait_inv_def announced_def offset_def)
qed

lemma dispatcher_inv:
  assumes fits: "count_fits barrier n" and inv: "wait_inv barrier n s"
    and step: "(if barrier then barrier_step n s else dispatch_step n s) = Some t"
  shows "wait_inv barrier n t"
proof (cases barrier)
  case True
  then consider (bump) "dp_pc s = D_announce" "dp_registered s < n"
      "t = s\<lparr>dp_counter := dp_counter s + 1, dp_pc := D_register\<rparr>"
    | (reg) "dp_pc s = D_register" "t = s\<lparr>dp_registered := dp_registered s + 1, dp_pc := D_announce\<rparr>"
    | (fin) "dp_pc s = D_announce" "dp_registered s = n" "t = finish_dispatch s"
    using step inv
    by (auto simp: barrier_step_def wait_inv_def announced_def fetch_add_def
        split: dispatch_pc.splits if_splits)
  then show ?thesis
  proof cases
    case bump
    then have "dp_counter s = of_nat (2 ^ 31 + dp_registered s - dp_released s)" "dp_released s \<le> dp_registered s"
      using inv True by (simp_all add: wait_inv_def announced_def offset_def)
    moreover from this have "dp_counter s + 1 = of_nat (2 ^ 31 + (dp_registered s + 1) - dp_released s)"
      by (simp add: Suc_diff_le of_nat_diff)
    ultimately show ?thesis using inv True bump by (simp add: wait_inv_def announced_def offset_def)
  next
    case reg
    then show ?thesis using inv True by (simp add: wait_inv_def announced_def offset_def)
  next
    case fin
    then show ?thesis using finish_inv [OF count_fits_31 [OF fits] inv] True by simp
  qed
next
  case False
  then consider (bump) "dp_pc s = D_announce" "t = s\<lparr>dp_counter := dp_counter s + of_nat n, dp_pc := D_register\<rparr>"
    | (reg) "dp_pc s = D_register" "dp_registered s < n" "t = s\<lparr>dp_registered := dp_registered s + 1\<rparr>"
    | (fin) "dp_pc s = D_register" "dp_registered s = n" "t = finish_dispatch s"
    using step inv count_fits_16 fits
    by (auto simp: dispatch_step_def wait_inv_def announced_def fetch_add_def
        split: dispatch_pc.splits if_splits)
  then show ?thesis
  proof cases
    case bump
    then show ?thesis using inv False by (simp add: wait_inv_def announced_def offset_def)
  next
    case reg
    then show ?thesis using inv False by (simp add: wait_inv_def announced_def offset_def)
  next
    case fin
    then show ?thesis using finish_inv [OF count_fits_31 [OF fits] inv] False by simp
  qed
qed

lemma releaser_inv:
  assumes n: "n < 2 ^ 31" and inv: "wait_inv barrier n s" and step: "release_step s = Some t"
  shows "wait_inv barrier n t"
proof -
  let ?x = "offset s + announced barrier n s - dp_released s"
  have i: "dp_counter s = of_nat ?x" "dp_released s < dp_registered s"
      "dp_registered s \<le> announced barrier n s" "announced barrier n s \<le> n"
    using inv step by (auto simp: wait_inv_def release_step_def split: if_splits)
  have x: "0 < ?x" "?x < 2 ^ 32"
    using i n by (auto simp: offset_def split: dispatch_pc.splits)
  have one: "(dp_counter s = 1) = (?x = 1)" unfolding i(1) by (rule of_nat_is_one [OF x(2)])
  have t: "t = s\<lparr>dp_counter := of_nat (?x - 1), dp_released := dp_released s + 1,
      dp_starts := (if ?x = 1 then dp_starts s + 1 else dp_starts s)\<rparr>"
    using step i(2) one of_nat_minus_one [OF x(1)] i(1)
    by (auto simp: release_step_def fetch_sub_def Let_def)
  have f: "dp_pc t = dp_pc s" "dp_registered t = dp_registered s" "dp_released t = Suc (dp_released s)"
    "dp_counter t = of_nat (?x - 1)" "dp_starts t = (if ?x = 1 then dp_starts s + 1 else dp_starts s)"
    unfolding t by simp_all
  have a: "announced barrier n t = announced barrier n s" "offset t = offset s"
    by (simp_all add: f announced_def offset_def split: dispatch_pc.split)
  show ?thesis
  proof (cases "dp_pc s")
    case (D_finished ready)
    then have "offset s = 0" "announced barrier n s = n" "dp_registered s = n"
      using inv by (simp_all add: offset_def announced_def wait_inv_def)
    then show ?thesis using inv i D_finished a
      by (auto simp: wait_inv_def f split: if_splits)
  qed (use inv i a in \<open>auto simp: wait_inv_def f offset_def\<close>)
qed

lemma wait_step_inv:
  "count_fits barrier n \<Longrightarrow> wait_inv barrier n s \<Longrightarrow> wait_step barrier n s t \<Longrightarrow> wait_inv barrier n t"
  by (erule wait_stepE) (blast intro: dispatcher_inv releaser_inv count_fits_31)+

interpretation wtc: invariant_system dispatch_init
    "\<lambda>s t. count_fits barrier n \<and> wait_step barrier n s t" "\<lambda>s. count_fits barrier n \<longrightarrow> wait_inv barrier n s"
  for barrier n
  by unfold_locales (blast intro: wait_inv_init wait_step_inv count_fits_31)+

lemma reach_wait_inv:
  assumes "reach dispatch_init (wait_step barrier n) s" and "count_fits barrier n"
  shows "wait_inv barrier n s"
proof -
  have "(\<lambda>s t. count_fits barrier n \<and> wait_step barrier n s t) = wait_step barrier n"
    using assms(2) by simp
  then show ?thesis using wtc.reach_inv [of barrier n s] assms by simp
qed

text \<open>Steps that are left: of the dispatcher, and one for each resource still to be freed.\<close>

definition wait_rank :: "bool \<Rightarrow> nat \<Rightarrow> dispatching \<Rightarrow> nat" where
  "wait_rank barrier n s =
     (case dp_pc s of
        D_announce \<Rightarrow> 2 * (n - dp_registered s) + 2
      | D_register \<Rightarrow> 2 * (n - dp_registered s) + 1
      | D_finished r \<Rightarrow> 0) + (n - dp_released s)"

lemma wait_step_rank:
  assumes inv: "wait_inv barrier n s" and step: "wait_step barrier n s t"
  shows "wait_rank barrier n t < wait_rank barrier n s"
proof -
  have d: "wait_rank barrier n t < wait_rank barrier n s"
    if "(if barrier then barrier_step n s else dispatch_step n s) = Some t"
  proof (cases "dp_pc s")
    case D_announce
    then show ?thesis using that inv
      by (cases barrier) (auto simp: wait_rank_def barrier_step_def dispatch_step_def finish_dispatch_def
          Let_def fetch_sub_def split: if_splits)
  next
    case D_register
    then show ?thesis using that inv
      by (cases barrier) (auto simp: wait_rank_def barrier_step_def dispatch_step_def finish_dispatch_def
          Let_def fetch_sub_def wait_inv_def announced_def split: if_splits)
  next
    case (D_finished r)
    then show ?thesis using that by (simp add: barrier_step_def dispatch_step_def split: if_splits)
  qed
  have r: "wait_rank barrier n t < wait_rank barrier n s" if "release_step s = Some t"
  proof -
    have f: "dp_pc t = dp_pc s" "dp_registered t = dp_registered s" "dp_released t = Suc (dp_released s)"
      and lt: "dp_released s < dp_registered s"
      using that by (auto simp: release_step_def Let_def fetch_sub_def split: if_splits)
    have "dp_released s < n" using lt inv by (simp add: wait_inv_def)
    then show ?thesis by (cases "dp_pc s") (auto simp: wait_rank_def f)
  qed
  show ?thesis using step d r by (rule wait_stepE)
qed

lemma no_wait_step:
  assumes inv: "wait_inv barrier n s" and stuck: "\<nexists>t. wait_step barrier n s t"
  shows "(\<exists>r. dp_pc s = D_finished r) \<and> dp_released s = n"
proof -
  have "barrier_step n s = None \<or> \<not> barrier" "dispatch_step n s = None \<or> barrier" "release_step s = None"
    using stuck wait_step.intros [where barrier = barrier and n = n and s = s]
    by (metis not_Some_eq)+
  then show ?thesis using inv
    by (cases "dp_pc s")
      (auto simp: barrier_step_def dispatch_step_def release_step_def Let_def wait_inv_def announced_def
        split: if_splits prod.splits)
qed

lemma wait_inv_starts:
  assumes "wait_inv barrier n s"
  shows "task_starts s = (if (\<exists>r. dp_pc s = D_finished r) \<and> dp_released s = n then 1 else 0)"
  using assms by (cases "dp_pc s") (auto simp: wait_inv_def task_starts_def announced_def split: if_splits)

lemma wait_completes:
  "wait_inv barrier n s \<Longrightarrow> count_fits barrier n \<Longrightarrow> \<exists>t. (wait_step barrier n)\<^sup>*\<^sup>* s t \<and> task_starts t = 1"
proof (induction s rule: measure_induct_rule [of "wait_rank barrier n"])
  case (less s)
  show ?case
  proof (cases "\<exists>t. wait_step barrier n s t")
    case True
    then obtain t where t: "wait_step barrier n s t" by blast
    have "wait_inv barrier n t"
      by (rule wait_step_inv [OF less.prems(2,1) t])
    then obtain u where "(wait_step barrier n)\<^sup>*\<^sup>* t u" "task_starts u = 1"
      using less.IH [OF wait_step_rank [OF less.prems(1) t]] less.prems(2) by blast
    then show ?thesis using converse_rtranclp_into_rtranclp [of "wait_step barrier n", OF t] by blast
  next
    case False
    then show ?thesis using no_wait_step [OF less.prems(1)] wait_inv_starts [OF less.prems(1)]
      by (intro exI [of _ s]) auto
  qed
qed

subsection \<open>Properties\<close>

text \<open>
  C22. However the dispatcher's registrations interleave with the threads that free resources,
  a task with fewer than \<open>2 ^ 16\<close> resources (\<open>2 ^ 31\<close> in the barrier, which counts them one by one
  in 32 bits) is started at most once, never before its registration is complete and its last
  resource is free, and then at once: the dispatcher
  runs it if all were freed before it subtracted \<open>INVALID_WAIT_STATE\<close>, and otherwise exactly
  one releaser passes it to the pool. The counter does not wrap at 32 bits.
\<close>

theorem task_starts_exactly_when_free:
  assumes "reach dispatch_init (wait_step barrier n) s" and "count_fits barrier n"
  shows "task_starts s = (if (\<exists>r. dp_pc s = D_finished r) \<and> dp_released s = n then 1 else 0) \<and>
    unat (dp_counter s) = offset s + announced barrier n s - dp_released s"
proof -
  have inv: "wait_inv barrier n s" by (rule reach_wait_inv [OF assms])
  then have "offset s + announced barrier n s - dp_released s < 2 ^ 32"
    using count_fits_31 [OF assms(2)] by (auto simp: wait_inv_def offset_def split: dispatch_pc.splits)
  then have "unat (of_nat (offset s + announced barrier n s - dp_released s) :: u32) =
      offset s + announced barrier n s - dp_released s"
    by (intro of_nat_inverse [OF refl]) simp
  then show ?thesis using inv wait_inv_starts [OF inv] by (auto simp: wait_inv_def)
qed

text \<open>
  C23. No start is lost, with as many resources as the counters hold: every run in which the resources
  keep being freed reaches the start of the task; a state without a next step has started it, and every step brings that state nearer.
\<close>

theorem task_start_is_reached:
  assumes "reach dispatch_init (wait_step barrier n) s" and "count_fits barrier n"
  shows "(\<exists>t. (wait_step barrier n)\<^sup>*\<^sup>* s t \<and> task_starts t = 1) \<and>
    ((\<exists>t. wait_step barrier n s t) \<or> task_starts s = 1) \<and>
    (\<forall>t. \<not> wait_step barrier n s t \<or> wait_rank barrier n t < wait_rank barrier n s)"
proof -
  have inv: "wait_inv barrier n s" by (rule reach_wait_inv [OF assms])
  have "(\<exists>t. wait_step barrier n s t) \<or> task_starts s = 1"
    using no_wait_step [OF inv] wait_inv_starts [OF inv] by auto
  then show ?thesis using wait_completes [OF inv assms(2)] wait_step_rank [OF inv] by blast
qed

text \<open>
  Two resources; the second is freed between its registration and the end of the dispatch, the
  first only afterwards, by the thread that then starts the task.
\<close>

fun run_waiting :: "bool \<Rightarrow> nat \<Rightarrow> bool list \<Rightarrow> dispatching \<Rightarrow> dispatching" where
  "run_waiting barrier n [] s = s"
| "run_waiting barrier n (d # ds) s =
     (case (if d then (if barrier then barrier_step n s else dispatch_step n s) else release_step s) of
        None \<Rightarrow> run_waiting barrier n ds s
      | Some t \<Rightarrow> run_waiting barrier n ds t)"

lemma run_waiting_reach:
  "reach dispatch_init (wait_step barrier n) s \<Longrightarrow>
    reach dispatch_init (wait_step barrier n) (run_waiting barrier n ds s)"
proof (induction ds arbitrary: s)
  case (Cons d ds)
  let ?o = "if d then (if barrier then barrier_step n s else dispatch_step n s) else release_step s"
  show ?case
  proof (cases ?o)
    case None
    then show ?thesis using Cons by simp
  next
    case (Some t)
    then have "wait_step barrier n s t" by (cases d) (auto intro: wait_step.intros)
    then have "reach dispatch_init (wait_step barrier n) t" by (rule reach_step [OF Cons.prems])
    then show ?thesis using Cons.IH Some by simp
  qed
qed simp

definition new_dispatching :: dispatching where
  "new_dispatching = \<lparr>dp_counter = INVALID_WAIT_STATE, dp_pc = D_announce, dp_registered = 0,
     dp_released = 0, dp_starts = 0\<rparr>"

lemma new_dispatching_reach: "reach dispatch_init (wait_step barrier n) new_dispatching"
  by (rule reach_init) (simp add: dispatch_init_def new_dispatching_def)

definition raced :: dispatching where
  "raced = run_waiting False 2 [True, True, True, False, True, False] new_dispatching"

lemma task_starts_exactly_when_free_witness:
  "dp_pc raced = D_finished False \<and> dp_released raced = 2 \<and> task_starts raced = 1 \<and> dp_counter raced = 0"
proof -
  have r: "reach dispatch_init (wait_step False 2) raced"
    unfolding raced_def by (rule run_waiting_reach [OF new_dispatching_reach])
  have pc: "dp_pc raced = D_finished False" and rel: "dp_released raced = 2"
    by code_simp+
  then have "\<exists>r. dp_pc raced = D_finished r" by blast
  then have "task_starts raced = 1" "unat (dp_counter raced) = 0"
    using task_starts_exactly_when_free [OF r] pc rel by (simp_all add: offset_def announced_def count_fits_def)
  then show ?thesis using pc rel by (simp add: unat_eq_0)
qed

lemma task_start_is_reached_witness:
  "\<exists>t. (wait_step True 3)\<^sup>*\<^sup>* new_dispatching t \<and> task_starts t = 1"
  using task_start_is_reached [OF new_dispatching_reach [of True 3]] by (simp add: count_fits_def)

text \<open>
  The bound is needed: the \<open>uint16_t\<close> of \<open>dispatch_task\<close> wraps at \<open>2 ^ 16\<close> resources; nothing is
  announced, and the dispatcher runs the task although no resource is free.
\<close>

lemma wrapped_count:
  assumes zero: "ucast (of_nat n :: u16) = (0 :: u32)"
  shows "\<exists>s. reach dispatch_init (wait_step False n) s \<and> dp_pc s = D_finished True \<and> dp_released s = 0"
proof -
  let ?s = "\<lambda>k. new_dispatching\<lparr>dp_pc := D_register, dp_registered := k\<rparr>"
  have "dispatch_step n new_dispatching = Some (?s 0)"
    using zero by (simp add: dispatch_step_def new_dispatching_def fetch_add_def)
  then have start: "reach dispatch_init (wait_step False n) (?s 0)"
    by (intro reach_step [OF new_dispatching_reach] dispatcher_moves) simp
  have all: "k \<le> n \<Longrightarrow> reach dispatch_init (wait_step False n) (?s k)" for k
  proof (induction k)
    case (Suc k)
    then have "dispatch_step n (?s k) = Some (?s (Suc k))" by (simp add: dispatch_step_def)
    then have "wait_step False n (?s k) (?s (Suc k))" by (intro dispatcher_moves) simp
    with Suc show ?case by (intro reach_step [of _ _ "?s k" "?s (Suc k)"]) simp_all
  qed (rule start)
  let ?t = "finish_dispatch (?s n)"
  have "dispatch_step n (?s n) = Some ?t" by (simp add: dispatch_step_def)
  then have "reach dispatch_init (wait_step False n) ?t"
    by (intro reach_step [OF all [OF order_refl]] dispatcher_moves) simp
  moreover have "dp_pc ?t = D_finished True" "dp_released ?t = 0"
    by (simp_all add: finish_dispatch_def new_dispatching_def fetch_sub_def Let_def)
  ultimately show ?thesis by blast
qed

lemma wrapped_count_starts_early:
  "\<exists>s. reach dispatch_init (wait_step False (2 ^ 16)) s \<and> dp_pc s = D_finished True \<and> dp_released s = 0"
  by (rule wrapped_count) simp

end
