(* ===== verification/Thread_Pool.thy ===== *)
theory Thread_Pool
  imports Ring_Deque Barrier_Queue
begin

section \<open>The thread pool (ThreadPool.hpp)\<close>

text \<open>
  One queue per worker, the master queue that the main thread fills, and the barrier queue.
  \<open>worker_iteration\<close> is one round of the loop of \<open>worker\<close> up to the point where a task is
  resumed: pop from the own queue, then 64 attempts to steal from a random victim, where the
  worker's own index stands for the master queue, then the barrier queue. The queue operations
  are those of \<open>Ring_Deque\<close>, each taken as one atomic step; \<open>Deque_Conc\<close> justifies this for
  the queue. The random draws, the reference counts and the flags are parameters. Tasks are
  coroutine handles, given as numbers.
\<close>

record pool =
  thread_queues :: "nat deque list"
  master_queue :: "nat deque"
  barrier_q :: barrier_queue

datatype pool_error = Insufficient_cores

definition thread_pool_stack_size :: int where
  "thread_pool_stack_size = 64"

definition random_steal_attempts :: nat where
  "random_steal_attempts = 64"

text \<open>The constructor, less the start of the threads.\<close>

definition pool_new :: "nat \<Rightarrow> nat \<Rightarrow> pool_error + pool" where
  "pool_new num_cores n =
     (if num_cores < n then Inl Insufficient_cores
      else Inr \<lparr>thread_queues = replicate n (deque_new thread_pool_stack_size),
                master_queue = deque_new thread_pool_stack_size, barrier_q = []\<rparr>)"

text \<open>
  \<open>addTask\<close> pushes to the queue of the calling thread, \<open>thread_queue_p\<close>: that of a worker, or
  the master queue for the main thread (\<open>None\<close>).
\<close>

fun pool_add_task :: "nat option \<Rightarrow> nat \<Rightarrow> pool \<Rightarrow> pool option" where
  "pool_add_task None h p = map_option (\<lambda>q. p\<lparr>master_queue := q\<rparr>) (deque_emplace h (master_queue p))"
| "pool_add_task (Some i) h p =
     map_option (\<lambda>q. p\<lparr>thread_queues := (thread_queues p)[i := q]\<rparr>) (deque_emplace h (thread_queues p ! i))"

fun pool_add_tasks :: "nat option \<Rightarrow> nat list \<Rightarrow> pool \<Rightarrow> pool option" where
  "pool_add_tasks me [] p = Some p"
| "pool_add_tasks me (h # hs) p = (case pool_add_task me h p of None \<Rightarrow> None | Some p' \<Rightarrow> pool_add_tasks me hs p')"

definition pop_own :: "nat \<Rightarrow> pool \<Rightarrow> nat option option \<times> pool" where
  "pop_own index p =
     (let (h, q) = deque_pop (thread_queues p ! index)
      in (h, p\<lparr>thread_queues := (thread_queues p)[index := q]\<rparr>))"

definition steal_from :: "nat \<Rightarrow> nat \<Rightarrow> pool \<Rightarrow> nat option option \<times> pool" where
  "steal_from index victim p =
     (if victim \<noteq> index
      then let (h, q) = deque_steal (thread_queues p ! victim)
           in (h, p\<lparr>thread_queues := (thread_queues p)[victim := q]\<rparr>)
      else let (h, q) = deque_steal (master_queue p) in (h, p\<lparr>master_queue := q\<rparr>))"

text \<open>The stealing loop over the victims that are drawn; it stops at the first task.\<close>

fun steal_attempts :: "nat \<Rightarrow> nat list \<Rightarrow> pool \<Rightarrow> nat option option \<times> pool" where
  "steal_attempts index [] p = (None, p)"
| "steal_attempts index (v # vs) p =
     (case steal_from index v p of
        (Some h, p') \<Rightarrow> (Some h, p')
      | (None, p') \<Rightarrow> steal_attempts index vs p')"

definition draws :: "(nat \<Rightarrow> nat) \<Rightarrow> nat list" where
  "draws dist = map dist [0..<random_steal_attempts]"

definition barrier_round :: "nat \<Rightarrow> (nat \<Rightarrow> u32) \<Rightarrow> (nat \<Rightarrow> bool) \<Rightarrow> pool \<Rightarrow> pool option" where
  "barrier_round index cnt flag p =
     (let (q, ready) = process_and_extract cnt flag (barrier_q p) []
      in pool_add_tasks (Some index) ready (p\<lparr>barrier_q := q\<rparr>))"

text \<open>The result: the task to resume, if any, and the pool.\<close>

definition worker_iteration ::
    "nat \<Rightarrow> (nat \<Rightarrow> nat) \<Rightarrow> (nat \<Rightarrow> u32) \<Rightarrow> (nat \<Rightarrow> bool) \<Rightarrow> pool \<Rightarrow> (nat option option \<times> pool) option" where
  "worker_iteration index dist cnt flag p =
     (case pop_own index p of
        (Some h, p1) \<Rightarrow> Some (Some h, p1)
      | (None, p1) \<Rightarrow>
          (case steal_attempts index (draws dist) p1 of
             (Some h, p2) \<Rightarrow> Some (Some h, p2)
           | (None, p2) \<Rightarrow> map_option (\<lambda>p3. (None, p3)) (barrier_round index cnt flag p2)))"

subsection \<open>Where the tasks are\<close>

definition pool_ok :: "pool \<Rightarrow> bool" where
  "pool_ok p \<longleftrightarrow> (\<forall>q \<in> set (thread_queues p). deque_ok q) \<and> deque_ok (master_queue p)"

definition queue_tasks :: "nat deque \<Rightarrow> nat multiset" where
  "queue_tasks q = mset (deque_items q)"

definition waiting_tasks :: "pool \<Rightarrow> nat multiset" where
  "waiting_tasks p = sum_list (map queue_tasks (thread_queues p)) + queue_tasks (master_queue p) +
     mset (map be_handle (barrier_q p))"

lemma sum_list_update_mset:
  assumes "i < length xs"
  shows "sum_list (map f (xs[i := y])) + f (xs ! i) = sum_list (map f xs) + (f y :: 'b multiset)"
  using assms
proof (induction xs arbitrary: i)
  case (Cons x xs)
  then show ?case by (cases i) (auto simp: add.assoc add.commute add.left_commute)
qed simp

lemma pool_ok_queue: "pool_ok p \<Longrightarrow> i < length (thread_queues p) \<Longrightarrow> deque_ok (thread_queues p ! i)"
  by (simp add: pool_ok_def)

lemma pool_ok_update:
  "pool_ok p \<Longrightarrow> deque_ok q \<Longrightarrow> pool_ok (p\<lparr>thread_queues := (thread_queues p)[i := q]\<rparr>)"
  by (auto simp: pool_ok_def dest!: set_update_subset_insert [THEN subsetD])


text \<open>Where one queue of the pool changes, the tasks of the pool change by the same.\<close>

lemma waiting_thread_queue:
  assumes "i < length (thread_queues p)"
  shows "waiting_tasks (p\<lparr>thread_queues := (thread_queues p)[i := q]\<rparr>) + queue_tasks (thread_queues p ! i) =
    waiting_tasks p + queue_tasks q"
  using sum_list_update_mset [OF assms, of queue_tasks q]
  by (simp add: waiting_tasks_def add.assoc add.left_commute add.commute)

lemma waiting_master_queue:
  "waiting_tasks (p\<lparr>master_queue := q\<rparr>) + queue_tasks (master_queue p) = waiting_tasks p + queue_tasks q"
  by (simp add: waiting_tasks_def add.assoc add.left_commute add.commute)

lemma pool_add_task_adds:
  assumes ok: "pool_ok p" and me: "\<And>i. me = Some i \<Longrightarrow> i < length (thread_queues p)"
  shows "\<exists>p'. pool_add_task me h p = Some p' \<and> pool_ok p' \<and> barrier_q p' = barrier_q p \<and>
    length (thread_queues p') = length (thread_queues p) \<and>
    waiting_tasks p' = add_mset h (waiting_tasks p)"
proof (cases me)
  case None
  obtain q where q: "deque_emplace h (master_queue p) = Some q" "deque_ok q"
      "queue_tasks q = add_mset h (queue_tasks (master_queue p))"
    using dq.push_adds [of "master_queue p" h] ok by (auto simp: pool_ok_def queue_tasks_def)
  then have "waiting_tasks (p\<lparr>master_queue := q\<rparr>) = add_mset h (waiting_tasks p)"
    using waiting_master_queue [of q p] by simp
  then show ?thesis using None q ok by (simp add: pool_ok_def)
next
  case (Some i)
  note i = me [OF Some]
  obtain q where q: "deque_emplace h (thread_queues p ! i) = Some q" "deque_ok q"
      "queue_tasks q = add_mset h (queue_tasks (thread_queues p ! i))"
    using dq.push_adds [OF pool_ok_queue [OF ok i], of h] by (auto simp: queue_tasks_def)
  then have "waiting_tasks (p\<lparr>thread_queues := (thread_queues p)[i := q]\<rparr>) = add_mset h (waiting_tasks p)"
    using waiting_thread_queue [OF i, of q] by simp
  then show ?thesis using Some q pool_ok_update [OF ok q(2)] by simp
qed

lemma add_tasks_adds:
  "pool_ok p \<Longrightarrow> (\<And>i. me = Some i \<Longrightarrow> i < length (thread_queues p)) \<Longrightarrow>
   \<exists>p'. pool_add_tasks me hs p = Some p' \<and> pool_ok p' \<and>
    length (thread_queues p') = length (thread_queues p) \<and> waiting_tasks p' = mset hs + waiting_tasks p"
proof (induction hs arbitrary: p)
  case (Cons h hs)
  obtain p1 where p1: "pool_add_task me h p = Some p1" "pool_ok p1"
      "length (thread_queues p1) = length (thread_queues p)" "waiting_tasks p1 = add_mset h (waiting_tasks p)"
    using pool_add_task_adds [OF Cons.prems] by blast
  moreover have "\<And>i. me = Some i \<Longrightarrow> i < length (thread_queues p1)" using Cons.prems(2) p1(3) by simp
  ultimately show ?case using Cons.IH [OF p1(2)] by fastforce
qed simp

text \<open>
  Taking a task removes it and nothing else; an empty answer changes no task and means that the
  queue is empty. \<open>took r p p'\<close> states this for an answer \<open>r\<close>.
\<close>

definition took :: "nat option option \<Rightarrow> pool \<Rightarrow> pool \<Rightarrow> bool" where
  "took r p p' \<longleftrightarrow> pool_ok p' \<and> length (thread_queues p') = length (thread_queues p) \<and>
     barrier_q p' = barrier_q p \<and>
     (case r of
        None \<Rightarrow> waiting_tasks p' = waiting_tasks p \<and>
          map deque_items (thread_queues p') = map deque_items (thread_queues p) \<and>
          deque_items (master_queue p') = deque_items (master_queue p)
      | Some c \<Rightarrow> \<exists>h. c = Some h \<and> waiting_tasks p = add_mset h (waiting_tasks p'))"

lemma took_thread_queue:
  assumes ok: "pool_ok p" "i < length (thread_queues p)" and q: "deque_ok q"
    and r: "case r of None \<Rightarrow> deque_items (thread_queues p ! i) = [] \<and> deque_items q = []
      | Some c \<Rightarrow> \<exists>x. c = Some x \<and> mset (deque_items (thread_queues p ! i)) = add_mset x (mset (deque_items q))"
  shows "took r p (p\<lparr>thread_queues := (thread_queues p)[i := q]\<rparr>)"
proof (cases r)
  case None
  then have "map deque_items ((thread_queues p)[i := q]) = map deque_items (thread_queues p)"
    using r ok(2) by (intro nth_equalityI) (auto simp: nth_list_update)
  then show ?thesis
    using None r waiting_thread_queue [OF ok(2), of q] pool_ok_update [OF ok(1) q]
    by (simp add: took_def queue_tasks_def)
next
  case (Some c)
  then obtain x where "c = Some x" "queue_tasks (thread_queues p ! i) = add_mset x (queue_tasks q)"
    using r by (auto simp: queue_tasks_def)
  then show ?thesis
    using Some waiting_thread_queue [OF ok(2), of q] pool_ok_update [OF ok(1) q]
    by (simp add: took_def)
qed

lemma took_master_queue:
  assumes ok: "pool_ok p" and q: "deque_ok q"
    and r: "case r of None \<Rightarrow> deque_items (master_queue p) = [] \<and> deque_items q = []
      | Some c \<Rightarrow> \<exists>x. c = Some x \<and> mset (deque_items (master_queue p)) = add_mset x (mset (deque_items q))"
  shows "took r p (p\<lparr>master_queue := q\<rparr>)"
proof (cases r)
  case None
  then show ?thesis using r waiting_master_queue [of q p] ok q
    by (simp add: took_def queue_tasks_def pool_ok_def)
next
  case (Some c)
  then obtain x where "c = Some x" "queue_tasks (master_queue p) = add_mset x (queue_tasks q)"
    using r by (auto simp: queue_tasks_def)
  then show ?thesis using Some waiting_master_queue [of q p] ok q by (simp add: took_def pool_ok_def)
qed

lemma pop_own_took:
  assumes ok: "pool_ok p" "i < length (thread_queues p)" and pop: "pop_own i p = (r, p')"
  shows "took r p p' \<and> (r = None \<longrightarrow> deque_items (thread_queues p ! i) = [])"
proof -
  obtain q where q: "deque_pop (thread_queues p ! i) = (r, q)" "p' = p\<lparr>thread_queues := (thread_queues p)[i := q]\<rparr>"
    using pop by (auto simp: pop_own_def split: prod.splits)
  show ?thesis
    using dq.pop_takes [OF pool_ok_queue [OF ok] q(1)] took_thread_queue [OF ok, of q r] q(2) by auto
qed

text \<open>The items of the queue a victim index stands for.\<close>

definition victim_items :: "nat \<Rightarrow> nat \<Rightarrow> pool \<Rightarrow> nat list" where
  "victim_items index v p = deque_items (if v = index then master_queue p else thread_queues p ! v)"

lemma steal_from_took:
  assumes ok: "pool_ok p" "v < length (thread_queues p)" and st: "steal_from index v p = (r, p')"
  shows "took r p p' \<and> (r = None \<longrightarrow> victim_items index v p = [])"
proof (cases "v = index")
  case True
  then obtain q where q: "deque_steal (master_queue p) = (r, q)" "p' = p\<lparr>master_queue := q\<rparr>"
    using st by (auto simp: steal_from_def split: prod.splits)
  have "deque_ok (master_queue p)" using ok(1) by (simp add: pool_ok_def)
  from dq.steal_takes [OF this q(1)] show ?thesis
    using took_master_queue [OF ok(1), of q r] q(2) True by (auto simp: victim_items_def)
next
  case False
  then obtain q where q: "deque_steal (thread_queues p ! v) = (r, q)"
      "p' = p\<lparr>thread_queues := (thread_queues p)[v := q]\<rparr>"
    using st by (auto simp: steal_from_def split: prod.splits)
  show ?thesis
    using dq.steal_takes [OF pool_ok_queue [OF ok] q(1)] took_thread_queue [OF ok, of q r] q(2) False
    by (auto simp: victim_items_def)
qed

lemma took_trans: "took None p p1 \<Longrightarrow> took r p1 p2 \<Longrightarrow> took r p p2"
  by (auto simp: took_def split: option.splits)

lemma took_None_victim: "took None p p' \<Longrightarrow> v < length (thread_queues p) \<Longrightarrow>
    victim_items index v p' = victim_items index v p"
  by (simp add: took_def victim_items_def) (metis nth_map)

lemma steal_attempts_took:
  "pool_ok p \<Longrightarrow> \<forall>v \<in> set vs. v < length (thread_queues p) \<Longrightarrow> steal_attempts index vs p = (r, p') \<Longrightarrow>
    took r p p' \<and> (r = None \<longrightarrow> (\<forall>v \<in> set vs. victim_items index v p = []))"
proof (induction vs arbitrary: p)
  case Nil
  then show ?case by (simp add: took_def)
next
  case (Cons v vs)
  obtain r1 p1 where s: "steal_from index v p = (r1, p1)" by fastforce
  have t: "took r1 p p1" "r1 = None \<longrightarrow> victim_items index v p = []"
    using steal_from_took [OF Cons.prems(1) _ s] Cons.prems(2) by auto
  show ?case
  proof (cases r1)
    case None
    have len: "length (thread_queues p1) = length (thread_queues p)" "pool_ok p1"
      using t(1) by (auto simp: took_def)
    have "took r p1 p' \<and> (r = None \<longrightarrow> (\<forall>v \<in> set vs. victim_items index v p1 = []))"
      using Cons.IH [OF len(2)] Cons.prems(2,3) s None len(1) by simp
    then show ?thesis
      using t None took_trans [of p p1 r p'] took_None_victim [of p p1 _ index] Cons.prems(2) by simp
  next
    case (Some c)
    then have "r = Some c" "p' = p1" using s Cons.prems(3) by simp_all
    then show ?thesis using t(1) Some by simp
  qed
qed

text \<open>The barrier round moves the tasks that are ready to the worker's own queue.\<close>

lemma barrier_round_keeps:
  assumes ok: "pool_ok p" and i: "index < length (thread_queues p)"
  shows "\<exists>p'. barrier_round index cnt flag p = Some p' \<and> pool_ok p' \<and>
    length (thread_queues p') = length (thread_queues p) \<and> waiting_tasks p' = waiting_tasks p"
proof -
  let ?q = "filter (\<lambda>e. \<not> barrier_is_ready cnt flag e) (barrier_q p)"
  let ?r = "filter (barrier_is_ready cnt flag) (barrier_q p)"
  have e: "process_and_extract cnt flag (barrier_q p) [] = (?q, map be_handle ?r)"
    by (simp add: process_and_extract_def barrier_loop_eq)
  have ok': "pool_ok (p\<lparr>barrier_q := ?q\<rparr>)" using ok by (simp add: pool_ok_def)
  obtain p' where p': "pool_add_tasks (Some index) (map be_handle ?r) (p\<lparr>barrier_q := ?q\<rparr>) = Some p'"
      "pool_ok p'" "length (thread_queues p') = length (thread_queues p)"
      "waiting_tasks p' = mset (map be_handle ?r) + waiting_tasks (p\<lparr>barrier_q := ?q\<rparr>)"
    using add_tasks_adds [OF ok', of "Some index" "map be_handle ?r"] i by auto
  have "mset (map be_handle ?r) + mset (map be_handle ?q) = mset (map be_handle (barrier_q p))"
    by (simp flip: image_mset_union)
  then have "waiting_tasks p' = waiting_tasks p"
    using p'(4) by (simp add: waiting_tasks_def add.assoc add.left_commute add.commute)
  then show ?thesis using p' e by (simp add: barrier_round_def)
qed

definition draws_ok :: "nat \<Rightarrow> (nat \<Rightarrow> nat) \<Rightarrow> bool" where
  "draws_ok n dist \<longleftrightarrow> (\<forall>k. dist k < n)"

lemma draws_bound: "draws_ok n dist \<Longrightarrow> \<forall>v \<in> set (draws dist). v < n"
  by (auto simp: draws_def draws_ok_def)

lemma worker_iteration_correct:
  assumes ok: "pool_ok p" and i: "index < length (thread_queues p)"
    and d: "draws_ok (length (thread_queues p)) dist"
  shows "\<exists>r p'. worker_iteration index dist cnt flag p = Some (r, p') \<and> pool_ok p' \<and>
    length (thread_queues p') = length (thread_queues p) \<and>
    (case r of
       None \<Rightarrow> waiting_tasks p' = waiting_tasks p \<and> deque_items (thread_queues p ! index) = [] \<and>
         (\<forall>v \<in> set (draws dist). victim_items index v p = [])
     | Some c \<Rightarrow> \<exists>h. c = Some h \<and> waiting_tasks p = add_mset h (waiting_tasks p'))"
proof -
  obtain r1 p1 where pop: "pop_own index p = (r1, p1)" by fastforce
  have t1: "took r1 p p1" "r1 = None \<longrightarrow> deque_items (thread_queues p ! index) = []"
    using pop_own_took [OF ok i pop] by auto
  show ?thesis
  proof (cases r1)
    case (Some c)
    then show ?thesis using t1 pop by (auto simp: worker_iteration_def took_def)
  next
    case own: None
    have p1: "pool_ok p1" "length (thread_queues p1) = length (thread_queues p)"
      using t1(1) by (auto simp: took_def)
    obtain r2 p2 where st: "steal_attempts index (draws dist) p1 = (r2, p2)" by fastforce
    have t2: "took r2 p1 p2" "r2 = None \<longrightarrow> (\<forall>v \<in> set (draws dist). victim_items index v p1 = [])"
      using steal_attempts_took [OF p1(1) _ st] draws_bound [OF d] p1(2) by auto
    have t: "took r2 p p2" using took_trans t1(1) t2(1) own by blast
    show ?thesis
    proof (cases r2)
      case (Some c)
      then show ?thesis using own pop st t by (auto simp: worker_iteration_def took_def)
    next
      case None
      have p2: "pool_ok p2" "length (thread_queues p2) = length (thread_queues p)"
          "waiting_tasks p2 = waiting_tasks p"
        using t None by (auto simp: took_def)
      obtain p3 where p3: "barrier_round index cnt flag p2 = Some p3" "pool_ok p3"
          "length (thread_queues p3) = length (thread_queues p)" "waiting_tasks p3 = waiting_tasks p"
        using barrier_round_keeps [OF p2(1), of index cnt flag] p2 i by auto
      have "\<forall>v \<in> set (draws dist). victim_items index v p = []"
        using t2(2) None draws_bound [OF d] took_None_victim [of p p1 _ index] t1(1) own by auto
      then show ?thesis using own None pop st p3 t1(2) by (simp add: worker_iteration_def)
    qed
  qed
qed

subsection \<open>Properties\<close>

text \<open>
  A round of a worker neither loses nor duplicates a task: it returns, and either it hands
  one task to be resumed, which it takes out of the pool with all others left in, or every task
  is still waiting, the ones released by the barrier included.
\<close>

theorem worker_iteration_conserves:
  assumes "pool_ok p" and "index < length (thread_queues p)" and "draws_ok (length (thread_queues p)) dist"
  shows "\<exists>r p'. worker_iteration index dist cnt flag p = Some (r, p') \<and> pool_ok p' \<and>
    (r = None \<and> waiting_tasks p' = waiting_tasks p \<or>
     (\<exists>h. r = Some (Some h) \<and> waiting_tasks p = add_mset h (waiting_tasks p')))"
  using worker_iteration_correct [OF assms, of cnt flag] by (auto split: option.splits)

text \<open>
  A worker goes idle only when there is nothing to run: if its 64 draws hit every index and
  it resumes no task, then all queues of the pool were empty. With one worker this is always so.
\<close>

theorem idle_worker_found_nothing:
  assumes "pool_ok p" and "index < length (thread_queues p)" and "draws_ok (length (thread_queues p)) dist"
    and "set (draws dist) = {..<length (thread_queues p)}"
    and "worker_iteration index dist cnt flag p = Some (None, p')"
  shows "deque_items (master_queue p) = [] \<and>
    list_all (\<lambda>q. deque_items q = []) (thread_queues p)"
proof -
  have e: "deque_items (thread_queues p ! index) = []" "\<forall>v < length (thread_queues p). victim_items index v p = []"
    using worker_iteration_correct [OF assms(1-3), of cnt flag] assms(4,5) by auto
  have "deque_items (master_queue p) = []" using e(2) assms(2) by (force simp: victim_items_def)
  moreover have "deque_items (thread_queues p ! v) = []" if "v < length (thread_queues p)" for v
    using e that by (cases "v = index") (auto simp: victim_items_def)
  ultimately show ?thesis by (auto simp: list_all_length)
qed

definition demo_pool :: pool where
  "demo_pool = the (pool_add_tasks (Some 1) [7, 8] (projr (pool_new 4 2)))"


definition demo_draw :: "nat \<Rightarrow> nat" where
  "demo_draw k = k mod 2"

lemma demo_pool_ok: "pool_ok demo_pool" "length (thread_queues demo_pool) = 2"
  "draws_ok (length (thread_queues demo_pool)) demo_draw"
proof -
  let ?p = "\<lparr>thread_queues = replicate 2 (deque_new 64), master_queue = deque_new 64, barrier_q = []\<rparr> :: pool"
  have e: "pool_new 4 2 = Inr ?p" by (simp add: pool_new_def thread_pool_stack_size_def)
  have "deque_ok (deque_new 64 :: nat deque)" using deque_new_ok [of 6] by simp
  then have "pool_ok ?p" by (simp add: pool_ok_def)
  then obtain p' where "pool_add_tasks (Some 1) [7, 8] ?p = Some p'" "pool_ok p'" "length (thread_queues p') = 2"
    using add_tasks_adds [of ?p "Some 1" "[7, 8]"] by auto
  then show "pool_ok demo_pool" and l: "length (thread_queues demo_pool) = 2"
    using e by (simp_all add: demo_pool_def)
  show "draws_ok (length (thread_queues demo_pool)) demo_draw"
    using l by (simp add: draws_ok_def demo_draw_def)
qed

lemma worker_iteration_conserves_witness:
  "\<exists>p'. worker_iteration 0 demo_draw (\<lambda>c. 0) (\<lambda>c. False) demo_pool = Some (Some (Some 7), p') \<and> pool_ok p' \<and>
     waiting_tasks demo_pool = add_mset 7 (waiting_tasks p')"
proof -
  have "map_option fst (worker_iteration 0 demo_draw (\<lambda>c. 0) (\<lambda>c. False) demo_pool) = Some (Some (Some 7))"
    by code_simp
  then show ?thesis
    using worker_iteration_conserves [OF demo_pool_ok(1) _ demo_pool_ok(3), of 0 "\<lambda>c. 0" "\<lambda>c. False"]
      demo_pool_ok(2) by auto
qed

text \<open>Of the pool with two tasks, worker 1 resumes both in two rounds; in the third it finds nothing.\<close>

definition emptied_pool :: pool where
  "emptied_pool = snd (the (worker_iteration 1 demo_draw (\<lambda>c. 0) (\<lambda>c. False)
     (snd (the (worker_iteration 1 demo_draw (\<lambda>c. 0) (\<lambda>c. False) demo_pool)))))"

lemma emptied_pool_ok: "pool_ok emptied_pool" "length (thread_queues emptied_pool) = 2"
proof -
  define p1 where "p1 = snd (the (worker_iteration 1 demo_draw (\<lambda>c. 0) (\<lambda>c. False) demo_pool))"
  have "pool_ok p1 \<and> length (thread_queues p1) = 2"
    using worker_iteration_correct [OF demo_pool_ok(1) _ demo_pool_ok(3), of 1 "\<lambda>c. 0" "\<lambda>c. False"]
      demo_pool_ok(2) by (auto simp: p1_def)
  moreover have e: "emptied_pool = snd (the (worker_iteration 1 demo_draw (\<lambda>c. 0) (\<lambda>c. False) p1))"
    by (simp only: emptied_pool_def p1_def)
  ultimately show "pool_ok emptied_pool" "length (thread_queues emptied_pool) = 2"
    using worker_iteration_correct [of p1 1 demo_draw "\<lambda>c. 0" "\<lambda>c. False"]
    by (auto simp: e draws_ok_def demo_draw_def)
qed

lemma idle_worker_found_nothing_witness:
  "deque_items (master_queue emptied_pool) = [] \<and> list_all (\<lambda>q. deque_items q = []) (thread_queues emptied_pool)"
proof -
  have d: "draws_ok (length (thread_queues emptied_pool)) demo_draw"
    by (simp add: emptied_pool_ok draws_ok_def demo_draw_def)
  have s: "set (draws demo_draw) = {..<length (thread_queues emptied_pool)}"
  proof -
    have "draws demo_draw = concat (replicate 32 [0, 1])" by code_simp
    then show ?thesis by (auto simp: emptied_pool_ok)
  qed
  have "map_option fst (worker_iteration 0 demo_draw (\<lambda>c. 0) (\<lambda>c. False) emptied_pool) = Some None"
    by code_simp
  then obtain p' where p': "worker_iteration 0 demo_draw (\<lambda>c. 0) (\<lambda>c. False) emptied_pool = Some (None, p')"
    by auto
  show ?thesis
    by (rule idle_worker_found_nothing [OF emptied_pool_ok(1) _ d s p']) (simp add: emptied_pool_ok(2))
qed

end
