(* ===== verification/Dispatch.thy ===== *)
theory Dispatch
  imports Resource_Node Wait_Counter Thread_Pool
begin

section \<open>Dispatching a task on several resources (dispatchTask.hpp, Task.hpp)\<close>

text \<open>
  \<open>dispatch_task\<close> and the destructor of the task's promise, over all resource queues of the
  program at once, as they run without interference. The queues are those of \<open>Resource_Node\<close>,
  by number; the wait counters and the pool are shared by all of them. The interleaved
  behaviour of the counter is in \<open>Wait_Counter\<close>.
\<close>

record system =
  nodes :: "nat \<Rightarrow> resource_node"
  wait_counters :: "nat \<Rightarrow> u32"
  pool_added :: "nat list"

definition world_at :: "nat \<Rightarrow> system \<Rightarrow> world" where
  "world_at r s = \<lparr>node = nodes s r, counters = wait_counters s, added = pool_added s\<rparr>"

text \<open>An operation of one queue, run in the whole system.\<close>

definition at_node :: "nat \<Rightarrow> (world \<Rightarrow> node_error + world) \<Rightarrow> system \<Rightarrow> node_error + system" where
  "at_node r f s =
     (case f (world_at r s) of
        Inl e \<Rightarrow> Inl e
      | Inr w \<Rightarrow> Inr \<lparr>nodes = (nodes s)(r := node w), wait_counters = counters w, pool_added = added w\<rparr>)"

subsection \<open>\<open>dispatch_task\<close>\<close>

text \<open>The arguments that are resource accesses, in order: the queue and the access mode.\<close>

type_synonym accesses = "(nat \<times> access_mode) list"

text \<open>One queue: \<open>dispatch_task\<close> registers the task, and the promise removes it.\<close>

definition register_at :: "nat \<Rightarrow> nat \<Rightarrow> nat \<times> access_mode \<Rightarrow> system \<Rightarrow> node_error + system" where
  "register_at h p a s = (case a of (r, m) \<Rightarrow> at_node r (Resource_Node.add_task (make_access h m p)) s)"

definition remove_from :: "nat \<Rightarrow> nat \<Rightarrow> system \<Rightarrow> node_error + system" where
  "remove_from h r s = at_node r (remove_task h) s"

fun register_all :: "nat \<Rightarrow> nat \<Rightarrow> accesses \<Rightarrow> system \<Rightarrow> node_error + system" where
  "register_all h p [] s = Inr s"
| "register_all h p (a # as) s =
     (case register_at h p a s of
        Inl e \<Rightarrow> Inl e
      | Inr s' \<Rightarrow> register_all h p as s')"

text \<open>
  \<open>process_handle\<close> counts the resources in 16 bits. The counter of the task starts at
  \<open>INVALID_WAIT_STATE\<close>; the dispatcher adds the number of resources before it registers the task,
  and subtracts \<open>INVALID_WAIT_STATE\<close> when it is done: it has to run the task if that was left. The
  result of \<open>dispatch_task\<close> is whether it has, the queues stored in the promise, and the system.
\<close>

definition resource_counter :: "accesses \<Rightarrow> u16" where
  "resource_counter as = fold (\<lambda>_ c. c + 1) as 0"

definition start_dispatch :: "nat \<Rightarrow> accesses \<Rightarrow> system \<Rightarrow> system" where
  "start_dispatch p as s =
     (let s1 = s\<lparr>wait_counters := (wait_counters s)(p := INVALID_WAIT_STATE)\<rparr>
      in s1\<lparr>wait_counters := (wait_counters s1)(p :=
             snd (fetch_add (wait_counters s1 p) (ucast (resource_counter as))))\<rparr>)"

definition end_dispatch :: "nat \<Rightarrow> system \<Rightarrow> bool \<times> system" where
  "end_dispatch p s =
     (let (wc, new) = fetch_sub (wait_counters s p) INVALID_WAIT_STATE
      in (wc = INVALID_WAIT_STATE, s\<lparr>wait_counters := (wait_counters s)(p := new)\<rparr>))"

definition dispatch_task :: "nat \<Rightarrow> nat \<Rightarrow> accesses \<Rightarrow> system \<Rightarrow> node_error + bool \<times> nat list \<times> system" where
  "dispatch_task h p as s =
     (case register_all h p as (start_dispatch p as s) of
        Inl e \<Rightarrow> Inl e
      | Inr s3 \<Rightarrow> let (ready, s4) = end_dispatch p s3 in Inr (ready, map fst as, s4))"

lemmas dispatch_defs = dispatch_task_def start_dispatch_def end_dispatch_def register_at_def

text \<open>\<open>~promise_type\<close>: the task is removed from every queue in its promise.\<close>

fun promise_destroy :: "nat \<Rightarrow> nat list \<Rightarrow> system \<Rightarrow> node_error + system" where
  "promise_destroy h [] s = Inr s"
| "promise_destroy h (r # rs) s =
     (case remove_from h r s of Inl e \<Rightarrow> Inl e | Inr s' \<Rightarrow> promise_destroy h rs s')"

text \<open>
  What \<open>co_await dispatch_task(...)\<close> does next (\<open>DispatchAwaiter\<close> with \<open>Synchronous = false\<close>):
  if the resources are ready, the continuation goes to the pool and the child runs in its
  place; otherwise the continuation runs on.
\<close>

datatype next_coroutine = Resume nat

definition async_await :: "nat option \<Rightarrow> bool \<Rightarrow> nat \<Rightarrow> nat \<Rightarrow> pool \<Rightarrow> (next_coroutine \<times> pool) option" where
  "async_await me ready child continuation p =
     (if \<not> ready then Some (Resume continuation, p)
      else map_option (\<lambda>p'. (Resume child, p')) (pool_add_task me continuation p))"

subsection \<open>Queues of the system\<close>

definition node_queues :: "system \<Rightarrow> nat \<Rightarrow> queues" where
  "node_queues s r = queues_of (world_at r s)"

definition system_ok :: "system \<Rightarrow> bool" where
  "system_ok s \<longleftrightarrow> (\<forall>r. node_ok (world_at r s))"

text \<open>Without the condition on removed entries, which ends out of order do not keep.\<close>

definition system_shape :: "system \<Rightarrow> bool" where
  "system_shape s \<longleftrightarrow> (\<forall>r. node_shape (world_at r s))"

lemma system_ok_shape: "system_ok s \<Longrightarrow> system_shape s"
  by (simp add: system_ok_def system_shape_def node_ok_shape)

lemma node_ok_cong: "node w = node w' \<Longrightarrow> node_ok w = node_ok w'"
  by (simp add: node_ok_def)

lemma node_shape_cong: "node w = node w' \<Longrightarrow> node_shape w = node_shape w'"
  by (simp add: node_shape_def)

lemma queues_of_cong: "node w = node w' \<Longrightarrow> queues_of w = queues_of w'"
  by (simp add: queues_of_def)

lemma world_at_simps [simp]:
  "node (world_at r s) = nodes s r" "counters (world_at r s) = wait_counters s"
  "added (world_at r s) = pool_added s"
  by (simp_all add: world_at_def)

text \<open>One operation on one queue.\<close>

lemma at_node_effect:
  assumes "f (world_at r s) = Inr w'"
  shows "\<exists>s'. at_node r f s = Inr s' \<and> node_queues s' = (node_queues s)(r := queues_of w') \<and>
    wait_counters s' = counters w' \<and> pool_added s' = added w' \<and> nodes s' = (nodes s)(r := node w') \<and>
    (system_shape s \<longrightarrow> node_shape w' \<longrightarrow> system_shape s') \<and> (system_ok s \<longrightarrow> node_ok w' \<longrightarrow> system_ok s')"
proof -
  let ?s' = "\<lparr>nodes = (nodes s)(r := node w'), wait_counters = counters w', pool_added = added w'\<rparr>"
  have r: "node (world_at r ?s') = node w'" and q: "q \<noteq> r \<Longrightarrow> node (world_at q ?s') = node (world_at q s)" for q
    by simp_all
  have "node_queues ?s' = (node_queues s)(r := queues_of w')"
    by (rule ext) (simp add: node_queues_def queues_of_cong [OF r] queues_of_cong [OF q])
  moreover have "node_shape (world_at q ?s') = (if q = r then node_shape w' else node_shape (world_at q s))"
    "node_ok (world_at q ?s') = (if q = r then node_ok w' else node_ok (world_at q s))" for q
    using node_shape_cong [OF r] node_shape_cong [OF q] node_ok_cong [OF r] node_ok_cong [OF q] by simp_all
  ultimately show ?thesis
    using assms by (intro exI [of _ ?s']) (simp add: at_node_def system_shape_def system_ok_def)
qed

text \<open>Registration at one queue.\<close>

lemma register_one:
  assumes ok: "system_shape s" and room: "rn_last (nodes s r) < node_capacity" and p: "p \<noteq> 0"
    and t: "t = make_access h m p"
  shows "\<exists>s'. at_node r (Resource_Node.add_task t) s = Inr s' \<and> system_shape s' \<and> (system_ok s \<longrightarrow> system_ok s') \<and>
    node_queues s' = (node_queues s)(r := spec_add t (node_queues s r)) \<and>
    wait_counters s' = (if starts_now t (node_queues s r)
       then (wait_counters s)(p := wait_counters s p - 1) else wait_counters s) \<and>
    pool_added s' = pool_added s \<and> (\<forall>q. q \<noteq> r \<longrightarrow> nodes s' q = nodes s q) \<and>
    rn_last (nodes s' r) = Suc (rn_last (nodes s r))"
proof -
  let ?w = "world_at r s"
  have w: "node_shape ?w" "rn_last (node ?w) < node_capacity" "ta_wait t \<noteq> 0" "\<not> ta_removed t" "ta_wait t = p"
    using ok room p by (simp_all add: system_shape_def t make_access_def)
  obtain w' where w': "Resource_Node.add_task t ?w = Inr w'" using add_task_eq [OF w(2,3,1)] by auto
  have eff: "counters w' = (if starts_now t (queues_of ?w) then (counters ?w)(p := counters ?w p - 1) else counters ?w)"
    "added w' = added ?w" "rn_last (node w') = Suc (rn_last (node ?w))"
    using add_task_eq [OF w(2,3,1)] w' w(5) by (auto split: if_splits)
  have "node_ok ?w \<Longrightarrow> node_ok w'" by (rule add_task_ok [OF w(2-4) _ w'])
  then show ?thesis
    using at_node_effect [of "Resource_Node.add_task t" r s, OF w'] ok add_task_shape [OF w(2-4,1) w']
      add_task_queues [OF w(2,3,1) w'] eff
    by (auto simp: node_queues_def system_ok_def)
qed

text \<open>Registration at several queues, each at most once.\<close>

definition ready_accesses :: "nat \<Rightarrow> nat \<Rightarrow> system \<Rightarrow> accesses \<Rightarrow> accesses" where
  "ready_accesses h p s as = filter (\<lambda>(r, m). starts_now (make_access h m p) (node_queues s r)) as"

definition with_access :: "nat \<Rightarrow> nat \<Rightarrow> accesses \<Rightarrow> (nat \<Rightarrow> queues) \<Rightarrow> nat \<Rightarrow> queues" where
  "with_access h p as qs r =
     (case map_of as r of None \<Rightarrow> qs r | Some m \<Rightarrow> spec_add (make_access h m p) (qs r))"

lemma register_all_distinct:
  "system_ok s \<Longrightarrow> p \<noteq> 0 \<Longrightarrow> distinct (map fst as) \<Longrightarrow>
   \<forall>r \<in> set (map fst as). rn_last (nodes s r) < node_capacity \<Longrightarrow>
   \<exists>s'. register_all h p as s = Inr s' \<and> system_ok s' \<and> pool_added s' = pool_added s \<and>
     node_queues s' = with_access h p as (node_queues s) \<and>
     wait_counters s' = (wait_counters s)(p := wait_counters s p - of_nat (length (ready_accesses h p s as))) \<and>
     (\<forall>r. rn_last (nodes s' r) = rn_last (nodes s r) + (if r \<in> set (map fst as) then 1 else 0))"
proof (induction as arbitrary: s)
  case Nil
  then show ?case by (simp add: with_access_def ready_accesses_def)
next
  case (Cons a as)
  obtain r m where a: "a = (r, m)" by fastforce
  let ?t = "make_access h m p"
  obtain s1 where s1: "at_node r (Resource_Node.add_task ?t) s = Inr s1" "system_ok s1"
      "node_queues s1 = (node_queues s)(r := spec_add ?t (node_queues s r))"
      "wait_counters s1 = (if starts_now ?t (node_queues s r)
         then (wait_counters s)(p := wait_counters s p - 1) else wait_counters s)"
      "pool_added s1 = pool_added s" "\<And>q. q \<noteq> r \<Longrightarrow> nodes s1 q = nodes s q"
      "rn_last (nodes s1 r) = Suc (rn_last (nodes s r))"
    using register_one [OF system_ok_shape [OF Cons.prems(1)] _ Cons.prems(2) refl, of r h m] Cons.prems a by auto
  have r: "r \<notin> set (map fst as)" using Cons.prems(3) a by simp
  have d: "distinct (map fst as)" using Cons.prems(3) a by simp
  have rm: "\<forall>q \<in> set (map fst as). rn_last (nodes s1 q) < node_capacity"
    using Cons.prems(4) s1(6) r by (metis list.set_intros(2) list.simps(9))
  then obtain s' where s': "register_all h p as s1 = Inr s'" "system_ok s'" "pool_added s' = pool_added s1"
      "node_queues s' = with_access h p as (node_queues s1)"
      "wait_counters s' = (wait_counters s1)(p := wait_counters s1 p - of_nat (length (ready_accesses h p s1 as)))"
      "\<forall>q. rn_last (nodes s' q) = rn_last (nodes s1 q) + (if q \<in> set (map fst as) then 1 else 0)"
    using Cons.IH [OF s1(2) Cons.prems(2) d rm] by blast
  have same: "ready_accesses h p s1 as = ready_accesses h p s as"
    unfolding ready_accesses_def using r s1(3) by (intro filter_cong) (auto simp: image_iff)
  have "with_access h p as (node_queues s1) = with_access h p ((r, m) # as) (node_queues s)"
    using r s1(3) by (auto simp: with_access_def fun_eq_iff map_of_eq_None_iff split: option.splits)
      (metis image_eqI fst_conv map_of_SomeD)+
  moreover have "wait_counters s' = (wait_counters s)(p := wait_counters s p -
      of_nat (length (ready_accesses h p s ((r, m) # as))))"
    using s'(5) s1(4) same by (auto simp: ready_accesses_def fun_eq_iff)
  moreover have "register_all h p (a # as) s = Inr s'" using s1(1) s'(1) a by (simp add: register_at_def)
  moreover have "pool_added s' = pool_added s" using s'(3) s1(5) by simp
  moreover have "rn_last (nodes s' q) = rn_last (nodes s q) + (if q \<in> set (map fst (a # as)) then 1 else 0)" for q
    using s'(6) s1(6) [of q] s1(7) r by (cases "q = r") (simp_all add: a)
  ultimately show ?case unfolding a using s'(2,4) by metis
qed


lemma resource_counter_eq: "resource_counter as = of_nat (length as)"
proof -
  have "fold (\<lambda>_ c. c + 1) as c = c + (of_nat (length as) :: u16)" for c
    by (induction as arbitrary: c) (simp_all add: algebra_simps)
  then show ?thesis by (simp add: resource_counter_def)
qed

lemma counter_32: "n < 2 ^ 16 \<Longrightarrow> ucast (of_nat n :: u16) = (of_nat n :: u32)"
  by (simp add: unsigned_of_nat take_bit_nat_eq_self)

lemma node_queues_counters [simp]:
  "node_queues (s\<lparr>wait_counters := c\<rparr>) = node_queues s" "system_ok (s\<lparr>wait_counters := c\<rparr>) = system_ok s"
  "system_shape (s\<lparr>wait_counters := c\<rparr>) = system_shape s" "ready_accesses h p (s\<lparr>wait_counters := c\<rparr>) = ready_accesses h p s"
proof -
  have "queues_of (world_at r (s\<lparr>wait_counters := c\<rparr>)) = queues_of (world_at r s)"
    "node_ok (world_at r (s\<lparr>wait_counters := c\<rparr>)) = node_ok (world_at r s)"
    "node_shape (world_at r (s\<lparr>wait_counters := c\<rparr>)) = node_shape (world_at r s)" for r
    by (rule queues_of_cong node_ok_cong node_shape_cong; simp)+
  then show "node_queues (s\<lparr>wait_counters := c\<rparr>) = node_queues s"
    "system_ok (s\<lparr>wait_counters := c\<rparr>) = system_ok s" "system_shape (s\<lparr>wait_counters := c\<rparr>) = system_shape s"
    by (simp_all add: node_queues_def fun_eq_iff system_ok_def system_shape_def)
  then show "ready_accesses h p (s\<lparr>wait_counters := c\<rparr>) = ready_accesses h p s"
    by (simp add: ready_accesses_def fun_eq_iff)
qed

lemma length_ready: "length (ready_accesses h p s as) \<le> length as"
  by (simp add: ready_accesses_def)

lemma dispatch_task_eq:
  assumes reg: "register_all h p as (s\<lparr>wait_counters := (wait_counters s)(p := of_nat (2 ^ 31 + length as))\<rparr>) = Inr s3"
    and c: "wait_counters s3 p = of_nat (2 ^ 31 + length as) - of_nat k"
    and k: "k \<le> length as" and n: "length as < 2 ^ 16"
  shows "dispatch_task h p as s = Inr (k = length as, map fst as,
    s3\<lparr>wait_counters := (wait_counters s3)(p := of_nat (length as - k))\<rparr>)"
proof -
  have "(of_nat (2 ^ 31 + length as) :: u32) - of_nat k = of_nat (2 ^ 31 + (length as - k))"
    using k by (simp add: of_nat_diff)
  moreover from this have "(wait_counters s3 p = INVALID_WAIT_STATE) = (2 ^ 31 + (length as - k) = 2 ^ 31)"
    unfolding c invalid_eq by (simp only:) (rule of_nat_u32_eq, use n in auto)
  moreover have "wait_counters s3 p - INVALID_WAIT_STATE = of_nat (length as - k)"
    unfolding c calculation(1) invalid_eq by simp
  moreover have "INVALID_WAIT_STATE + ucast (resource_counter as) = (of_nat (2 ^ 31 + length as) :: u32)"
    using counter_32 [OF n] by (simp add: resource_counter_eq invalid_eq)
  ultimately show ?thesis
    using reg k by (auto simp: dispatch_defs Let_def fetch_add_def fetch_sub_def)
qed

text \<open>The end of a task that is the oldest running one in each of its queues.\<close>

definition oldest_in :: "nat \<Rightarrow> system \<Rightarrow> nat \<Rightarrow> bool" where
  "oldest_in h s r \<longleftrightarrow> fst (node_queues s r) \<noteq> [] \<and> ta_handle (hd (fst (node_queues s r))) = h \<and>
     rn_first (nodes s r) + 1 < node_capacity"

text \<open>The notifications of a list of entries, in order: the counters and the pool after them.\<close>

definition notify :: "task_access list \<Rightarrow> system \<Rightarrow> (nat \<Rightarrow> u32) \<times> nat list" where
  "notify ts s = (let w = fold signal ts (world_at 0 s) in (counters w, added w))"

lemma signal_effect:
  "counters (signal t w) = (counters w)(ta_wait t := counters w (ta_wait t) - 1)"
  "added (signal t w) = added w @ (if counters w (ta_wait t) = 1 then [ta_handle t] else [])"
  by (simp_all add: signal_def Let_def)

lemma fold_signal_effect:
  "counters w = counters w' \<Longrightarrow> added w = added w' \<Longrightarrow>
   counters (fold signal ts w) = counters (fold signal ts w') \<and>
   added (fold signal ts w) = added (fold signal ts w')"
proof (induction ts arbitrary: w w')
  case (Cons t ts)
  have "counters (signal t w) = counters (signal t w')" "added (signal t w) = added (signal t w')"
    unfolding signal_effect Cons.prems by (rule refl)+
  from Cons.IH [OF this] show ?case by simp
qed simp

lemma fold_signal_set_first: "fold signal ts (set_first f w) = set_first f (fold signal ts w)"
proof (induction ts arbitrary: w)
  case (Cons t ts)
  have "signal t (set_first f w) = set_first f (signal t w)"
    by (simp add: signal_def set_first_def Let_def)
  then show ?case using Cons by simp
qed simp

lemma deregister_head:
  assumes ok: "system_shape s" and h: "oldest_in h s r"
  shows "\<exists>s'. at_node r (remove_task h) s = Inr s' \<and> system_shape s' \<and> (system_ok s \<longrightarrow> system_ok s') \<and>
    node_queues s' = (node_queues s)(r := spec_retire (node_queues s r)) \<and>
    (wait_counters s', pool_added s') = notify (spec_admitted (node_queues s r)) s \<and>
    (\<forall>q. q \<noteq> r \<longrightarrow> nodes s' q = nodes s q) \<and> rn_last (nodes s' r) = rn_last (nodes s r)"
proof -
  let ?w = "world_at r s"
  have q: "fst (queues_of ?w) = slice (rn_first (nodes s r)) (rn_fnr (nodes s r)) (rn_tasks (nodes s r))"
    by (simp add: queues_of_def)
  have w: "node_shape ?w" "rn_first (node ?w) < rn_fnr (node ?w)" "rn_first (node ?w) + 1 < node_capacity"
    using ok h q by (simp_all add: system_shape_def oldest_in_def node_queues_def)
  moreover have "ta_handle (task_at (rn_first (node ?w)) ?w) = h"
  proof -
    have "ta_handle (hd (fst (queues_of ?w))) = h" using h by (simp add: oldest_in_def node_queues_def)
    then show ?thesis using w(2) by (simp add: q hd_slice task_at_def)
  qed
  ultimately have eq: "remove_task h ?w = Inr (set_fnr (rn_fnr (node ?w) + length (admitted ?w))
      (fold signal (admitted ?w) (set_first (rn_first (node ?w) + 1) ?w)))" (is "_ = Inr ?w'")
    by (rule remove_first_eq)
  have adm: "admitted ?w = spec_admitted (node_queues s r)"
    using admitted_spec [OF w(1,2)] by (simp add: node_queues_def)
  have "(counters ?w', added ?w') = notify (spec_admitted (node_queues s r)) s"
    using fold_signal_effect [of ?w "world_at 0 s" "admitted ?w"] adm
    by (simp add: notify_def fold_signal_set_first Let_def)
  moreover have "rn_last (node ?w') = rn_last (nodes s r)" by (simp add: set_fnr_def set_first_def)
  moreover have "node_ok ?w \<Longrightarrow> node_ok ?w'" by (rule remove_first_ok [OF _ w(2) refl])
  ultimately show ?thesis
    using at_node_effect [of "remove_task h" r s, OF eq] ok remove_first_shape [OF w(1,2) refl]
      remove_first_queues [OF w(1,2) refl]
    by (auto simp: node_queues_def system_ok_def)
qed

lemma deregister_one:
  assumes "system_ok s" and "oldest_in h s r"
  shows "\<exists>s'. at_node r (remove_task h) s = Inr s' \<and> system_ok s' \<and>
    node_queues s' = (node_queues s)(r := spec_retire (node_queues s r)) \<and>
    (wait_counters s', pool_added s') = notify (spec_admitted (node_queues s r)) s \<and>
    (\<forall>q. q \<noteq> r \<longrightarrow> nodes s' q = nodes s q) \<and> rn_last (nodes s' r) = rn_last (nodes s r)"
  using deregister_head [OF system_ok_shape [OF assms(1)] assms(2)] assms(1) by blast

text \<open>
  The end of any task that runs there: it is the oldest one, or an entry with its handle behind the
  oldest one is marked and nothing else happens.
\<close>

lemma deregister_any:
  assumes ok: "system_shape s" and h: "h \<in> ta_handle ` set (fst (node_queues s r))"
    and run: "at_node r (remove_task h) s = Inr s'"
  shows "oldest_in h s r \<or> system_shape s' \<and> wait_counters s' = wait_counters s \<and> pool_added s' = pool_added s \<and>
    (\<forall>q. q \<noteq> r \<longrightarrow> nodes s' q = nodes s q) \<and> rn_last (nodes s' r) = rn_last (nodes s r) \<and>
    (\<exists>j e. ta_handle e = h \<and> j < length (fst (node_queues s r)) \<and> ta_handle (fst (node_queues s r) ! j) = h \<and>
       node_queues s' = (node_queues s)(r := ((fst (node_queues s r))[j := e], snd (node_queues s r))))"
proof -
  let ?w = "world_at r s" and ?n = "nodes s r"
  have q: "fst (node_queues s r) = slice (rn_first ?n) (rn_fnr ?n) (rn_tasks ?n)"
    by (simp add: node_queues_def queues_of_def)
  have w: "node_shape ?w" using ok by (simp add: system_shape_def)
  then have le: "rn_fnr ?n \<le> node_capacity" by (simp add: node_shape_def Let_def)
  obtain k where k: "rn_first ?n \<le> k" "k < rn_fnr ?n" "ta_handle (task_at k ?w) = h"
    using h by (auto simp: q set_slice task_at_def)
  then have lt: "rn_first ?n < rn_fnr ?n" by simp
  show ?thesis
  proof (cases "ta_handle (task_at (rn_first ?n) ?w) = h")
    case True
    obtain w' where "remove_task h ?w = Inr w'" using run by (auto simp: at_node_def split: sum.splits)
    then have "rn_first ?n + 1 < node_capacity"
      using remove_needs_room [of h ?w w'] True by simp
    then show ?thesis using True lt by (simp add: oldest_in_def q hd_slice task_at_def)
  next
    case False
    then have "rn_first ?n \<noteq> k" using k(3) by blast
    then have "rn_first (node ?w) < k" "k < rn_fnr (node ?w)" "rn_fnr (node ?w) \<le> node_capacity"
      "ta_handle (task_at k ?w) \<noteq> ta_handle (task_at (rn_first (node ?w)) ?w)"
      using k le False by simp_all
    from remove_behind_first [OF this] k(3) obtain j where
      j: "rn_first ?n < j" "j < rn_fnr ?n" "ta_handle (task_at j ?w) = h" and r: "remove_task h ?w = Inr (mark_removed j ?w)"
      by auto
    let ?e = "(task_at j ?w)\<lparr>ta_removed := True\<rparr>" and ?i = "j - rn_first ?n"
    have "queues_of (mark_removed j ?w) = ((fst (node_queues s r))[?i := ?e], snd (node_queues s r))"
      using mark_removed_queues [OF w, of j] j by (simp add: node_queues_def)
    moreover have "ta_handle ?e = h" "?i < length (fst (node_queues s r))" "ta_handle (fst (node_queues s r) ! ?i) = h"
      using j by (simp_all add: q task_at_def)
    moreover have "node_shape (mark_removed j ?w)" by (rule mark_removed_shape [OF w]) (use j in simp)
    ultimately show ?thesis
      using at_node_effect [of "remove_task h" r s, OF r] run ok
      by (intro disjI2 conjI exI [of _ ?i] exI [of _ ?e]) auto
  qed
qed

lemma notify_append: "(wait_counters s1, pool_added s1) = notify ts s \<Longrightarrow> notify us s1 = notify (ts @ us) s"
  using fold_signal_effect [of "world_at 0 s1" "fold signal ts (world_at 0 s)" us]
  by (simp add: notify_def Let_def)

lemma promise_destroy_distinct:
  "system_ok s \<Longrightarrow> distinct rs \<Longrightarrow> list_all (oldest_in h s) rs \<Longrightarrow>
   \<exists>s'. promise_destroy h rs s = Inr s' \<and> system_ok s' \<and>
     node_queues s' = (\<lambda>r. if r \<in> set rs then spec_retire (node_queues s r) else node_queues s r) \<and>
     (wait_counters s', pool_added s') = notify (concat (map (\<lambda>r. spec_admitted (node_queues s r)) rs)) s \<and>
     (\<forall>q. rn_last (nodes s' q) = rn_last (nodes s q))"
proof (induction rs arbitrary: s)
  case Nil
  then show ?case by (simp add: notify_def)
next
  case (Cons r rs)
  obtain s1 where s1: "at_node r (remove_task h) s = Inr s1" "system_ok s1"
      "node_queues s1 = (node_queues s)(r := spec_retire (node_queues s r))"
      "(wait_counters s1, pool_added s1) = notify (spec_admitted (node_queues s r)) s"
      "\<And>q. q \<noteq> r \<Longrightarrow> nodes s1 q = nodes s q" "rn_last (nodes s1 r) = rn_last (nodes s r)"
    using deregister_one [OF Cons.prems(1), of h r] Cons.prems(3) by auto
  have r: "r \<notin> set rs" and d: "distinct rs" using Cons.prems(2) by auto
  have "oldest_in h s1 q" if "q \<in> set rs" for q
  proof -
    have "q \<noteq> r" using that r by auto
    then show ?thesis using Cons.prems(3) that s1(3,5) by (simp add: oldest_in_def list_all_iff)
  qed
  then have "list_all (oldest_in h s1) rs" by (simp add: list_all_iff)
  then obtain s' where s': "promise_destroy h rs s1 = Inr s'" "system_ok s'"
      "node_queues s' = (\<lambda>r. if r \<in> set rs then spec_retire (node_queues s1 r) else node_queues s1 r)"
      "(wait_counters s', pool_added s') = notify (concat (map (\<lambda>r. spec_admitted (node_queues s1 r)) rs)) s1"
      "\<forall>q. rn_last (nodes s' q) = rn_last (nodes s1 q)"
    using Cons.IH [OF s1(2) d] by blast
  have same: "map (\<lambda>r. spec_admitted (node_queues s1 r)) rs = map (\<lambda>r. spec_admitted (node_queues s r)) rs"
    using r s1(3) by auto
  have "node_queues s' = (\<lambda>q. if q \<in> set (r # rs) then spec_retire (node_queues s q) else node_queues s q)"
    using s'(3) s1(3) r by (auto simp: fun_eq_iff)
  moreover have "(wait_counters s', pool_added s') =
      notify (concat (map (\<lambda>r. spec_admitted (node_queues s r)) (r # rs))) s"
    using s'(4) notify_append [OF s1(4)] same by simp
  moreover have "promise_destroy h (r # rs) s = Inr s'" using s1(1) s'(1) by (simp add: remove_from_def)
  moreover have "rn_last (nodes s' q) = rn_last (nodes s q)" for q
    using s'(5) s1(5) [of q] s1(6) by (cases "q = r") simp_all
  ultimately show ?case using s'(2) by blast
qed

lemma dispatch_correct:
  assumes "system_ok s" and "p \<noteq> 0" and "distinct (map fst as)" and "length as < 2 ^ 16"
    and "list_all (\<lambda>r. rn_last (nodes s r) < node_capacity) (map fst as)"
  shows "\<exists>s'. dispatch_task h p as s =
      Inr (list_all (\<lambda>(r, m). starts_now (make_access h m p) (node_queues s r)) as, map fst as, s') \<and>
    system_ok s' \<and> pool_added s' = pool_added s \<and>
    node_queues s' = with_access h p as (node_queues s) \<and>
    wait_counters s' = (wait_counters s)(p := of_nat (length as - length (ready_accesses h p s as))) \<and>
    (\<forall>r. rn_last (nodes s' r) = rn_last (nodes s r) + (if r \<in> set (map fst as) then 1 else 0))"
proof -
  let ?n = "length as" and ?k = "length (ready_accesses h p s as)"
  let ?s2 = "s\<lparr>wait_counters := (wait_counters s)(p := of_nat (2 ^ 31 + ?n))\<rparr>"
  have "\<forall>r \<in> set (map fst as). rn_last (nodes ?s2 r) < node_capacity"
    using assms(5) by (auto simp: list_all_iff)
  then obtain s3 where s3: "register_all h p as ?s2 = Inr s3" "system_ok s3" "pool_added s3 = pool_added s"
      "node_queues s3 = with_access h p as (node_queues s)"
      "wait_counters s3 = (wait_counters ?s2)(p := wait_counters ?s2 p - of_nat ?k)"
      "\<forall>r. rn_last (nodes s3 r) = rn_last (nodes s r) + (if r \<in> set (map fst as) then 1 else 0)"
    using register_all_distinct [of ?s2 p as h] assms(1-3) by auto
  have d: "dispatch_task h p as s = Inr (?k = ?n, map fst as,
      s3\<lparr>wait_counters := (wait_counters s3)(p := of_nat (?n - ?k))\<rparr>)"
    by (rule dispatch_task_eq [OF s3(1) _ length_ready assms(4)]) (simp add: s3(5))
  have "(?k = ?n) = list_all (\<lambda>(r, m). starts_now (make_access h m p) (node_queues s r)) as"
    unfolding ready_accesses_def list_all_iff
    by (metis (no_types, lifting) filter_True filter_id_conv length_filter_less less_irrefl)
  then show ?thesis using d s3 by (simp add: fun_eq_iff)
qed

subsection \<open>Properties\<close>

text \<open>
  C26. Dispatching a task on distinct resources with room: it is entered in the queue of each
  of them and in no other; the dispatcher is told to run it exactly when every queue admits it
  at once, and otherwise the wait counter ends as the number of queues that do not. No task
  is passed to the pool.
\<close>

theorem dispatch_registers_everywhere:
  assumes "system_ok s" and "p \<noteq> 0" and "distinct (map fst as)" and "length as < 2 ^ 16"
    and "list_all (\<lambda>r. rn_last (nodes s r) < node_capacity) (map fst as)"
  shows "\<exists>s'. dispatch_task h p as s =
      Inr (list_all (\<lambda>(r, m). starts_now (make_access h m p) (node_queues s r)) as, map fst as, s') \<and>
    system_ok s' \<and> pool_added s' = pool_added s \<and>
    node_queues s' = with_access h p as (node_queues s) \<and>
    wait_counters s' = (wait_counters s)(p := of_nat (length as - length (ready_accesses h p s as)))"
  using dispatch_correct [OF assms] by blast

definition quiet_node :: resource_node where
  "quiet_node = new_node Read 0"

definition quiet_system :: system where
  "quiet_system = \<lparr>nodes = \<lambda>r. quiet_node, wait_counters = \<lambda>p. 0, pool_added = []\<rparr>"

lemma quiet_ok: "system_ok quiet_system" "node_queues quiet_system r = ([], [])"
  "rn_last (nodes quiet_system r) = 0"
  by (simp_all add: system_ok_def node_ok_new quiet_system_def world_at_def quiet_node_def
      node_queues_def queues_of_def)
    (simp_all add: new_node_def)

lemma dispatch_registers_everywhere_witness:
  "\<exists>s'. dispatch_task 7 70 [(1, Write), (2, Read)] quiet_system = Inr (True, [1, 2], s') \<and>
     node_queues s' 2 = ([make_access 7 Read 70], []) \<and> wait_counters s' 70 = 0"
  using dispatch_registers_everywhere [OF quiet_ok(1), of 70 "[(1, Write), (2, Read)]" 7]
  by (auto simp: quiet_ok node_capacity_def starts_now_def with_access_def spec_add_def ready_accesses_def)

text \<open>
  Naming a resource twice in one dispatch, with accesses that conflict: the task is never
  handed to the dispatcher to run; its second entry waits in the queue behind its first one,
  which only the end of the task itself would retire, and its counter stays at 1.
\<close>

theorem same_resource_twice_blocks_itself:
  assumes "system_ok s" and "p \<noteq> 0" and "node_queues s r = ([], [])"
    and "rn_last (nodes s r) + 1 < node_capacity" and "is_serial_access m2 m1"
  shows "\<exists>s'. dispatch_task h p [(r, m1), (r, m2)] s = Inr (False, [r, r], s') \<and>
    node_queues s' r = ([make_access h m1 p], [make_access h m2 p]) \<and>
    wait_counters s' p = 1 \<and> pool_added s' = pool_added s"
proof -
  let ?s2 = "s\<lparr>wait_counters := (wait_counters s)(p := of_nat (2 ^ 31 + 2))\<rparr>"
  have ok2: "system_ok ?s2" "node_queues ?s2 r = ([], [])" using assms(1,3) by simp_all
  obtain s3 where s3: "at_node r (Resource_Node.add_task (make_access h m1 p)) ?s2 = Inr s3" "system_ok s3"
      "node_queues s3 r = ([make_access h m1 p], [])" "wait_counters s3 p = of_nat (2 ^ 31 + 2) - 1"
      "pool_added s3 = pool_added s" "rn_last (nodes s3 r) = Suc (rn_last (nodes s r))"
    using register_one [OF system_ok_shape [OF ok2(1)] _ assms(2) refl, of r h m1] ok2 assms(4)
    by (auto simp: starts_now_def spec_add_def)
  have no: "\<not> starts_now (make_access h m2 p) ([make_access h m1 p], [])"
    using assms(5) by (simp add: starts_now_def parallel_with_def make_access_def)
  have "rn_last (nodes s3 r) < node_capacity" using s3(6) assms(4) by simp
  then obtain s4 where s4: "at_node r (Resource_Node.add_task (make_access h m2 p)) s3 = Inr s4"
      "node_queues s4 r = ([make_access h m1 p], [make_access h m2 p])" "wait_counters s4 = wait_counters s3"
      "pool_added s4 = pool_added s"
    using register_one [OF system_ok_shape [OF s3(2)] _ assms(2) refl, of r h m2] s3(3,5) no by (auto simp: spec_add_def)
  let ?as = "[(r, m1), (r, m2)]"
  have "dispatch_task h p ?as s = Inr (1 = length ?as, map fst ?as,
      s4\<lparr>wait_counters := (wait_counters s4)(p := of_nat (length ?as - 1))\<rparr>)"
    by (rule dispatch_task_eq) (use s3 s4 in \<open>simp_all add: register_at_def\<close>)
  then show ?thesis using s4 by simp
qed

lemma same_resource_twice_blocks_itself_witness:
  "\<exists>s'. dispatch_task 7 70 [(1, Write), (1, Read)] quiet_system = Inr (False, [1, 1], s') \<and>
    node_queues s' 1 = ([make_access 7 Write 70], [make_access 7 Read 70]) \<and>
    wait_counters s' 70 = 1 \<and> pool_added s' = pool_added quiet_system"
  by (rule same_resource_twice_blocks_itself)
    (simp_all add: quiet_ok node_capacity_def is_serial_access_def)

text \<open>
  The destruction of the promise of a task that is the oldest running one in each of its
  queues: every one of them retires it, no other queue changes, and exactly the entries that
  become admitted are notified, in the order of the queues; those whose counter reaches zero
  go to the pool.
\<close>

theorem promise_destroy_frees_everywhere:
  assumes "system_ok s" and "distinct rs" and "list_all (oldest_in h s) rs"
  shows "\<exists>s'. promise_destroy h rs s = Inr s' \<and> system_ok s' \<and>
    node_queues s' = (\<lambda>r. if r \<in> set rs then spec_retire (node_queues s r) else node_queues s r) \<and>
    (wait_counters s', pool_added s') = notify (concat (map (\<lambda>r. spec_admitted (node_queues s r)) rs)) s"
  using promise_destroy_distinct [OF assms] by blast

text \<open>Task 7 writes resources 3 and 4; task 8 reads both and waits until task 7 is gone.\<close>

definition one_task :: system where
  "one_task = snd (snd (projr (dispatch_task 7 70 [(3, Write), (4, Write)] quiet_system)))"

definition two_tasks :: system where
  "two_tasks = snd (snd (projr (dispatch_task 8 80 [(3, Read), (4, Read)] one_task)))"

lemma one_task_facts:
  "dispatch_task 7 70 [(3, Write), (4, Write)] quiet_system = Inr (True, [3, 4], one_task)"
  "system_ok one_task" "pool_added one_task = []"
  "node_queues one_task 3 = ([make_access 7 Write 70], [])"
  "node_queues one_task 4 = ([make_access 7 Write 70], [])"
proof -
  obtain s' where "dispatch_task 7 70 [(3, Write), (4, Write)] quiet_system = Inr (True, [3, 4], s')"
      "system_ok s'" "pool_added s' = []"
      "node_queues s' = with_access 7 70 [(3, Write), (4, Write)] (node_queues quiet_system)"
    using dispatch_correct [OF quiet_ok(1), of 70 "[(3, Write), (4, Write)]" 7]
    by (auto simp: quiet_ok node_capacity_def starts_now_def) (simp add: quiet_system_def)
  then show "dispatch_task 7 70 [(3, Write), (4, Write)] quiet_system = Inr (True, [3, 4], one_task)"
    "system_ok one_task" "pool_added one_task = []"
    "node_queues one_task 3 = ([make_access 7 Write 70], [])"
    "node_queues one_task 4 = ([make_access 7 Write 70], [])"
    by (simp_all add: one_task_def with_access_def spec_add_def starts_now_def quiet_ok)
qed

lemma two_tasks_facts:
  "dispatch_task 8 80 [(3, Read), (4, Read)] one_task = Inr (False, [3, 4], two_tasks)"
  "system_ok two_tasks" "pool_added two_tasks = []" "wait_counters two_tasks 80 = 2"
  "node_queues two_tasks 3 = ([make_access 7 Write 70], [make_access 8 Read 80])"
  "node_queues two_tasks 4 = ([make_access 7 Write 70], [make_access 8 Read 80])"
proof -
  have no: "\<not> starts_now (make_access 8 Read 80) ([make_access 7 Write 70], [])"
    by (simp add: starts_now_def parallel_with_def make_access_def is_serial_access_def)
  have room: "rn_last (nodes one_task 3) = 1" "rn_last (nodes one_task 4) = 1" by code_simp+
  obtain s' where "dispatch_task 8 80 [(3, Read), (4, Read)] one_task = Inr (False, [3, 4], s')"
      "system_ok s'" "pool_added s' = []" "wait_counters s' 80 = 2"
      "node_queues s' = with_access 8 80 [(3, Read), (4, Read)] (node_queues one_task)"
    using dispatch_correct [OF one_task_facts(2), of 80 "[(3, Read), (4, Read)]" 8] no
    by (auto simp: one_task_facts room node_capacity_def ready_accesses_def)
  then show "dispatch_task 8 80 [(3, Read), (4, Read)] one_task = Inr (False, [3, 4], two_tasks)"
    "system_ok two_tasks" "pool_added two_tasks = []" "wait_counters two_tasks 80 = 2"
    "node_queues two_tasks 3 = ([make_access 7 Write 70], [make_access 8 Read 80])"
    "node_queues two_tasks 4 = ([make_access 7 Write 70], [make_access 8 Read 80])"
    using no by (simp_all add: two_tasks_def with_access_def spec_add_def one_task_facts)
qed

lemma promise_destroy_frees_everywhere_witness:
  "\<exists>s'. promise_destroy 7 [3, 4] two_tasks = Inr s' \<and> pool_added s' = [8] \<and>
    node_queues s' 3 = ([make_access 8 Read 80], []) \<and> node_queues s' 4 = ([make_access 8 Read 80], [])"
proof -
  have "rn_first (nodes two_tasks 3) = 0" "rn_first (nodes two_tasks 4) = 0" by code_simp+
  then have "list_all (oldest_in 7 two_tasks) [3, 4]"
    by (simp add: oldest_in_def two_tasks_facts node_capacity_def make_access_def)
  then show ?thesis
    using promise_destroy_frees_everywhere [OF two_tasks_facts(2), of "[3, 4]" 7]
    by (auto simp: two_tasks_facts spec_retire_def spec_admitted_def notify_def Let_def
        signal_effect make_access_def)
qed

text \<open>
  After a co-awaited asynchronous dispatch both coroutines are under way: if the resources
  are ready the child runs and its parent is in the pool, queued once; if not, the parent runs
  on and the pool is untouched, the child being left to its resources.
\<close>

theorem async_await_keeps_both:
  assumes "pool_ok p" and "me = None \<or> the me < length (thread_queues p)"
  shows "\<exists>next p'. async_await me ready child parent p = Some (next, p') \<and> pool_ok p' \<and>
    (if ready then next = Resume child \<and> waiting_tasks p' = add_mset parent (waiting_tasks p)
     else next = Resume parent \<and> p' = p)"
proof -
  have "\<And>i. me = Some i \<Longrightarrow> i < length (thread_queues p)" using assms(2) by auto
  from pool_add_task_adds [OF assms(1) this, where h = parent] show ?thesis
    using assms(1) by (auto simp: async_await_def)
qed

lemma async_await_keeps_both_witness:
  "\<exists>next p'. async_await (Some 1) True 5 6 demo_pool = Some (next, p') \<and> next = Resume 5 \<and>
     waiting_tasks p' = add_mset 6 (waiting_tasks demo_pool)"
  using async_await_keeps_both [OF demo_pool_ok(1), of "Some 1" True 5 6] demo_pool_ok(2) by auto

end
