(* ===== verification/Barrier.thy ===== *)
theory Barrier
  imports Dispatch
begin

section \<open>The barrier (barrier.hpp)\<close>

text \<open>
  \<open>co_await\<close> on a \<open>BarrierAwaiter\<close> suspends the coroutine and registers a \<open>barrierTask\<close> with
  write access at each of the resources; when that task runs it enters the suspended coroutine
  into the barrier queue of the pool, from where \<open>process_and_extract\<close> (\<open>Barrier_Queue\<close>)
  resumes it. As in \<open>Dispatch\<close>, nothing interferes.
\<close>

text \<open>An argument of the barrier: a resource, given by its queue, or a container of resources.\<close>

datatype barrier_argument = Single nat | Container "nat list"

text \<open>\<open>processResource\<close>: announce one resource, then register.\<close>

definition process_resource :: "nat \<Rightarrow> nat \<Rightarrow> nat \<Rightarrow> nat list \<times> system \<Rightarrow> node_error + nat list \<times> system" where
  "process_resource h w r ns =
     (let (resource_nodes, s) = ns;
          s1 = s\<lparr>wait_counters := (wait_counters s)(w := snd (fetch_add (wait_counters s w) 1))\<rparr>
      in map_sum id (\<lambda>s2. (resource_nodes @ [r], s2))
           (at_node r (Resource_Node.add_task (make_access h Write w)) s1))"

fun process_container :: "nat \<Rightarrow> nat \<Rightarrow> nat list \<Rightarrow> nat list \<times> system \<Rightarrow> node_error + nat list \<times> system" where
  "process_container h w [] ns = Inr ns"
| "process_container h w (r # rs) ns =
     (case process_resource h w r ns of Inl e \<Rightarrow> Inl e | Inr ns' \<Rightarrow> process_container h w rs ns')"

fun process_argument :: "nat \<Rightarrow> nat \<Rightarrow> barrier_argument \<Rightarrow> nat list \<times> system \<Rightarrow> node_error + nat list \<times> system" where
  "process_argument h w (Single r) ns = process_resource h w r ns"
| "process_argument h w (Container rs) ns = process_container h w rs ns"

fun process_arguments ::
    "nat \<Rightarrow> nat \<Rightarrow> barrier_argument list \<Rightarrow> nat list \<times> system \<Rightarrow> node_error + nat list \<times> system" where
  "process_arguments h w [] ns = Inr ns"
| "process_arguments h w (a # as) ns =
     (case process_argument h w a ns of Inl e \<Rightarrow> Inl e | Inr ns' \<Rightarrow> process_arguments h w as ns')"

text \<open>
  \<open>await_suspend\<close>, with the frame of the new \<open>barrierTask\<close> at \<open>h\<close> and its wait counter at \<open>w\<close>:
  the coroutine to transfer to (\<open>None\<close>: the no-op coroutine), the queues kept in its promise,
  and the system.
\<close>

definition barrier_suspend ::
    "nat \<Rightarrow> nat \<Rightarrow> barrier_argument list \<Rightarrow> system \<Rightarrow> node_error + nat option \<times> nat list \<times> system" where
  "barrier_suspend h w args s =
     (case process_arguments h w args ([], s\<lparr>wait_counters := (wait_counters s)(w := INVALID_WAIT_STATE)\<rparr>) of
        Inl e \<Rightarrow> Inl e
      | Inr (resource_nodes, s1) \<Rightarrow>
          let (wc, new) = fetch_sub (wait_counters s1 w) INVALID_WAIT_STATE
          in Inr (if wc = INVALID_WAIT_STATE then Some h else None, resource_nodes,
                  s1\<lparr>wait_counters := (wait_counters s1)(w := new)\<rparr>))"

text \<open>The body of \<open>barrierTask\<close>: \<open>self\<close> and the flag are those of the suspended coroutine.\<close>

definition barrier_task :: "shandle \<Rightarrow> nat \<Rightarrow> pool \<Rightarrow> pool" where
  "barrier_task self flag p = p\<lparr>barrier_q := barrier_emplace_back self flag (barrier_q p)\<rparr>"

fun barrier_resources :: "barrier_argument list \<Rightarrow> nat list" where
  "barrier_resources [] = []"
| "barrier_resources (Single r # as) = r # barrier_resources as"
| "barrier_resources (Container rs # as) = rs @ barrier_resources as"

lemma process_container_append:
  "process_container h w (rs @ rs') ns =
    (case process_container h w rs ns of Inl e \<Rightarrow> Inl e | Inr ns' \<Rightarrow> process_container h w rs' ns')"
  by (induction rs arbitrary: ns) (auto split: sum.splits)

lemma process_arguments_flat: "process_arguments h w as ns = process_container h w (barrier_resources as) ns"
proof (induction as arbitrary: ns)
  case (Cons a as)
  then show ?case
    by (cases a) (simp_all add: process_container_append split: sum.splits)
qed simp

subsection \<open>Counting before or while registering\<close>

text \<open>
  \<open>add_task\<close> only subtracts from the counter: adding to it commutes with every registration.
\<close>

definition shift_counter :: "nat \<Rightarrow> u32 \<Rightarrow> system \<Rightarrow> system" where
  "shift_counter w d s = s\<lparr>wait_counters := (wait_counters s)(w := wait_counters s w + d)\<rparr>"

lemma shift_counter_add: "shift_counter w d (shift_counter w e s) = shift_counter w (e + d) s"
  by (simp add: shift_counter_def add.assoc)

lemma take_slot_shift:
  "ta_wait t = p \<Longrightarrow> take_slot t k f (w\<lparr>counters := (counters w)(p := counters w p + d)\<rparr>) =
    map_sum id (\<lambda>w'. w'\<lparr>counters := (counters w')(p := counters w' p + d)\<rparr>) (take_slot t k f w)"
  by (auto simp: take_slot_def count_down_def fetch_sub_def compare_exchange_def set_fnr_def Let_def
      algebra_simps)

lemma push_entry_counters: "push_entry t (w\<lparr>counters := c\<rparr>) = (push_entry t w)\<lparr>counters := c\<rparr>"
  by (simp add: push_entry_def)

lemma add_task_shift:
  assumes "ta_wait t = p"
  shows "Resource_Node.add_task t (w\<lparr>counters := (counters w)(p := counters w p + d)\<rparr>) =
    map_sum id (\<lambda>w'. w'\<lparr>counters := (counters w')(p := counters w' p + d)\<rparr>) (Resource_Node.add_task t w)"
proof -
  have t: "task_at k (v\<lparr>counters := x\<rparr>) = task_at k v" for k v x by (simp add: task_at_def)
  have slot: "take_slot t k f ((push_entry t w)\<lparr>counters := (counters w)(p := counters w p + d)\<rparr>) =
      map_sum id (\<lambda>w'. w'\<lparr>counters := (counters w')(p := counters w' p + d)\<rparr>) (take_slot t k f (push_entry t w))"
    for k f
    using take_slot_shift [OF assms, of k f "push_entry t w" d] by simp
  show ?thesis
    unfolding add_task_def Let_def push_entry_counters by (simp add: t slot)
qed

lemma at_node_shift:
  "at_node r (Resource_Node.add_task (make_access h m w)) (shift_counter w d s) =
    map_sum id (shift_counter w d) (at_node r (Resource_Node.add_task (make_access h m w)) s)"
proof -
  let ?t = "make_access h m w" and ?w = "world_at r s"
  have w: "world_at r (shift_counter w d s) = ?w\<lparr>counters := (counters ?w)(w := counters ?w w + d)\<rparr>"
    by (simp add: world_at_def shift_counter_def)
  have t: "ta_wait ?t = w" by (simp add: make_access_def)
  show ?thesis
    unfolding at_node_def w add_task_shift [OF t]
    by (cases "Resource_Node.add_task ?t ?w") (simp_all add: shift_counter_def)
qed

lemma register_all_shift:
  "register_all h w as (shift_counter w d s) = map_sum id (shift_counter w d) (register_all h w as s)"
proof (induction as arbitrary: s)
  case (Cons a as)
  then show ?case
    by (cases a; cases "at_node (fst a) (Resource_Node.add_task (make_access h (snd a) w)) s")
      (simp_all add: at_node_shift register_at_def)
qed simp

lemma process_container_eq:
  "process_container h w rs (ns, s) =
    map_sum id (\<lambda>s'. (ns @ rs, s')) (register_all h w (map (\<lambda>r. (r, Write)) rs) (shift_counter w (of_nat (length rs)) s))"
proof (induction rs arbitrary: ns s)
  case Nil
  show ?case by (simp add: shift_counter_def)
next
  case (Cons r rs)
  let ?a = "at_node r (Resource_Node.add_task (make_access h Write w)) s"
  have one: "process_resource h w r (ns, s) = map_sum id (\<lambda>s2. (ns @ [r], shift_counter w 1 s2)) ?a"
    using at_node_shift [of r h Write w 1 s]
    by (cases ?a) (simp_all add: process_resource_def fetch_add_def shift_counter_def)
  have reg: "register_all h w (map (\<lambda>r. (r, Write)) (r # rs)) (shift_counter w (of_nat (length (r # rs))) s) =
      (case map_sum id (shift_counter w (of_nat (length (r # rs)))) ?a of
         Inl e \<Rightarrow> Inl e | Inr s' \<Rightarrow> register_all h w (map (\<lambda>r. (r, Write)) rs) s')"
    by (simp only: list.map register_all.simps register_at_def prod.case at_node_shift)
  show ?case
  proof (cases ?a)
    case (Inl e)
    then show ?thesis unfolding reg by (simp add: one)
  next
    case (Inr s1)
    have "shift_counter w (of_nat (length rs)) (shift_counter w 1 s1) = shift_counter w (of_nat (length (r # rs))) s1"
      by (simp add: shift_counter_add)
    then show ?thesis
      unfolding reg using Cons.IH [of "ns @ [r]" "shift_counter w 1 s1"] by (simp add: one Inr)
  qed
qed

lemma barrier_dispatch:
  assumes n: "length (barrier_resources args) < 2 ^ 16"
  shows "map_sum id (\<lambda>(next, ns, s'). (next = Some h, ns, s')) (barrier_suspend h w args s) =
    dispatch_task h w (map (\<lambda>r. (r, Write)) (barrier_resources args)) s"
proof -
  let ?rs = "barrier_resources args" and ?s = "s\<lparr>wait_counters := (wait_counters s)(w := INVALID_WAIT_STATE)\<rparr>"
  have c: "(ucast (resource_counter (map (\<lambda>r. (r, Write)) ?rs)) :: u32) = of_nat (length ?rs)"
    using counter_32 [OF n] by (simp add: resource_counter_eq)
  have s: "?s\<lparr>wait_counters := (wait_counters ?s)(w := wait_counters ?s w + of_nat (length ?rs))\<rparr> =
      shift_counter w (of_nat (length ?rs)) ?s"
    by (simp add: shift_counter_def)
  show ?thesis
    unfolding barrier_suspend_def process_arguments_flat process_container_eq dispatch_defs c Let_def
    by (cases "register_all h w (map (\<lambda>r. (r, Write)) ?rs) (shift_counter w (of_nat (length ?rs)) ?s)")
      (simp_all add: fetch_add_def fetch_sub_def s [simplified] o_def)
qed

lemma map_of_Write: "r \<in> set rs \<Longrightarrow> map_of (map (\<lambda>r. (r, Write)) rs) r = Some Write"
  by (induction rs) auto

subsection \<open>Properties\<close>

text \<open>
  C27. The barrier announces its resources to the wait counter one at a time while it registers,
  \<open>dispatch_task\<close> all at once before it: with fewer than \<open>2\<^sup>1\<^sup>6\<close> resources both do the same, so a
  barrier is the dispatch of its task with write access to each resource, in the order of the
  arguments and of the elements of the containers.
\<close>

theorem barrier_is_dispatch:
  assumes "length (barrier_resources args) < 2 ^ 16"
  shows "map_sum id (\<lambda>(next, ns, s'). (next = Some h, ns, s')) (barrier_suspend h w args s) =
    dispatch_task h w (map (\<lambda>r. (r, Write)) (barrier_resources args)) s"
  by (rule barrier_dispatch [OF assms])

lemma barrier_is_dispatch_witness:
  "map_sum id (\<lambda>(next, ns, s'). (next = Some 7, ns, s'))
     (barrier_suspend 7 70 [Single 3, Container [5, 4], Container []] quiet_system) =
   dispatch_task 7 70 [(3, Write), (5, Write), (4, Write)] quiet_system"
  using barrier_is_dispatch [of "[Single 3, Container [5, 4], Container []]" 7 70 quiet_system] by simp

text \<open>
  A barrier on distinct resources with room is let through at once exactly if no task is
  registered at any of them; otherwise the coroutine stays suspended. In both cases the
  barrier task stands at the end of each queue, so it separates the tasks that were
  registered before it from those that come later.
\<close>

theorem barrier_separates:
  assumes "system_ok s" and "w \<noteq> 0" and "distinct (barrier_resources args)"
    and "length (barrier_resources args) < 2 ^ 16"
    and "list_all (\<lambda>r. rn_last (nodes s r) < node_capacity) (barrier_resources args)"
  shows "\<exists>next s'. barrier_suspend h w args s = Inr (next, barrier_resources args, s') \<and>
    next = (if list_all (\<lambda>r. node_queues s r = ([], [])) (barrier_resources args) then Some h else None) \<and>
    system_ok s' \<and> pool_added s' = pool_added s \<and>
    list_all (\<lambda>r. fst (node_queues s' r) @ snd (node_queues s' r) =
      fst (node_queues s r) @ snd (node_queues s r) @ [make_access h Write w]) (barrier_resources args)"
proof -
  let ?rs = "barrier_resources args" and ?t = "make_access h Write w"
  let ?as = "map (\<lambda>r. (r, Write)) ?rs"
  have as: "map fst ?as = ?rs" by (simp add: o_def)
  obtain s' where s': "dispatch_task h w ?as s =
      Inr (list_all (\<lambda>(r, m). starts_now (make_access h m w) (node_queues s r)) ?as, ?rs, s')"
      "system_ok s'" "pool_added s' = pool_added s" "node_queues s' = with_access h w ?as (node_queues s)"
    using dispatch_correct [OF assms(1,2), of ?as h] assms(3-5) unfolding as by auto
  have starts: "starts_now ?t q \<longleftrightarrow> q = ([], [])" for q
    by (cases q) (auto simp: starts_now_def parallel_with_def make_access_def is_serial_access_iff)
  have "with_access h w ?as (node_queues s) r = spec_add ?t (node_queues s r)" if "r \<in> set ?rs" for r
  proof -
    have "map_of ?as r = Some Write" using that by (rule map_of_Write)
    then show ?thesis by (simp add: with_access_def)
  qed
  then have q: "list_all (\<lambda>r. fst (node_queues s' r) @ snd (node_queues s' r) =
      fst (node_queues s r) @ snd (node_queues s r) @ [?t]) ?rs"
    using s'(4) by (auto simp: list_all_iff spec_add_def starts)
  have b: "map_sum id (\<lambda>(next, ns, s'). (next = Some h, ns, s')) (barrier_suspend h w args s) =
      Inr (list_all (\<lambda>r. node_queues s r = ([], [])) ?rs, ?rs, s')"
    unfolding barrier_dispatch [OF assms(4)] s'(1) by (simp add: list_all_iff starts)
  then obtain nx where "barrier_suspend h w args s = Inr (nx, ?rs, s')"
      "(nx = Some h) = list_all (\<lambda>r. node_queues s r = ([], [])) ?rs"
    by (cases "barrier_suspend h w args s") auto
  moreover from this(1) have "nx = Some h \<or> nx = None"
    by (auto simp: barrier_suspend_def Let_def split: sum.splits prod.splits if_splits)
  ultimately show ?thesis using s'(2,3) q by (intro exI [of _ nx] exI [of _ s']) auto
qed

lemma barrier_separates_witness:
  "\<exists>next s'. barrier_suspend 7 70 [Single 3, Container [5, 4]] quiet_system = Inr (next, [3, 5, 4], s') \<and>
    next = Some 7 \<and> fst (node_queues s' 5) @ snd (node_queues s' 5) = [make_access 7 Write 70]"
  using barrier_separates [OF quiet_ok(1), of 70 "[Single 3, Container [5, 4]]" 7]
  by (auto simp: quiet_ok node_capacity_def)

end
