(* ===== verification/Task_Queues.thy ===== *)
theory Task_Queues
  imports Dispatch "HOL-Library.Sublist"
begin

section \<open>The entries of tasks in the queues\<close>

text \<open>
  What the runs of Task_Runs need to know of the queues: the entries that a list of tasks has in a
  queue, in which queues a task waits, what the notifications of a removal do to one task, and what a
  removal of any running task does to a queue. A task that leaves while an older one still runs
  leaves its entry behind; a queue without such leftovers is clean.
\<close>

text \<open>Tasks by handle, address of the wait counter, and accesses.\<close>

type_synonym live_task = "nat \<times> nat \<times> accesses"

definition newly_added :: "system \<Rightarrow> system \<Rightarrow> nat set" where
  "newly_added s s' = set (drop (length (pool_added s)) (pool_added s'))"

definition entry_of :: "nat \<Rightarrow> live_task \<Rightarrow> task_access list" where
  "entry_of r t = (case t of (h, p, as) \<Rightarrow>
     (case map_of as r of None \<Rightarrow> [] | Some m \<Rightarrow> [make_access h m p]))"

definition entries_at :: "nat \<Rightarrow> live_task list \<Rightarrow> task_access list" where
  "entries_at r ts = concat (map (entry_of r) ts)"

lemma entries_at_simps [simp]:
  "entries_at r [] = []" "entries_at r (t # ts) = entry_of r t @ entries_at r ts"
  "entries_at r (ts @ us) = entries_at r ts @ entries_at r us"
  by (simp_all add: entries_at_def)

lemma entry_of_task: "e \<in> set (entry_of r t) \<Longrightarrow> ta_handle e = fst t \<and> ta_wait e = fst (snd t) \<and> r \<in> fst ` set (snd (snd t))"
  by (cases t) (auto simp: entry_of_def make_access_def split: option.splits dest!: map_of_SomeD [OF sym]
      intro: rev_image_eqI)

lemma entries_at_task: "e \<in> set (entries_at r ts) \<Longrightarrow> \<exists>t \<in> set ts. e \<in> set (entry_of r t)"
  by (induction ts) auto

lemma entries_at_handles: "ta_handle ` set (entries_at r ts) \<subseteq> fst ` set ts"
  by (auto dest!: entries_at_task dest: entry_of_task)

lemma entries_at_distinct: "distinct (map fst ts) \<Longrightarrow> distinct (map ta_handle (entries_at r ts))"
proof (induction ts)
  case (Cons t ts)
  have "distinct (map ta_handle (entry_of r t))" by (simp add: entry_of_def split: prod.split option.split)
  moreover have "fst t \<notin> ta_handle ` set (entries_at r ts)" using Cons.prems entries_at_handles [of r ts] by auto
  ultimately show ?case using Cons by (auto dest: entry_of_task)
qed simp

lemma entries_at_remove: "entries_at r (filter (\<lambda>t. fst t \<noteq> h) ts) = filter (\<lambda>e. ta_handle e \<noteq> h) (entries_at r ts)"
proof (induction ts)
  case (Cons t ts)
  have "filter (\<lambda>e. ta_handle e \<noteq> h) (entry_of r t) = (if fst t = h then [] else entry_of r t)"
    by (auto simp: filter_empty_conv filter_id_conv dest: entry_of_task)
  then show ?case using Cons by simp
qed simp

text \<open>The counter address of an entry tells its handle and the other way round.\<close>

lemma entries_at_names:
  assumes "distinct (map fst ts)" "distinct (map (fst \<circ> snd) ts)" "(h, p, as) \<in> set ts" "e \<in> set (entries_at r ts)"
  shows "ta_handle e = h \<longleftrightarrow> ta_wait e = p"
proof -
  obtain t where t: "t \<in> set ts" "ta_handle e = fst t" "ta_wait e = fst (snd t)"
    using entries_at_task [OF assms(4)] entry_of_task by blast
  have "fst t = h \<longleftrightarrow> t = (h, p, as)"
    using eq_key_imp_eq_value [of ts h] assms(1,3) t(1) by (cases t) (auto dest: eq_key_imp_eq_value)
  moreover have "fst (snd t) = p \<longleftrightarrow> t = (h, p, as)"
    using assms(2,3) t(1) by (auto simp: distinct_map inj_on_def)
  ultimately show ?thesis using t by simp
qed

subsection \<open>Where a task waits\<close>

definition waiting_at :: "(nat \<Rightarrow> queues) \<Rightarrow> nat \<Rightarrow> nat set" where
  "waiting_at qs h = {r. h \<in> ta_handle ` set (snd (qs r))}"

lemma spec_add_queue: "fst (spec_add t q) @ snd (spec_add t q) = fst q @ snd q @ [t]"
  by (simp add: spec_add_def starts_now_def)

subsection \<open>Notifications and removals\<close>

text \<open>What a list of notifications does to one task.\<close>

lemma fold_signal_count:
  assumes "\<And>t. t \<in> set ts \<Longrightarrow> ta_handle t = h \<longleftrightarrow> ta_wait t = p" and "counters w p = of_nat n" and "n < 2 ^ 32"
    and "length (filter (\<lambda>t. ta_handle t = h) ts) \<le> n"
  shows "counters (fold signal ts w) p = of_nat (n - length (filter (\<lambda>t. ta_handle t = h) ts)) \<and>
    (\<exists>xs. added (fold signal ts w) = added w @ xs \<and> set xs \<subseteq> ta_handle ` set ts \<and>
       (h \<in> set xs \<longleftrightarrow> length (filter (\<lambda>t. ta_handle t = h) ts) = n \<and> 0 < n))"
  using assms
proof (induction ts arbitrary: w n)
  case (Cons t ts)
  let ?w = "signal t w"
  show ?case
  proof (cases "ta_handle t = h")
    case False
    then have "ta_wait t \<noteq> p" using Cons.prems(1) by simp
    then have "counters ?w p = of_nat n" using Cons.prems(2) by (simp add: signal_effect)
    from Cons.IH [OF _ this Cons.prems(3)] Cons.prems(1,4) False
    obtain xs where "counters (fold signal ts ?w) p = of_nat (n - length (filter (\<lambda>t. ta_handle t = h) ts))"
        "added (fold signal ts ?w) = added ?w @ xs" "set xs \<subseteq> ta_handle ` set ts"
        "h \<in> set xs \<longleftrightarrow> length (filter (\<lambda>t. ta_handle t = h) ts) = n \<and> 0 < n"
      by auto
    then show ?thesis using False by (auto simp: signal_effect)
  next
    case True
    then have p: "ta_wait t = p" using Cons.prems(1) by simp
    have n: "0 < n" using Cons.prems(4) True by simp
    have c: "counters ?w p = of_nat (n - 1)" using Cons.prems(2) n p by (simp add: signal_effect of_nat_diff)
    have one: "counters w p = 1 \<longleftrightarrow> n = 1" using Cons.prems(2,3) of_nat_u32_eq [of n 1] by simp
    have le: "length (filter (\<lambda>t. ta_handle t = h) ts) \<le> n - 1" using Cons.prems(4) True by simp
    have lt: "n - 1 < 2 ^ 32" using Cons.prems(3) by simp
    from Cons.IH [OF _ c lt le] Cons.prems(1)
    obtain xs where "counters (fold signal ts ?w) p = of_nat (n - 1 - length (filter (\<lambda>t. ta_handle t = h) ts))"
        "added (fold signal ts ?w) = added ?w @ xs" "set xs \<subseteq> ta_handle ` set ts"
        "h \<in> set xs \<longleftrightarrow> length (filter (\<lambda>t. ta_handle t = h) ts) = n - 1 \<and> 0 < n - 1"
      by auto
    then show ?thesis using True p one n le by (auto simp: signal_effect)
  qed
qed auto

lemma fold_signal_added:
  "\<exists>xs. added (fold signal ts w) = added w @ xs \<and> set xs \<subseteq> ta_handle ` set ts"
proof (induction ts arbitrary: w)
  case (Cons t ts)
  obtain xs where "added (fold signal ts (signal t w)) = added (signal t w) @ xs" "set xs \<subseteq> ta_handle ` set ts"
    using Cons.IH [of "signal t w"] by blast
  then show ?case by (auto simp: signal_effect)
qed simp

lemma distinct_filter_length:
  "distinct (map g xs) \<Longrightarrow> length (filter (\<lambda>x. g x = a) xs) = (if a \<in> g ` set xs then 1 else 0)"
  by (induction xs) (auto simp: filter_empty_conv)

lemma distinct_remove_hd:
  "distinct (map g xs) \<Longrightarrow> xs \<noteq> [] \<Longrightarrow> filter (\<lambda>x. g x \<noteq> g (hd xs)) xs = tl xs"
  by (cases xs) (auto simp: filter_id_conv image_iff)

lemma drop_waiting:
  assumes "distinct (map ta_handle q)"
  shows "h \<in> ta_handle ` set (drop k q) \<longleftrightarrow> h \<in> ta_handle ` set q \<and> h \<notin> ta_handle ` set (take k q)"
proof -
  have q: "q = take k q @ drop k q" by simp
  have "distinct (map ta_handle (take k q) @ map ta_handle (drop k q))" using assms by (metis q map_append)
  then have d: "ta_handle ` set (take k q) \<inter> ta_handle ` set (drop k q) = {}" by simp
  have "ta_handle ` set q = ta_handle ` set (take k q) \<union> ta_handle ` set (drop k q)"
    by (subst q) (simp only: set_append image_Un)
  then show ?thesis using d by auto
qed

lemma running_are_parallel:
  assumes "system_shape s" and "i < length (fst (node_queues s r))" "j < length (fst (node_queues s r))" "i \<noteq> j"
  shows "\<not> is_serial_access (ta_mode (fst (node_queues s r) ! i)) (ta_mode (fst (node_queues s r) ! j))"
proof -
  have "node_shape (world_at r s)" using assms(1) by (simp add: system_shape_def)
  then show ?thesis using assms(2-4) by (simp add: node_shape_def node_queues_def queues_of_def Let_def)
qed

lemma queue_never_blocked:
  assumes "system_shape s" and "snd (node_queues s r) \<noteq> []"
  shows "fst (node_queues s r) \<noteq> []"
proof -
  have "node_shape (world_at r s)" using assms(1) by (simp add: system_shape_def)
  then show ?thesis using assms(2) by (auto simp: node_shape_def node_queues_def queues_of_def Let_def slice_def)
qed

subsection \<open>The entries that a queue holds for the live tasks\<close>

text \<open>
  The entries \<open>es\<close> of the live tasks are those that wait and some of those that run; in a clean queue
  they are all.
\<close>

definition queue_fits :: "bool \<Rightarrow> queues \<Rightarrow> task_access list \<Rightarrow> bool" where
  "queue_fits clean q es \<longleftrightarrow> (\<exists>xs. subseq xs (fst q) \<and> (clean \<longrightarrow> xs = fst q) \<and> xs @ snd q = es)"

lemma queue_fits_clean: "queue_fits True q es \<longleftrightarrow> fst q @ snd q = es"
  by (auto simp: queue_fits_def)

lemma queue_fits_any: "queue_fits c q es \<Longrightarrow> queue_fits False q es"
  by (auto simp: queue_fits_def)

lemma queue_fits_waiting: "queue_fits c q es \<Longrightarrow> set (snd q) \<subseteq> set es"
  by (auto simp: queue_fits_def)

lemma queue_fits_running: "queue_fits c q es \<Longrightarrow> e \<in> set es \<Longrightarrow> e \<in> set (fst q) \<or> e \<in> set (snd q)"
  by (auto simp: queue_fits_def dest: list_emb_set)

lemma queue_fits_distinct: "queue_fits c q es \<Longrightarrow> distinct (map ta_handle es) \<Longrightarrow> distinct (map ta_handle (snd q))"
  by (auto simp: queue_fits_def)

lemma queue_fits_add: "queue_fits c q es \<Longrightarrow> queue_fits c (spec_add e q) (es @ [e])"
  unfolding queue_fits_def spec_add_def starts_now_def by (auto intro: list_emb_append_mono)

text \<open>Two entries in order, of which the later one runs.\<close>

lemma subseq_two: "subseq [a, b] ys \<Longrightarrow> \<exists>i j. i < j \<and> j < length ys \<and> ys ! i = a \<and> ys ! j = b"
proof (induction ys)
  case (Cons y ys)
  show ?case
  proof (cases "a = y \<and> b \<in> set ys")
    case True
    then obtain j where "j < length ys" "ys ! j = b" by (meson in_set_conv_nth)
    then show ?thesis using True by (intro exI [of _ 0] exI [of _ "Suc j"]) simp
  next
    case False
    then have "subseq [a, b] ys" using Cons.prems by (auto simp: subseq_singleton_left split: if_splits)
    then obtain i j where "i < j" "j < length ys" "ys ! i = a" "ys ! j = b" using Cons.IH by blast
    then show ?thesis by (intro exI [of _ "Suc i"] exI [of _ "Suc j"]) simp
  qed
qed simp

lemma queue_fits_order:
  assumes fits: "queue_fits c q (as @ a # bs @ b # cs)" and b: "b \<notin> set (snd q)"
  shows "\<exists>i j. i < j \<and> j < length (fst q) \<and> fst q ! i = a \<and> fst q ! j = b"
proof -
  obtain xs where xs: "subseq xs (fst q)" "xs @ snd q = as @ a # bs @ b # cs" using fits by (auto simp: queue_fits_def)
  have "subseq [a, b] xs"
  proof (cases "length as + 1 + length bs < length xs")
    case True
    then have "take (length as + 1 + length bs + 1) xs = take (length as + 1 + length bs + 1) (xs @ snd q)" by simp
    also have "\<dots> = as @ a # bs @ [b]" by (simp add: xs(2))
    finally have "xs = (as @ a # bs @ [b]) @ drop (length as + 1 + length bs + 1) xs" by (metis append_take_drop_id)
    moreover have "subseq [a, b] ((as @ a # bs @ [b]) @ zs)" for zs
      by (simp add: list_emb_append2 subseq_append')
    ultimately show ?thesis by metis
  next
    case False
    let ?n = "length as + 1 + length bs"
    have "(as @ a # bs @ b # cs) ! ?n = b" by (simp add: nth_append)
    then have "(xs @ snd q) ! ?n = b" by (simp only: xs(2))
    then have at: "snd q ! (?n - length xs) = b" using False by (simp only: nth_append if_False)
    have "length (xs @ snd q) = length (as @ a # bs @ b # cs)" by (simp only: xs(2))
    then have "?n - length xs < length (snd q)" using False by simp
    then have "b \<in> set (snd q)" using nth_mem at by fast
    then show ?thesis using b by contradiction
  qed
  from subseq_order.order_trans [OF this xs(1)] show ?thesis by (rule subseq_two)
qed

lemma filter_update:
  assumes "j < length ys" and "\<not> P (ys ! j)" and "\<not> P e"
  shows "filter P (ys[j := e]) = filter P ys"
proof -
  have "filter P ys = filter P (take j ys @ ys ! j # drop (Suc j) ys)" using id_take_nth_drop [OF assms(1)] by simp
  then show ?thesis using assms by (simp add: upd_conv_take_nth_drop)
qed

lemma filter_other: "h \<notin> ta_handle ` set q \<Longrightarrow> filter (\<lambda>e. ta_handle e \<noteq> h) q = q"
  by (auto simp: filter_id_conv)

text \<open>The entries of one task leave.\<close>

lemma queue_fits_retire:
  assumes fits: "queue_fits c q es" and d: "distinct (map ta_handle es)" and ne: "fst q \<noteq> []"
    and h: "ta_handle (hd (fst q)) = h" "h \<notin> ta_handle ` set (snd q)"
  shows "queue_fits c (spec_retire q) (filter (\<lambda>e. ta_handle e \<noteq> h) es)"
proof -
  let ?P = "\<lambda>e. ta_handle e \<noteq> h" and ?k = "length (spec_admitted q)"
  obtain xs where xs: "subseq xs (fst q)" "c \<Longrightarrow> xs = fst q" "xs @ snd q = es" using fits by (auto simp: queue_fits_def)
  have tl: "filter ?P (fst q) = filter ?P (tl (fst q))" using ne h(1) by (cases "fst q") auto
  have "subseq (filter ?P xs) (filter ?P (fst q))" by (rule subseq_filter [OF xs(1)])
  then have "subseq (filter ?P xs) (tl (fst q))" unfolding tl by (meson subseq_filter_left subseq_order.order_trans)
  then have "subseq (filter ?P xs @ spec_admitted q) (fst (spec_retire q))"
    by (simp add: spec_retire_def list_emb_append_mono)
  moreover have "filter ?P xs @ spec_admitted q = fst (spec_retire q)" if c
  proof -
    have "distinct (map ta_handle (fst q))" using d xs(2) [OF that] by (auto simp flip: xs(3))
    then have "filter ?P (fst q) = tl (fst q)" using distinct_remove_hd [of ta_handle "fst q"] ne h(1) by simp
    then show ?thesis using xs(2) [OF that] by (simp add: spec_retire_def)
  qed
  moreover have "snd q = spec_admitted q @ drop ?k (snd q)" by (metis admitted_prefix append_take_drop_id)
  then have "(filter ?P xs @ spec_admitted q) @ snd (spec_retire q) = filter ?P xs @ snd q"
    by (simp add: spec_retire_def)
  then have "(filter ?P xs @ spec_admitted q) @ snd (spec_retire q) = filter ?P es"
    using filter_other [OF h(2)] by (simp flip: xs(3))
  ultimately show ?thesis unfolding queue_fits_def by blast
qed

lemma queue_fits_mark:
  assumes fits: "queue_fits False q es" and j: "j < length (fst q)" "ta_handle (fst q ! j) = h" "ta_handle e = h"
    and h: "h \<notin> ta_handle ` set (snd q)"
  shows "queue_fits False ((fst q)[j := e], snd q) (filter (\<lambda>e. ta_handle e \<noteq> h) es)"
proof -
  let ?P = "\<lambda>e. ta_handle e \<noteq> h"
  obtain xs where xs: "subseq xs (fst q)" "xs @ snd q = es" using fits by (auto simp: queue_fits_def)
  have "subseq (filter ?P xs) (filter ?P (fst q))" by (rule subseq_filter [OF xs(1)])
  also have "filter ?P (fst q) = filter ?P ((fst q)[j := e])" using j by (simp add: filter_update)
  finally have "subseq (filter ?P xs) ((fst q)[j := e])" by (meson subseq_filter_left subseq_order.order_trans)
  moreover have "filter ?P xs @ snd q = filter ?P es" using filter_other [OF h] by (simp flip: xs(2))
  ultimately show ?thesis by (auto simp: queue_fits_def)
qed

text \<open>A task that waits nowhere in a queue leaves it: \<open>ts\<close> are the tasks that are notified.\<close>

lemma removal_effect:
  assumes ok: "system_shape s" and fits: "queue_fits c (node_queues s r) es" and d: "distinct (map ta_handle es)"
    and h: "h \<in> ta_handle ` set es" "h \<notin> ta_handle ` set (snd (node_queues s r))"
    and old: "c \<Longrightarrow> oldest_in h s r" and run: "remove_from h r s = Inr s'"
  shows "\<exists>ts. system_shape s' \<and> queue_fits c (node_queues s' r) (filter (\<lambda>e. ta_handle e \<noteq> h) es) \<and>
    (\<forall>q. q \<noteq> r \<longrightarrow> node_queues s' q = node_queues s q) \<and> ts = take (length ts) (snd (node_queues s r)) \<and>
    snd (node_queues s' r) = drop (length ts) (snd (node_queues s r)) \<and>
    (wait_counters s', pool_added s') = notify ts s \<and>
    (\<forall>q. q \<noteq> r \<longrightarrow> nodes s' q = nodes s q) \<and> rn_last (nodes s' r) = rn_last (nodes s r)"
proof (cases "oldest_in h s r")
  case True
  then have q: "fst (node_queues s r) \<noteq> []" "ta_handle (hd (fst (node_queues s r))) = h" by (simp_all add: oldest_in_def)
  show ?thesis
    using deregister_head [OF ok True] run queue_fits_retire [OF fits d q h(2)] admitted_prefix [of "node_queues s r"]
    by (intro exI [of _ "spec_admitted (node_queues s r)"]) (auto simp: remove_from_def spec_retire_def)
next
  case False
  then have c: "\<not> c" using old by blast
  have "h \<in> ta_handle ` set (fst (node_queues s r))" using h queue_fits_running [OF fits] by blast
  from deregister_any [OF ok this] run False obtain j e where s': "system_shape s'" "wait_counters s' = wait_counters s"
      "pool_added s' = pool_added s" "\<forall>q. q \<noteq> r \<longrightarrow> nodes s' q = nodes s q" "rn_last (nodes s' r) = rn_last (nodes s r)"
      "node_queues s' = (node_queues s)(r := ((fst (node_queues s r))[j := e], snd (node_queues s r)))"
    and j: "j < length (fst (node_queues s r))" "ta_handle (fst (node_queues s r) ! j) = h" "ta_handle e = h"
    by (auto simp: remove_from_def)
  have "queue_fits False (node_queues s' r) (filter (\<lambda>e. ta_handle e \<noteq> h) es)"
    using queue_fits_mark [OF queue_fits_any [OF fits] j h(2)] s'(6) by simp
  then show ?thesis using s' c by (intro exI [of _ "[]"]) (simp add: notify_def)
qed

end
