(* ===== verification/Task_Runs.thy ===== *)
theory Task_Runs
  imports Task_Queues
begin

section \<open>Runs of tasks over all resources\<close>

text \<open>
  What the library promises as a whole: coroutines dispatch tasks, naming the resources they
  access, and tasks end. A dispatch registers the task at one queue after the other, and the
  destructor of a promise removes it from one queue after the other; any number of dispatches and
  ends interleave, one operation on one queue, or on the task's wait counter, being one step
  (Resource_Node_Safety takes the operation on one queue apart). Tasks end in any order. A task runs
  from the moment its dispatcher is told to run it, or its handle is passed to the pool.
\<close>

subsection \<open>States and steps\<close>

text \<open>
  Where a task is: its dispatcher has registered it at its first \<open>k\<close> resources; it is dispatched;
  its coroutine has ended and its promise has removed it from the first \<open>k\<close> of them.
\<close>

datatype phase = Registering nat | Dispatched | Leaving nat

record run_task =
  rt_handle :: nat
  rt_counter :: nat
  rt_accesses :: accesses
  rt_phase :: phase

text \<open>The live tasks, in the order in which their dispatches began, and the tasks that run.\<close>

record task_run =
  run_sys :: system
  run_live :: "run_task list"
  run_started :: "nat set"

definition new_task :: "nat \<Rightarrow> nat \<Rightarrow> accesses \<Rightarrow> run_task" where
  "new_task h p as = \<lparr>rt_handle = h, rt_counter = p, rt_accesses = as, rt_phase = Registering 0\<rparr>"

definition registering :: "run_task \<Rightarrow> bool" where
  "registering t \<longleftrightarrow> (\<exists>k. rt_phase t = Registering k)"

definition named :: "run_task \<Rightarrow> nat set" where
  "named t = fst ` set (rt_accesses t)"

text \<open>
  \<open>add_task\<close> demands that one thread at a time adds to a queue: a dispatch begins only when no other
  one under way has a resource in common with it (\<open>crossing_dispatches_block\<close> below shows why). Queues
  stay below their capacity. Tasks that run end and leave their queues in any order, before or after
  older ones that run beside them.
\<close>

inductive run_step :: "task_run \<Rightarrow> task_run \<Rightarrow> bool" where
  run_begin: "h \<notin> rt_handle ` set (run_live s) \<Longrightarrow> p \<notin> rt_counter ` set (run_live s) \<Longrightarrow> p \<noteq> 0 \<Longrightarrow>
     distinct (map fst as) \<Longrightarrow> length as < 2 ^ 16 \<Longrightarrow>
     list_all (\<lambda>t. registering t \<longrightarrow> named t \<inter> fst ` set as = {}) (run_live s) \<Longrightarrow>
     run_step s (s\<lparr>run_sys := start_dispatch p as (run_sys s), run_live := run_live s @ [new_task h p as]\<rparr>)"
| run_register: "run_live s = xs @ t # ys \<Longrightarrow> rt_phase t = Registering k \<Longrightarrow> k < length (rt_accesses t) \<Longrightarrow>
     rn_last (nodes (run_sys s) (fst (rt_accesses t ! k))) + 1 < node_capacity \<Longrightarrow>
     register_at (rt_handle t) (rt_counter t) (rt_accesses t ! k) (run_sys s) = Inr s' \<Longrightarrow>
     run_step s (s\<lparr>run_sys := s', run_live := xs @ t\<lparr>rt_phase := Registering (Suc k)\<rparr> # ys\<rparr>)"
| run_dispatched: "run_live s = xs @ t # ys \<Longrightarrow> rt_phase t = Registering (length (rt_accesses t)) \<Longrightarrow>
     end_dispatch (rt_counter t) (run_sys s) = (ready, s') \<Longrightarrow>
     run_step s (s\<lparr>run_sys := s', run_live := xs @ t\<lparr>rt_phase := Dispatched\<rparr> # ys,
       run_started := (if ready then insert (rt_handle t) (run_started s) else run_started s)\<rparr>)"
| run_end: "run_live s = xs @ t # ys \<Longrightarrow> rt_phase t = Dispatched \<Longrightarrow> rt_handle t \<in> run_started s \<Longrightarrow>
     run_step s (s\<lparr>run_live := xs @ t\<lparr>rt_phase := Leaving 0\<rparr> # ys\<rparr>)"
| run_leave: "run_live s = xs @ t # ys \<Longrightarrow> rt_phase t = Leaving k \<Longrightarrow> k < length (rt_accesses t) \<Longrightarrow>
     remove_from (rt_handle t) (fst (rt_accesses t ! k)) (run_sys s) = Inr s' \<Longrightarrow>
     run_step s (s\<lparr>run_sys := s', run_live := xs @ t\<lparr>rt_phase := Leaving (Suc k)\<rparr> # ys,
       run_started := run_started s \<union> newly_added (run_sys s) s'\<rparr>)"
| run_gone: "run_live s = xs @ t # ys \<Longrightarrow> rt_phase t = Leaving (length (rt_accesses t)) \<Longrightarrow>
     run_step s (s\<lparr>run_live := xs @ ys, run_started := run_started s - {rt_handle t}\<rparr>)"

definition run_start :: "task_run \<Rightarrow> bool" where
  "run_start s \<longleftrightarrow> system_ok (run_sys s) \<and> (\<forall>r. node_queues (run_sys s) r = ([], []) \<and>
     rn_last (nodes (run_sys s) r) < node_capacity) \<and> run_live s = [] \<and> run_started s = {}"

subsection \<open>The entries of a task\<close>

text \<open>The accesses with which a task stands in the queues, and the resources it has left.\<close>

definition present :: "run_task \<Rightarrow> accesses" where
  "present t = (case rt_phase t of
     Registering k \<Rightarrow> take k (rt_accesses t) | Dispatched \<Rightarrow> rt_accesses t | Leaving k \<Rightarrow> drop k (rt_accesses t))"

definition has_left :: "run_task \<Rightarrow> nat \<Rightarrow> bool" where
  "has_left t r \<longleftrightarrow> (\<exists>k. rt_phase t = Leaving k \<and> r \<in> fst ` set (take k (rt_accesses t)))"

definition queued :: "run_task \<Rightarrow> live_task" where
  "queued t = (rt_handle t, rt_counter t, present t)"

lemma queued_simps [simp]:
  "fst (queued t) = rt_handle t" "fst (snd (queued t)) = rt_counter t" "snd (snd (queued t)) = present t"
  by (simp_all add: queued_def)

lemma registering_simps [simp]:
  "rt_phase t = Registering k \<Longrightarrow> registering t" "rt_phase t = Dispatched \<Longrightarrow> \<not> registering t"
  "rt_phase t = Leaving k \<Longrightarrow> \<not> registering t"
  "registering (t\<lparr>rt_phase := Registering k\<rparr>)" "\<not> registering (t\<lparr>rt_phase := Dispatched\<rparr>)"
  "\<not> registering (t\<lparr>rt_phase := Leaving k\<rparr>)" "registering (new_task h p as)"
  by (simp_all add: registering_def new_task_def)

lemma present_simps [simp]:
  "present (t\<lparr>rt_phase := Registering k\<rparr>) = take k (rt_accesses t)"
  "present (t\<lparr>rt_phase := Dispatched\<rparr>) = rt_accesses t"
  "present (t\<lparr>rt_phase := Leaving k\<rparr>) = drop k (rt_accesses t)"
  "rt_phase t = Registering k \<Longrightarrow> present t = take k (rt_accesses t)"
  "rt_phase t = Dispatched \<Longrightarrow> present t = rt_accesses t"
  "rt_phase t = Leaving k \<Longrightarrow> present t = drop k (rt_accesses t)"
  "present (new_task h p as) = []"
  by (simp_all add: present_def new_task_def)

lemma named_simps [simp]: "named (t\<lparr>rt_phase := ph\<rparr>) = named t" "named (new_task h p as) = fst ` set as"
  by (simp_all add: named_def new_task_def)

lemma present_named: "fst ` set (present t) \<subseteq> named t"
  by (auto simp: present_def named_def dest: in_set_takeD in_set_dropD split: phase.splits)

lemma has_left_simps [simp]:
  "\<not> has_left (t\<lparr>rt_phase := Registering k\<rparr>) r" "\<not> has_left (t\<lparr>rt_phase := Dispatched\<rparr>) r"
  "has_left (t\<lparr>rt_phase := Leaving k\<rparr>) r \<longleftrightarrow> r \<in> fst ` set (take k (rt_accesses t))"
  "rt_phase t = Leaving k \<Longrightarrow> has_left t r \<longleftrightarrow> r \<in> fst ` set (take k (rt_accesses t))"
  "registering t \<Longrightarrow> \<not> has_left t r" "rt_phase t = Dispatched \<Longrightarrow> \<not> has_left t r"
  by (auto simp: has_left_def registering_def)

lemma present_or_left:
  assumes "\<not> registering t" and "r \<in> named t"
  shows "r \<in> fst ` set (present t) \<or> has_left t r"
proof (cases "rt_phase t")
  case (Leaving k)
  have "set (rt_accesses t) = set (take k (rt_accesses t)) \<union> set (drop k (rt_accesses t))"
    by (metis append_take_drop_id set_append)
  then show ?thesis using assms(2) Leaving by (auto simp: named_def)
qed (use assms in \<open>auto simp: named_def\<close>)

lemma entries_not_named: "(\<And>u. u \<in> set ts \<Longrightarrow> r \<notin> named u) \<Longrightarrow> entries_at r (map queued ts) = []"
proof (induction ts)
  case (Cons u ts)
  then have "r \<notin> fst ` set (present u)" using present_named [of u] by auto
  then have "map_of (present u) r = None" by (simp add: map_of_eq_None_iff)
  then have "entry_of r (queued u) = []" by (simp add: entry_of_def queued_def)
  then show ?case using Cons by simp
qed simp

lemma map_of_named: "r \<in> fst ` set as \<Longrightarrow> \<exists>m. map_of as r = Some m"
  by (cases "map_of as r") (auto simp: map_of_eq_None_iff)

lemma map_of_Some_named: "map_of as r = Some m \<Longrightarrow> r \<in> fst ` set as"
  by (metis domI dom_map_of_conv_image_fst)

text \<open>One access more, and one less.\<close>

lemma take_access:
  assumes "distinct (map fst as)" and "k < length as" and "as ! k = (r, m)"
  shows "map_of (take (Suc k) as) = (map_of (take k as))(r \<mapsto> m)" "r \<notin> fst ` set (take k as)"
proof -
  have d: "distinct (map fst (take k as @ [(r, m)]))"
    using assms by (metis distinct_take take_Suc_conv_app_nth take_map)
  then show r: "r \<notin> fst ` set (take k as)" by simp
  then have "map_of (take k as) r = None" by (simp add: map_of_eq_None_iff)
  then have "map_of (take (Suc k) as) q = ((map_of (take k as))(r \<mapsto> m)) q" for q
    using assms(2,3) by (cases "q = r") (simp_all add: take_Suc_conv_app_nth map_add_def split: option.split)
  then show "map_of (take (Suc k) as) = (map_of (take k as))(r \<mapsto> m)" by blast
qed

lemma drop_access:
  assumes "distinct (map fst as)" and "k < length as" and "as ! k = (r, m)"
  shows "map_of (drop k as) = (map_of (drop (Suc k) as))(r \<mapsto> m)" "map_of (drop (Suc k) as) r = None"
proof -
  have e: "drop k as = (r, m) # drop (Suc k) as" using assms(2,3) by (metis Cons_nth_drop_Suc)
  have "distinct (map fst (drop k as))" using assms(1) by (simp add: distinct_drop flip: drop_map)
  then show "map_of (drop (Suc k) as) r = None" by (simp add: e map_of_eq_None_iff)
  show "map_of (drop k as) = (map_of (drop (Suc k) as))(r \<mapsto> m)" by (simp add: e)
qed

subsection \<open>The invariant\<close>

text \<open>What the dispatcher has still to take from the counter.\<close>

definition owed :: "run_task \<Rightarrow> nat" where
  "owed t = (case rt_phase t of Registering k \<Rightarrow> 2 ^ 31 + (length (rt_accesses t) - k) | _ \<Rightarrow> 0)"

lemma owed_simps [simp]:
  "rt_phase t = Registering k \<Longrightarrow> owed t = 2 ^ 31 + (length (rt_accesses t) - k)"
  "owed (t\<lparr>rt_phase := Registering k\<rparr>) = 2 ^ 31 + (length (rt_accesses t) - k)"
  "owed (t\<lparr>rt_phase := Dispatched\<rparr>) = 0" "owed (t\<lparr>rt_phase := Leaving k\<rparr>) = 0" "\<not> registering t \<Longrightarrow> owed t = 0"
  "owed (new_task h p as) = 2 ^ 31 + length as"
  by (auto simp: owed_def new_task_def registering_def split: phase.split)

definition task_ok :: "system \<Rightarrow> nat set \<Rightarrow> run_task \<Rightarrow> bool" where
  "task_ok s started t \<longleftrightarrow> rt_counter t \<noteq> 0 \<and> distinct (map fst (rt_accesses t)) \<and> length (rt_accesses t) < 2 ^ 16 \<and>
     (case rt_phase t of Registering k \<Rightarrow> k \<le> length (rt_accesses t) | Dispatched \<Rightarrow> True | Leaving k \<Rightarrow> k \<le> length (rt_accesses t)) \<and>
     wait_counters s (rt_counter t) = of_nat (owed t + card (waiting_at (node_queues s) (rt_handle t))) \<and>
     (rt_handle t \<in> started \<longleftrightarrow> \<not> registering t \<and> waiting_at (node_queues s) (rt_handle t) = {}) \<and>
     ((\<exists>k. rt_phase t = Leaving k) \<longrightarrow> rt_handle t \<in> started)"

text \<open>A younger task does not leave a resource before an older one that conflicts with it there.\<close>

definition before_ok :: "run_task \<Rightarrow> run_task \<Rightarrow> bool" where
  "before_ok t u \<longleftrightarrow> (registering t \<longrightarrow> named t \<inter> named u = {}) \<and>
     (\<forall>r m1 m2. map_of (present t) r = Some m1 \<longrightarrow> map_of (rt_accesses u) r = Some m2 \<longrightarrow>
       is_serial_access m1 m2 \<longrightarrow> \<not> has_left u r)"

text \<open>
  The queues hold the entries of the live tasks; if \<open>clean\<close>, no others. A task that leaves a queue
  before an older one that runs beside it leaves its entry behind.
\<close>

definition run_inv :: "bool \<Rightarrow> task_run \<Rightarrow> bool" where
  "run_inv clean s \<longleftrightarrow> system_shape (run_sys s) \<and> (\<forall>r. rn_last (nodes (run_sys s) r) < node_capacity) \<and>
     distinct (map rt_handle (run_live s)) \<and> distinct (map rt_counter (run_live s)) \<and>
     (\<forall>r. queue_fits clean (node_queues (run_sys s) r) (entries_at r (map queued (run_live s)))) \<and>
     (\<forall>t \<in> set (run_live s). task_ok (run_sys s) (run_started s) t) \<and>
     sorted_wrt before_ok (run_live s) \<and> run_started s \<subseteq> rt_handle ` set (run_live s)"

definition no_leftovers :: "task_run \<Rightarrow> bool" where
  "no_leftovers s \<longleftrightarrow> (\<forall>r. fst (node_queues (run_sys s) r) @ snd (node_queues (run_sys s) r) = entries_at r (map queued (run_live s)))"

lemma run_inv_clean: "run_inv True s \<longleftrightarrow> run_inv False s \<and> no_leftovers s"
  by (auto simp: run_inv_def no_leftovers_def queue_fits_clean intro: queue_fits_any)
    (metis queue_fits_any queue_fits_clean)

lemma run_inv_init: "run_start s \<Longrightarrow> run_inv clean s"
  by (simp add: run_start_def run_inv_def queue_fits_def system_ok_shape)

lemma run_inv_parts:
  assumes "run_inv c s"
  shows "system_shape (run_sys s)" "rn_last (nodes (run_sys s) r) < node_capacity"
    "distinct (map rt_handle (run_live s))" "distinct (map rt_counter (run_live s))"
    "queue_fits c (node_queues (run_sys s) r) (entries_at r (map queued (run_live s)))"
    "sorted_wrt before_ok (run_live s)" "run_started s \<subseteq> rt_handle ` set (run_live s)"
  using assms by (simp_all add: run_inv_def)

lemma run_inv_task: "run_inv c s \<Longrightarrow> t \<in> set (run_live s) \<Longrightarrow> task_ok (run_sys s) (run_started s) t"
  by (simp add: run_inv_def)

lemma task_ok_parts:
  assumes "task_ok s st t"
  shows "rt_counter t \<noteq> 0" "distinct (map fst (rt_accesses t))" "length (rt_accesses t) < 2 ^ 16"
    "wait_counters s (rt_counter t) = of_nat (owed t + card (waiting_at (node_queues s) (rt_handle t)))"
    "rt_handle t \<in> st \<longleftrightarrow> \<not> registering t \<and> waiting_at (node_queues s) (rt_handle t) = {}"
    "rt_phase t = Leaving k \<Longrightarrow> rt_handle t \<in> st"
    "rt_phase t = Leaving k \<or> rt_phase t = Registering k \<Longrightarrow> k \<le> length (rt_accesses t)"
  using assms by (auto simp: task_ok_def)

lemma task_ok_same:
  "task_ok s st t \<Longrightarrow> wait_counters s' (rt_counter t) = wait_counters s (rt_counter t) \<Longrightarrow>
   waiting_at (node_queues s') (rt_handle t) = waiting_at (node_queues s) (rt_handle t) \<Longrightarrow>
   rt_handle t \<in> st' \<longleftrightarrow> rt_handle t \<in> st \<Longrightarrow> task_ok s' st' t"
  unfolding task_ok_def by auto

lemma queued_names:
  assumes "run_inv c s" and "t \<in> set (run_live s)" and "e \<in> set (entries_at r (map queued (run_live s)))"
  shows "ta_handle e = rt_handle t \<longleftrightarrow> ta_wait e = rt_counter t"
  by (rule entries_at_names [of "map queued (run_live s)" _ _ "present t"])
    (use assms run_inv_parts(3,4) [OF assms(1)] in \<open>auto simp: comp_def queued_def\<close>)

lemma queued_named:
  assumes inv: "run_inv c s" and t: "t \<in> set (run_live s)"
    and e: "e \<in> set (entries_at r (map queued (run_live s)))" "ta_handle e = rt_handle t"
  shows "r \<in> fst ` set (present t)"
proof -
  obtain u where u: "u \<in> set (run_live s)" "e \<in> set (entry_of r (queued u))"
    using entries_at_task [OF e(1)] by auto
  have "u = t" using run_inv_parts(3) [OF inv] t u(1) entry_of_task [OF u(2)] e(2) by (auto simp: distinct_map inj_on_def)
  then show ?thesis using entry_of_task [OF u(2)] by simp
qed

lemma waiting_present:
  assumes inv: "run_inv c s" and t: "t \<in> set (run_live s)"
  shows "waiting_at (node_queues (run_sys s)) (rt_handle t) \<subseteq> fst ` set (present t)"
proof
  fix r assume "r \<in> waiting_at (node_queues (run_sys s)) (rt_handle t)"
  then obtain e where e: "e \<in> set (snd (node_queues (run_sys s) r))" "ta_handle e = rt_handle t" by (auto simp: waiting_at_def)
  have "e \<in> set (entries_at r (map queued (run_live s)))" using e(1) queue_fits_waiting [OF run_inv_parts(5) [OF inv]] by blast
  then show "r \<in> fst ` set (present t)" using queued_named [OF inv t] e(2) by blast
qed

lemma waiting_card:
  assumes "run_inv c s" and "t \<in> set (run_live s)"
  shows "finite (waiting_at (node_queues (run_sys s)) (rt_handle t))"
    "card (waiting_at (node_queues (run_sys s)) (rt_handle t)) < 2 ^ 16"
proof -
  let ?W = "waiting_at (node_queues (run_sys s)) (rt_handle t)"
  have sub: "?W \<subseteq> fst ` set (rt_accesses t)"
    using waiting_present [OF assms] present_named [of t] by (auto simp: named_def)
  then show "finite ?W" by (rule finite_subset) simp
  have "card ?W \<le> card (set (map fst (rt_accesses t)))" using card_mono [OF _ sub] by simp
  also have "\<dots> \<le> length (rt_accesses t)" using card_length [of "map fst (rt_accesses t)"] by simp
  finally show "card ?W < 2 ^ 16" using task_ok_parts(3) [OF run_inv_task [OF assms]] by simp
qed

lemma live_entries_distinct: "run_inv c s \<Longrightarrow> distinct (map ta_handle (entries_at r (map queued (run_live s))))"
  by (rule entries_at_distinct) (simp add: comp_def run_inv_parts(3))

subsection \<open>Every step keeps the invariant\<close>

lemma other_names:
  assumes "run_inv c s" and "run_live s = xs @ t # ys" and "u \<in> set xs \<union> set ys"
  shows "rt_handle u \<noteq> rt_handle t" "rt_counter u \<noteq> rt_counter t" "u \<in> set (run_live s)"
proof -
  have "rt_handle t \<notin> rt_handle ` (set xs \<union> set ys)" "rt_counter t \<notin> rt_counter ` (set xs \<union> set ys)"
    using run_inv_parts(3,4) [OF assms(1)] by (auto simp: assms(2))
  then show "rt_handle u \<noteq> rt_handle t" "rt_counter u \<noteq> rt_counter t" "u \<in> set (run_live s)"
    using assms(2,3) by (metis image_eqI, metis image_eqI, auto)
qed

lemma run_inv_update:
  assumes inv: "run_inv c s" and live: "run_live s = xs @ t # ys"
    and names: "rt_handle t' = rt_handle t" "rt_counter t' = rt_counter t"
    and sys: "system_shape s'" "\<And>r. rn_last (nodes s' r) < node_capacity"
    and q: "\<And>r. queue_fits c (node_queues s' r)
      (entries_at r (map queued xs) @ entry_of r (queued t') @ entries_at r (map queued ys))"
    and own: "task_ok s' st' t'" and others: "\<And>u. u \<in> set xs \<union> set ys \<Longrightarrow> task_ok s' st' u"
    and order: "\<And>u. u \<in> set xs \<Longrightarrow> before_ok u t \<Longrightarrow> before_ok u t'"
      "\<And>u. u \<in> set ys \<Longrightarrow> before_ok t u \<Longrightarrow> before_ok t' u"
    and st: "st' \<subseteq> rt_handle ` set (run_live s)"
  shows "run_inv c (s\<lparr>run_sys := s', run_live := xs @ t' # ys, run_started := st'\<rparr>)"
proof -
  have "sorted_wrt before_ok (xs @ t' # ys)"
    using run_inv_parts(6) [OF inv] order by (auto simp: live sorted_wrt_append)
  then show ?thesis
    using run_inv_parts(3,4) [OF inv] sys q own others st names by (auto simp: run_inv_def live)
qed

lemma start_dispatch_eq:
  "length as < 2 ^ 16 \<Longrightarrow> start_dispatch p as s = s\<lparr>wait_counters := (wait_counters s)(p := of_nat (2 ^ 31 + length as))\<rparr>"
  using counter_32 [of "length as"] by (simp add: start_dispatch_def resource_counter_eq fetch_add_def invalid_eq)

lemma begin_keeps_inv:
  assumes inv: "run_inv c s" and fresh: "h \<notin> rt_handle ` set (run_live s)" "p \<notin> rt_counter ` set (run_live s)" "p \<noteq> 0"
    and as: "distinct (map fst as)" "length as < 2 ^ 16"
    and alone: "list_all (\<lambda>t. registering t \<longrightarrow> named t \<inter> fst ` set as = {}) (run_live s)"
  shows "run_inv c (s\<lparr>run_sys := start_dispatch p as (run_sys s), run_live := run_live s @ [new_task h p as]\<rparr>)"
proof -
  note parts = run_inv_parts [OF inv]
  let ?s = "start_dispatch p as (run_sys s)" and ?t = "new_task h p as"
  have s: "node_queues ?s = node_queues (run_sys s)" "system_shape ?s" "nodes ?s = nodes (run_sys s)"
    "wait_counters ?s = (wait_counters (run_sys s))(p := of_nat (2 ^ 31 + length as))"
    using parts(1) by (simp_all add: start_dispatch_eq [OF as(2)])
  have "h \<notin> ta_handle ` set (snd (node_queues (run_sys s) r))" for r
    using queue_fits_waiting [OF parts(5) [of r]] fresh(1) entries_at_handles [of r "map queued (run_live s)"] by fastforce
  then have w: "waiting_at (node_queues (run_sys s)) h = {}" by (simp add: waiting_at_def)
  have "task_ok ?s (run_started s) u" if u: "u \<in> set (run_live s)" for u
    by (rule task_ok_same [OF run_inv_task [OF inv u]]) (use u fresh(2) s in auto)
  moreover have "h \<notin> run_started s" using parts(7) fresh(1) by blast
  then have "task_ok ?s (run_started s) ?t"
    using fresh(3) as s w by (simp add: task_ok_def) (simp add: new_task_def)
  moreover have "before_ok u ?t" if "u \<in> set (run_live s)" for u
    using alone that by (auto simp: before_ok_def list_all_iff)
  moreover have "rt_handle ?t = h" "rt_counter ?t = p" "entry_of r (queued ?t) = []" for r
    by (simp_all add: entry_of_def queued_def) (simp_all add: new_task_def)
  ultimately show ?thesis
    using parts fresh s by (auto simp: run_inv_def sorted_wrt_append)
qed

text \<open>One registration.\<close>

lemma add_waiting:
  "waiting_at (qs(r := spec_add e (qs r))) h =
    (if h = ta_handle e \<and> \<not> starts_now e (qs r) then insert r (waiting_at qs h) else waiting_at qs h)"
  by (auto simp: waiting_at_def spec_add_def starts_now_def)

lemma register_keeps_inv:
  assumes inv: "run_inv c s" and live: "run_live s = xs @ t # ys" and ph: "rt_phase t = Registering k"
    and k: "k < length (rt_accesses t)"
    and room: "rn_last (nodes (run_sys s) (fst (rt_accesses t ! k))) + 1 < node_capacity"
    and run: "register_at (rt_handle t) (rt_counter t) (rt_accesses t ! k) (run_sys s) = Inr s'"
  shows "run_inv c (s\<lparr>run_sys := s', run_live := xs @ t\<lparr>rt_phase := Registering (Suc k)\<rparr> # ys\<rparr>)"
proof -
  note parts = run_inv_parts [OF inv]
  have t: "t \<in> set (run_live s)" by (simp add: live)
  note ok = task_ok_parts [OF run_inv_task [OF inv t]]
  obtain r m where a: "rt_accesses t ! k = (r, m)" by fastforce
  let ?q = "node_queues (run_sys s)" and ?e = "make_access (rt_handle t) m (rt_counter t)"
  let ?t = "t\<lparr>rt_phase := Registering (Suc k)\<rparr>" and ?h = "rt_handle t"
  have "rn_last (nodes (run_sys s) r) < node_capacity" using room a by simp
  from register_one [OF parts(1) this ok(1) refl, of ?h m] run a have s':
    "system_shape s'" "node_queues s' = ?q(r := spec_add ?e (?q r))"
    "wait_counters s' = (if starts_now ?e (?q r)
       then (wait_counters (run_sys s))(rt_counter t := wait_counters (run_sys s) (rt_counter t) - 1)
       else wait_counters (run_sys s))"
    "\<And>q. q \<noteq> r \<Longrightarrow> nodes s' q = nodes (run_sys s) q" "rn_last (nodes s' r) = Suc (rn_last (nodes (run_sys s) r))"
    by (auto simp: register_at_def)
  have e: "ta_handle ?e = ?h" by (simp add: make_access_def)
  note acc = take_access [OF ok(2) k a]
  have new: "r \<notin> waiting_at ?q ?h" using waiting_present [OF inv t] acc(2) ph by auto
  have "named t \<inter> named u = {}" if "u \<in> set ys" for u
    using parts(6) that ph by (auto simp: live sorted_wrt_append before_ok_def)
  moreover have "(r, m) \<in> set (rt_accesses t)" using nth_mem [OF k] a by simp
  then have "r \<in> named t" by (force simp: named_def)
  ultimately have later: "entries_at r (map queued ys) = []" by (intro entries_not_named) blast
  have entry: "entry_of q (queued ?t) = (if q = r then [?e] else entry_of q (queued t))" "entry_of r (queued t) = []" for q
    using acc ph by (auto simp: entry_of_def queued_def map_of_eq_None_iff split: option.split)
  have queue: "queue_fits c (node_queues s' q)
      (entries_at q (map queued xs) @ entry_of q (queued ?t) @ entries_at q (map queued ys))" for q
    using parts(5) [of q] later entry(2) queue_fits_add [of c "?q r" _ ?e] by (auto simp: s'(2) entry(1) live)
  have others: "task_ok s' (run_started s) u" if "u \<in> set xs \<union> set ys" for u
    by (rule task_ok_same [OF run_inv_task [OF inv other_names(3) [OF inv live that]]])
      (use other_names [OF inv live that] in \<open>simp_all add: s'(2,3) add_waiting make_access_def\<close>)
  have fin: "finite (waiting_at ?q ?h)" by (rule waiting_card(1) [OF inv t])
  let ?n = "length (rt_accesses t)"
  let ?N = "2 ^ 31 + (?n - Suc k) + card (waiting_at ?q ?h)"
  have n: "owed t + card (waiting_at ?q ?h) = Suc ?N" using k ph by simp
  have c: "wait_counters (run_sys s) (rt_counter t) = of_nat (Suc ?N)" using ok(4) unfolding n .
  have c': "wait_counters s' (rt_counter t) = of_nat (2 ^ 31 + (?n - Suc k) + card (waiting_at (node_queues s') ?h))"
  proof (cases "starts_now ?e (?q r)")
    case True
    then have "waiting_at (node_queues s') ?h = waiting_at ?q ?h" unfolding s'(2) add_waiting by simp
    moreover have "wait_counters s' (rt_counter t) = of_nat (Suc ?N) - 1" using True c by (simp only: s'(3) if_True fun_upd_same)
    ultimately show ?thesis by simp
  next
    case False
    then have "waiting_at (node_queues s') ?h = insert r (waiting_at ?q ?h)" unfolding s'(2) add_waiting e by simp
    moreover have "wait_counters s' (rt_counter t) = of_nat (Suc ?N)" using False c by (simp only: s'(3) if_False)
    ultimately show ?thesis using new fin by simp
  qed
  have own: "task_ok s' (run_started s) ?t"
    using run_inv_task [OF inv t] ph k c' by (simp add: task_ok_def)
  have "run_inv c (s\<lparr>run_sys := s', run_live := xs @ ?t # ys, run_started := run_started s\<rparr>)"
  proof (rule run_inv_update [OF inv live _ _ s'(1) _ queue own others _ _ parts(7)])
    show "rn_last (nodes s' q) < node_capacity" for q using s'(4,5) parts(2) room a by (cases "q = r") simp_all
    show "before_ok u ?t" if "before_ok u t" for u using that ph by (simp add: before_ok_def)
    show "before_ok ?t u" if "u \<in> set ys" "before_ok t u" for u
    proof -
      have "named t \<inter> named u = {}" using that(2) ph by (simp add: before_ok_def)
      moreover have "fst ` set (present ?t) \<subseteq> named t" by (auto simp: named_def dest: in_set_takeD)
      ultimately have "map_of (present ?t) q = Some m1 \<Longrightarrow> map_of (rt_accesses u) q = Some m2 \<Longrightarrow> False" for q m1 m2
        using map_of_Some_named [of "present ?t" q m1] map_of_Some_named [of "rt_accesses u" q m2]
        unfolding named_def by blast
      then show ?thesis using \<open>named t \<inter> named u = {}\<close> by (auto simp: before_ok_def)
    qed
  qed simp_all
  then show ?thesis by simp
qed

text \<open>The end of a dispatch.\<close>

lemma dispatched_keeps_inv:
  assumes inv: "run_inv c s" and live: "run_live s = xs @ t # ys"
    and ph: "rt_phase t = Registering (length (rt_accesses t))"
    and run: "end_dispatch (rt_counter t) (run_sys s) = (ready, s')"
  shows "run_inv c (s\<lparr>run_sys := s', run_live := xs @ t\<lparr>rt_phase := Dispatched\<rparr> # ys,
       run_started := (if ready then insert (rt_handle t) (run_started s) else run_started s)\<rparr>)"
proof -
  note parts = run_inv_parts [OF inv]
  have t: "t \<in> set (run_live s)" by (simp add: live)
  note ok = task_ok_parts [OF run_inv_task [OF inv t]]
  let ?W = "waiting_at (node_queues (run_sys s)) (rt_handle t)" and ?p = "rt_counter t" and ?t = "t\<lparr>rt_phase := Dispatched\<rparr>"
  have c: "wait_counters (run_sys s) ?p = of_nat (2 ^ 31 + card ?W)" using ok(4) ph by simp
  have "(of_nat (2 ^ 31 + card ?W) :: u32) = of_nat (2 ^ 31) \<longleftrightarrow> 2 ^ 31 + card ?W = 2 ^ 31"
    by (rule of_nat_u32_eq) (use waiting_card(2) [OF inv t] in auto)
  then have ready: "ready \<longleftrightarrow> ?W = {}"
    using run c waiting_card(1) [OF inv t] by (auto simp: end_dispatch_def fetch_sub_def Let_def invalid_eq)
  have s': "s' = (run_sys s)\<lparr>wait_counters := (wait_counters (run_sys s))(?p := of_nat (card ?W))\<rparr>"
    using run c by (auto simp: end_dispatch_def fetch_sub_def Let_def invalid_eq)
  let ?st = "if ready then insert (rt_handle t) (run_started s) else run_started s"
  have same: "node_queues s' = node_queues (run_sys s)" "system_shape s'" "nodes s' = nodes (run_sys s)"
    using parts(1) by (simp_all add: s')
  have others: "task_ok s' ?st u" if "u \<in> set xs \<union> set ys" for u
    by (rule task_ok_same [OF run_inv_task [OF inv other_names(3) [OF inv live that]]])
      (use other_names [OF inv live that] in \<open>simp_all add: s'\<close>)
  have "rt_handle t \<notin> run_started s" using ok(5) ph by simp
  then have own: "task_ok s' ?st ?t"
    using ok(1-3) ready by (simp add: task_ok_def same(1)) (simp add: s')
  have order: "before_ok u t \<Longrightarrow> before_ok u ?t" "before_ok t u \<Longrightarrow> before_ok ?t u" for u
    using ph by (auto simp: before_ok_def)
  have "run_inv c (s\<lparr>run_sys := s', run_live := xs @ ?t # ys, run_started := ?st\<rparr>)"
  proof (rule run_inv_update [OF inv live _ _ same(2) _ _ own others order])
    show "queue_fits c (node_queues s' r) (entries_at r (map queued xs) @ entry_of r (queued ?t) @ entries_at r (map queued ys))" for r
      using parts(5) [of r] ph by (simp add: same(1) live queued_def)
    show "?st \<subseteq> rt_handle ` set (run_live s)" using parts(7) t by auto
  qed (use parts(2) in \<open>simp_all add: same(3)\<close>)
  then show ?thesis by simp
qed

text \<open>The end of a task.\<close>

lemma end_keeps_inv:
  assumes inv: "run_inv c s" and live: "run_live s = xs @ t # ys" and ph: "rt_phase t = Dispatched"
    and st: "rt_handle t \<in> run_started s"
  shows "run_inv c (s\<lparr>run_live := xs @ t\<lparr>rt_phase := Leaving 0\<rparr> # ys\<rparr>)"
proof -
  note parts = run_inv_parts [OF inv]
  have t: "t \<in> set (run_live s)" by (simp add: live)
  note ok = task_ok_parts [OF run_inv_task [OF inv t]]
  let ?t = "t\<lparr>rt_phase := Leaving 0\<rparr>"
  have others: "task_ok (run_sys s) (run_started s) u" if "u \<in> set xs \<union> set ys" for u
    by (rule run_inv_task [OF inv other_names(3) [OF inv live that]])
  have own: "task_ok (run_sys s) (run_started s) ?t"
    using ok(1-5) st ph by (simp add: task_ok_def)
  have order: "before_ok u t \<Longrightarrow> before_ok u ?t" "before_ok t u \<Longrightarrow> before_ok ?t u" for u
    using ph by (auto simp: before_ok_def)
  have "run_inv c (s\<lparr>run_sys := run_sys s, run_live := xs @ ?t # ys, run_started := run_started s\<rparr>)"
  proof (rule run_inv_update [OF inv live _ _ parts(1,2) _ own others order parts(7)])
    show "queue_fits c (node_queues (run_sys s) r)
        (entries_at r (map queued xs) @ entry_of r (queued ?t) @ entries_at r (map queued ys))" for r
      using parts(5) [of r] ph by (simp add: live queued_def)
  qed simp_all
  then show ?thesis by simp
qed

text \<open>A task waits behind an older one with which it conflicts.\<close>

lemma conflicting_task_waits:
  assumes inv: "run_inv c s" and live: "run_live s = xs @ t1 # ys @ t2 # zs"
    and m: "map_of (present t1) r = Some m1" "map_of (present t2) r = Some m2" and conflict: "is_serial_access m1 m2"
  shows "r \<in> waiting_at (node_queues (run_sys s)) (rt_handle t2)"
proof (rule ccontr)
  let ?q = "node_queues (run_sys s) r" and ?e = "\<lambda>ts. entries_at r (map queued ts)"
  let ?e1 = "make_access (rt_handle t1) m1 (rt_counter t1)" and ?e2 = "make_access (rt_handle t2) m2 (rt_counter t2)"
  assume "r \<notin> waiting_at (node_queues (run_sys s)) (rt_handle t2)"
  then have no: "?e2 \<notin> set (snd ?q)" by (force simp: waiting_at_def make_access_def)
  have "queue_fits c ?q (?e xs @ ?e1 # ?e ys @ ?e2 # ?e zs)"
    using run_inv_parts(5) [OF inv, of r] m by (simp add: live entry_of_def queued_def)
  from queue_fits_order [OF this no] obtain i j where
    "i < j" "j < length (fst ?q)" "fst ?q ! i = ?e1" "fst ?q ! j = ?e2" by blast
  then show False
    using running_are_parallel [OF run_inv_parts(1) [OF inv], of i r j] conflict by (simp add: make_access_def)
qed

text \<open>The entries when one task leaves.\<close>

lemma entries_without:
  assumes inv: "run_inv c s" and live: "run_live s = xs @ t # ys"
  shows "filter (\<lambda>e. ta_handle e \<noteq> rt_handle t) (entries_at r (map queued (run_live s))) =
    entries_at r (map queued xs) @ entries_at r (map queued ys)"
proof -
  have "filter (\<lambda>u. fst u \<noteq> rt_handle t) (map queued (run_live s)) = map queued (xs @ ys)"
    using other_names(1) [OF inv live] by (simp add: live filter_map filter_id_conv comp_def)
  then show ?thesis by (simp flip: entries_at_remove)
qed

lemma leave_keeps_inv:
  assumes inv: "run_inv c s" and live: "run_live s = xs @ t # ys" and ph: "rt_phase t = Leaving k"
    and k: "k < length (rt_accesses t)"
    and old: "c \<Longrightarrow> oldest_in (rt_handle t) (run_sys s) (fst (rt_accesses t ! k))"
    and run: "remove_from (rt_handle t) (fst (rt_accesses t ! k)) (run_sys s) = Inr s'"
  shows "run_inv c (s\<lparr>run_sys := s', run_live := xs @ t\<lparr>rt_phase := Leaving (Suc k)\<rparr> # ys,
       run_started := run_started s \<union> newly_added (run_sys s) s'\<rparr>)"
proof -
  note parts = run_inv_parts [OF inv]
  have t: "t \<in> set (run_live s)" by (simp add: live)
  note ok = task_ok_parts [OF run_inv_task [OF inv t]]
  obtain r m where a: "rt_accesses t ! k = (r, m)" by fastforce
  let ?q = "node_queues (run_sys s)" and ?h = "rt_handle t" and ?t = "t\<lparr>rt_phase := Leaving (Suc k)\<rparr>"
  let ?new = "newly_added (run_sys s) s'" and ?es = "entries_at r (map queued (run_live s))"
  note acc = drop_access [OF ok(2) k a]
  have here: "map_of (present t) r = Some m" using acc(1) ph by simp
  have "entry_of r (queued t) = [make_access ?h m (rt_counter t)]" using here by (simp add: entry_of_def queued_def)
  then have "make_access ?h m (rt_counter t) \<in> set ?es" by (simp add: live)
  then have mine: "?h \<in> ta_handle ` set ?es" by (force simp: make_access_def)
  have idle: "waiting_at ?q ?h = {}" using ok(5,6) ph by simp
  then have "?h \<notin> ta_handle ` set (snd (?q r))" by (auto simp: waiting_at_def)
  from removal_effect [OF parts(1,5) live_entries_distinct [OF inv] mine this, of s'] old run a obtain ts where
    s': "system_shape s'" "queue_fits c (node_queues s' r) (filter (\<lambda>e. ta_handle e \<noteq> ?h) ?es)"
    "\<And>q. q \<noteq> r \<Longrightarrow> node_queues s' q = ?q q" "snd (node_queues s' r) = drop (length ts) (snd (?q r))"
    "(wait_counters s', pool_added s') = notify ts (run_sys s)"
    "\<And>q. q \<noteq> r \<Longrightarrow> nodes s' q = nodes (run_sys s) q" "rn_last (nodes s' r) = rn_last (nodes (run_sys s) r)"
    and ts: "ts = take (length ts) (snd (?q r))"
    by auto
  have sub: "set ts \<subseteq> set (snd (?q r))" using ts by (metis set_take_subset)
  then have queued: "x \<in> set ?es" if "x \<in> set ts" for x
    using that queue_fits_waiting [OF parts(5) [of r]] by blast
  have dq: "distinct (map ta_handle (snd (?q r)))"
    by (rule queue_fits_distinct [OF parts(5) live_entries_distinct [OF inv]])
  then have d: "distinct (map ta_handle ts)" by (subst ts) (simp add: take_map [symmetric])
  have new: "?new \<subseteq> ta_handle ` set ts"
    using fold_signal_added [of ts "world_at 0 (run_sys s)"] s'(5) by (auto simp: notify_def Let_def newly_added_def)
  have all: "(wait_counters s' (rt_counter u) = of_nat (owed u + card (waiting_at (node_queues s') (rt_handle u)))) \<and>
      (rt_handle u \<in> run_started s \<union> ?new \<longleftrightarrow> \<not> registering u \<and> waiting_at (node_queues s') (rt_handle u) = {})"
    if u: "u \<in> set (run_live s)" for u
  proof -
    note uok = task_ok_parts [OF run_inv_task [OF inv u]]
    let ?W = "waiting_at ?q (rt_handle u)" and ?in = "rt_handle u \<in> ta_handle ` set ts"
    have "rt_handle u \<in> ta_handle ` set (snd (node_queues s' r)) \<longleftrightarrow> rt_handle u \<in> ta_handle ` set (snd (?q r)) \<and> \<not> ?in"
      using drop_waiting [OF dq, of "rt_handle u" "length ts"] by (simp add: s'(4) flip: ts)
    then have "q \<in> waiting_at (node_queues s') (rt_handle u) \<longleftrightarrow> q \<in> (if ?in then ?W - {r} else ?W)" for q
      using s'(3) [of q] by (cases "q = r") (auto simp: waiting_at_def)
    then have W': "waiting_at (node_queues s') (rt_handle u) = (if ?in then ?W - {r} else ?W)" by blast
    have rW: "r \<in> ?W" if ?in using sub that by (auto simp: waiting_at_def)
    note W = waiting_card [OF inv u]
    have pos: "0 < card ?W" if ?in using rW [OF that] W(1) by (auto simp: card_gt_0_iff)
    have n: "length (filter (\<lambda>t. ta_handle t = rt_handle u) ts) = (if ?in then 1 else 0)"
      by (rule distinct_filter_length [OF d])
    have le: "length (filter (\<lambda>t. ta_handle t = rt_handle u) ts) \<le> owed u + card ?W" using n pos by (auto split: if_splits)
    have "owed u \<le> 2 ^ 31 + 2 ^ 16" using uok(3) by (auto simp: owed_def split: phase.split)
    then have small: "owed u + card ?W < 2 ^ 32" using W(2) by simp
    have c: "counters (world_at 0 (run_sys s)) (rt_counter u) = of_nat (owed u + card ?W)" using uok(4) by simp
    have eff: "wait_counters s' (rt_counter u) = of_nat (owed u + card ?W - (if ?in then 1 else 0))"
      "rt_handle u \<in> ?new \<longleftrightarrow> ?in \<and> owed u + card ?W = 1"
      using fold_signal_count [OF queued_names [OF inv u queued] c small le] s'(5) unfolding n
      by (auto simp: notify_def Let_def newly_added_def split: if_splits)
    show ?thesis
    proof (cases ?in)
      case True
      have card: "card (?W - {r}) = card ?W - 1" using rW [OF True] by simp
      then have one: "wait_counters s' (rt_counter u) = of_nat (owed u + card (?W - {r}))"
        using eff(1) True pos [OF True] by simp
      have "?W \<noteq> {}" using rW [OF True] by blast
      then have "rt_handle u \<notin> run_started s" using uok(5) by simp
      moreover have "owed u + card ?W = 1 \<longleftrightarrow> \<not> registering u \<and> ?W - {r} = {}"
      proof (cases "registering u")
        case True
        then show ?thesis by (auto simp: registering_def)
      next
        case False
        then have "owed u + card ?W = 1 \<longleftrightarrow> card (?W - {r}) = 0" using card pos [OF \<open>?in\<close>] by auto
        then show ?thesis using False W(1) by auto
      qed
      ultimately show ?thesis using one eff(2) True by (simp add: W')
    next
      case False
      then have "rt_handle u \<notin> ?new" using eff(2) by simp
      then show ?thesis using False eff(1) uok(5) by (simp add: W')
    qed
  qed
  have others: "task_ok s' (run_started s \<union> ?new) u" if "u \<in> set xs \<union> set ys" for u
    using all run_inv_task [OF inv] other_names(3) [OF inv live that] by (auto simp: task_ok_def)
  have own: "task_ok s' (run_started s \<union> ?new) ?t"
    using all [OF t] ok(1-3) ok(6) [OF ph] ph k by (auto simp: task_ok_def)
  have started: "run_started s \<union> ?new \<subseteq> rt_handle ` set (run_live s)"
  proof -
    have "ta_handle ` set ts \<subseteq> fst ` set (map queued (run_live s))" using queued entries_at_handles by fast
    then show ?thesis using new parts(7) by fastforce
  qed
  show ?thesis
  proof (rule run_inv_update [OF inv live _ _ s'(1) _ _ own others _ _ started])
    show "rn_last (nodes s' q) < node_capacity" for q using s'(6,7) parts(2) by (cases "q = r") simp_all
    show "queue_fits c (node_queues s' q)
        (entries_at q (map queued xs) @ entry_of q (queued ?t) @ entries_at q (map queued ys))" for q
    proof (cases "q = r")
      case True
      then have "entry_of q (queued ?t) = []" using acc(2) by (simp add: entry_of_def queued_def)
      then show ?thesis using True s'(2) entries_without [OF inv live] by simp
    next
      case False
      then have "entry_of q (queued ?t) = entry_of q (queued t)"
        using acc(1) ph by (simp add: entry_of_def queued_def)
      then show ?thesis using False parts(5) [of q] s'(3) by (simp add: live)
    qed
    show "before_ok u ?t" if u: "u \<in> set xs" "before_ok u t" for u
    proof -
      have "\<not> is_serial_access m1 m" if m1: "map_of (present u) r = Some m1" for m1
      proof
        assume s: "is_serial_access m1 m"
        obtain vs ws where "xs = vs @ u # ws" using u(1) by (meson split_list)
        then have "run_live s = vs @ u # ws @ t # ys" by (simp add: live)
        from conflicting_task_waits [OF inv this m1 here s] idle show False by simp
      qed
      moreover have "(r, m) \<in> set (rt_accesses t)" using k a by (metis nth_mem)
      then have "map_of (rt_accesses t) r = Some m" using ok(2) by simp
      moreover have "set (take (Suc k) (rt_accesses t)) = insert (r, m) (set (take k (rt_accesses t)))"
        using k a by (simp add: take_Suc_conv_app_nth)
      ultimately show ?thesis using u(2) ph by (auto simp: before_ok_def)
    qed
    show "before_ok ?t u" if "before_ok t u" for u
    proof -
      have "map_of (present t) q = Some m1" if "map_of (present ?t) q = Some m1" for q m1
        using that acc ph by auto
      then show ?thesis using that ph by (auto simp: before_ok_def)
    qed
  qed simp_all
qed

lemma gone_keeps_inv:
  assumes inv: "run_inv c s" and live: "run_live s = xs @ t # ys" and ph: "rt_phase t = Leaving (length (rt_accesses t))"
  shows "run_inv c (s\<lparr>run_live := xs @ ys, run_started := run_started s - {rt_handle t}\<rparr>)"
proof -
  note parts = run_inv_parts [OF inv]
  have others: "task_ok (run_sys s) (run_started s - {rt_handle t}) u" if "u \<in> set xs \<union> set ys" for u
    by (rule task_ok_same [OF run_inv_task [OF inv other_names(3) [OF inv live that]]])
      (use other_names(1) [OF inv live that] in simp_all)
  have "entry_of r (queued t) = []" for r using ph by (simp add: entry_of_def queued_def)
  then show ?thesis
    using parts others unfolding live run_inv_def by (auto simp: sorted_wrt_append)
qed

lemma run_step_inv: "run_step s t \<Longrightarrow> run_inv False s \<Longrightarrow> run_inv False t"
proof (induction rule: run_step.induct)
  case (run_begin h s p as)
  then show ?case by (intro begin_keeps_inv)
next
  case (run_register s xs t ys k s')
  then show ?case by (intro register_keeps_inv)
next
  case (run_dispatched s xs t ys ready s')
  then show ?case by (intro dispatched_keeps_inv)
next
  case (run_end s xs t ys)
  then show ?case by (intro end_keeps_inv)
next
  case (run_leave s xs t ys k s')
  then show ?case by (intro leave_keeps_inv) simp_all
next
  case (run_gone s xs t ys)
  then show ?case by (intro gone_keeps_inv)
qed

interpretation runs: invariant_system run_start run_step "run_inv False"
  by unfold_locales (blast intro: run_inv_init run_step_inv)+

text \<open>Steps in which a task leaves a queue only if it is the oldest one there leave nothing behind.\<close>

definition leaves_oldest :: "task_run \<Rightarrow> task_run \<Rightarrow> bool" where
  "leaves_oldest s s' \<longleftrightarrow> (\<forall>t \<in> set (run_live s). \<forall>k. rt_phase t = Leaving k \<longrightarrow>
     t\<lparr>rt_phase := Leaving (Suc k)\<rparr> \<in> set (run_live s') \<longrightarrow> oldest_in (rt_handle t) (run_sys s) (fst (rt_accesses t ! k)))"

definition orderly_step :: "task_run \<Rightarrow> task_run \<Rightarrow> bool" where
  "orderly_step s t \<longleftrightarrow> run_step s t \<and> leaves_oldest s t"

lemma ordered_step_inv: "run_step s t \<Longrightarrow> leaves_oldest s t \<Longrightarrow> run_inv True s \<Longrightarrow> run_inv True t"
proof (induction rule: run_step.induct)
  case (run_begin h s p as)
  then show ?case by (intro begin_keeps_inv)
next
  case (run_register s xs t ys k s')
  then show ?case by (intro register_keeps_inv)
next
  case (run_dispatched s xs t ys ready s')
  then show ?case by (intro dispatched_keeps_inv)
next
  case (run_end s xs t ys)
  then show ?case by (intro end_keeps_inv)
next
  case (run_leave s xs t ys k s')
  then show ?case by (intro leave_keeps_inv) (simp_all add: leaves_oldest_def)
next
  case (run_gone s xs t ys)
  then show ?case by (intro gone_keeps_inv)
qed

interpretation orderly: invariant_system run_start orderly_step "run_inv True"
  by unfold_locales (auto simp: orderly_step_def intro: run_inv_init ordered_step_inv)

lemma orderly_no_leftovers: "reach run_start orderly_step s \<Longrightarrow> reach run_start run_step s \<and> no_leftovers s"
proof (intro conjI)
  show "reach run_start orderly_step s \<Longrightarrow> reach run_start run_step s"
    by (induction rule: reach.induct) (auto simp: orderly_step_def intro: reach_init reach_step)
  show "reach run_start orderly_step s \<Longrightarrow> no_leftovers s"
    using orderly.reach_inv by (simp add: run_inv_clean)
qed

subsection \<open>What follows for the tasks\<close>

lemma present_mode:
  assumes "distinct (map fst (rt_accesses t))" and "map_of (rt_accesses t) r = Some m" and "r \<in> fst ` set (present t)"
  shows "map_of (present t) r = Some m"
proof -
  have sub: "set (present t) \<subseteq> set (rt_accesses t)"
    by (auto simp: present_def dest: in_set_takeD in_set_dropD split: phase.split)
  obtain m' where m': "map_of (present t) r = Some m'"
    using map_of_named [OF assms(3)] by blast
  then have "(r, m') \<in> set (rt_accesses t)" using sub map_of_SomeD by fastforce
  then show ?thesis using assms(1,2) m' by (metis map_of_is_SomeI option.inject)
qed

lemma later_not_started:
  assumes inv: "run_inv c s" and live: "run_live s = xs @ t1 # ys @ t2 # zs"
    and m: "map_of (rt_accesses t1) r = Some m1" "map_of (rt_accesses t2) r = Some m2"
    and conflict: "is_serial_access m1 m2" and here: "\<not> has_left t1 r"
  shows "rt_handle t2 \<notin> run_started s"
proof
  assume st: "rt_handle t2 \<in> run_started s"
  have t: "t1 \<in> set (run_live s)" "t2 \<in> set (run_live s)" by (simp_all add: live)
  note ok1 = task_ok_parts [OF run_inv_task [OF inv t(1)]] and ok2 = task_ok_parts [OF run_inv_task [OF inv t(2)]]
  have named: "r \<in> named t1" "r \<in> named t2" using m by (auto simp: named_def dest!: map_of_SomeD intro: rev_image_eqI)
  have order: "before_ok t1 t2" using run_inv_parts(6) [OF inv] by (simp add: live sorted_wrt_append)
  then have "\<not> registering t1" using named by (auto simp: before_ok_def)
  then have p1: "r \<in> fst ` set (present t1)" using present_or_left named(1) here by blast
  note m1 = present_mode [OF ok1(2) m(1) p1]
  have "\<not> has_left t2 r" using order m1 m(2) conflict unfolding before_ok_def by blast
  moreover have "\<not> registering t2" using ok2(5) st by simp
  ultimately have p2: "r \<in> fst ` set (present t2)" using present_or_left named(2) by blast
  have "r \<in> waiting_at (node_queues (run_sys s)) (rt_handle t2)"
    using conflicting_task_waits [OF inv live m1 present_mode [OF ok2(2) m(2) p2] conflict] .
  then show False using ok2(5) st by blast
qed

text \<open>Where nothing is left behind, the oldest task waits nowhere.\<close>

lemma oldest_task:
  assumes inv: "run_inv True s" and live: "run_live s = t # ts"
  shows "waiting_at (node_queues (run_sys s)) (rt_handle t) = {}"
    "r \<in> fst ` set (present t) \<Longrightarrow> oldest_in (rt_handle t) (run_sys s) r"
proof -
  note parts = run_inv_parts [OF inv]
  let ?q = "node_queues (run_sys s)"
  have t: "t \<in> set (run_live s)" by (simp add: live)
  have whole: "fst (?q r) @ snd (?q r) = entries_at r (map queued (run_live s))" for r
    using parts(5) [of r] by (simp add: queue_fits_clean)
  have head: "fst (?q r) \<noteq> [] \<and> ta_handle (hd (fst (?q r))) = rt_handle t" if r: "r \<in> fst ` set (present t)" for r
  proof -
    obtain m where "map_of (present t) r = Some m" using map_of_named [OF r] by blast
    then have e: "fst (?q r) @ snd (?q r) = make_access (rt_handle t) m (rt_counter t) # entries_at r (map queued ts)"
      using whole [of r] by (simp add: live entry_of_def queued_def)
    then have "fst (?q r) \<noteq> []" using queue_never_blocked [OF parts(1), of r] by auto
    then show ?thesis using e by (cases "fst (?q r)") (simp_all add: make_access_def)
  qed
  show "waiting_at ?q (rt_handle t) = {}"
  proof (rule ccontr)
    assume "waiting_at ?q (rt_handle t) \<noteq> {}"
    then obtain r where r: "r \<in> waiting_at ?q (rt_handle t)" by blast
    then have "r \<in> fst ` set (present t)" using waiting_present [OF inv t] by blast
    then have "rt_handle t \<in> ta_handle ` set (fst (?q r))" using head by (metis hd_in_set imageI)
    moreover have "distinct (map ta_handle (fst (?q r) @ snd (?q r)))"
      unfolding whole by (rule live_entries_distinct [OF inv])
    ultimately show False using r by (auto simp: waiting_at_def)
  qed
  show "oldest_in (rt_handle t) (run_sys s) r" if r: "r \<in> fst ` set (present t)"
  proof -
    have "node_shape (world_at r (run_sys s))" using parts(1) by (simp add: system_shape_def)
    moreover have "rn_first (nodes (run_sys s) r) < rn_fnr (nodes (run_sys s) r)"
      using head [OF r] by (auto simp: node_queues_def queues_of_def slice_def)
    ultimately have "rn_first (nodes (run_sys s) r) + 1 < node_capacity"
      using parts(2) [of r] by (simp add: node_shape_def Let_def)
    then show ?thesis using head [OF r] by (simp add: oldest_in_def)
  qed
qed

subsection \<open>Dispatches and ends go on\<close>

definition lasts :: "task_run \<Rightarrow> nat \<Rightarrow> nat" where
  "lasts s r = rn_last (nodes (run_sys s) r)"

text \<open>The tasks whose coroutines have not ended, and the steps that no coroutine takes notice of.\<close>

definition in_body :: "run_task \<Rightarrow> bool" where
  "in_body t \<longleftrightarrow> \<not> (\<exists>k. rt_phase t = Leaving k)"

lemma in_body_simps [simp]:
  "rt_phase t = Registering k \<Longrightarrow> in_body t" "rt_phase t = Dispatched \<Longrightarrow> in_body t" "rt_phase t = Leaving k \<Longrightarrow> \<not> in_body t"
  "in_body (t\<lparr>rt_phase := Registering k\<rparr>)" "in_body (t\<lparr>rt_phase := Dispatched\<rparr>)" "\<not> in_body (t\<lparr>rt_phase := Leaving k\<rparr>)"
  "in_body (new_task h p as)"
  by (simp_all add: in_body_def new_task_def)

definition bodies :: "task_run \<Rightarrow> (nat \<times> accesses) list" where
  "bodies r = map (\<lambda>t. (rt_handle t, rt_accesses t)) (filter in_body (run_live r))"

definition quiet_step :: "task_run \<Rightarrow> task_run \<Rightarrow> bool" where
  "quiet_step r r' \<longleftrightarrow> run_step r r' \<and> bodies r' = bodies r"

lemma quiet_steps: "quiet_step\<^sup>*\<^sup>* r r' \<Longrightarrow> run_step\<^sup>*\<^sup>* r r' \<and> bodies r' = bodies r"
  by (induction rule: rtranclp_induct) (auto simp: quiet_step_def intro: rtranclp.rtrancl_into_rtrancl)

lemma quiet_steps_inv: "quiet_step\<^sup>*\<^sup>* r r' \<Longrightarrow> run_inv False r \<Longrightarrow> run_inv False r'"
  using quiet_steps runs.steps_inv by blast

text \<open>Whatever else is under way, a dispatch can be completed while its queues have room.\<close>

lemma registration_goes_on:
  assumes "run_inv c s" and "run_live s = xs @ t # ys" and "rt_phase t = Registering k"
    and "\<And>r. r \<in> named t \<Longrightarrow> lasts s r + 1 < node_capacity \<or> r \<in> fst ` set (take k (rt_accesses t))"
    and "\<And>r. lasts s r \<le> b r + (if r \<in> fst ` set (take k (rt_accesses t)) then 1 else 0)"
  shows "\<exists>u. quiet_step\<^sup>*\<^sup>* s u \<and> run_inv c u \<and> run_live u = xs @ t\<lparr>rt_phase := Registering (length (rt_accesses t))\<rparr> # ys \<and>
    (\<forall>r. lasts u r \<le> b r + (if r \<in> named t then 1 else 0))"
  using assms
proof (induction "length (rt_accesses t) - k" arbitrary: s t k)
  case 0
  have t: "t \<in> set (run_live s)" by (simp add: "0.prems"(2))
  have "k = length (rt_accesses t)" using "0.hyps" task_ok_parts(7) [OF run_inv_task [OF "0.prems"(1) t], of k] "0.prems"(3) by simp
  then have "t\<lparr>rt_phase := Registering (length (rt_accesses t))\<rparr> = t" "\<forall>r. lasts s r \<le> b r + (if r \<in> named t then 1 else 0)"
    using "0.prems"(3,5) by (auto simp: named_def)
  then show ?case using "0.prems"(1,2) by (intro exI [of _ s]) simp
next
  case (Suc d)
  note inv = Suc.prems(1) and live = Suc.prems(2) and ph = Suc.prems(3)
  have t: "t \<in> set (run_live s)" by (simp add: live)
  note ok = task_ok_parts [OF run_inv_task [OF inv t]]
  have k: "k < length (rt_accesses t)" using Suc.hyps(2) by simp
  obtain r m where a: "rt_accesses t ! k = (r, m)" by fastforce
  note acc = take_access [OF ok(2) k a]
  have "(r, m) \<in> set (rt_accesses t)" using nth_mem [OF k] a by simp
  then have "r \<in> named t" by (force simp: named_def)
  then have room: "lasts s r + 1 < node_capacity" using Suc.prems(4) acc(2) by blast
  then have "rn_last (nodes (run_sys s) r) < node_capacity" by (simp add: lasts_def)
  from register_one [OF run_inv_parts(1) [OF inv] this ok(1) refl, of "rt_handle t" m] obtain s' where
    s': "register_at (rt_handle t) (rt_counter t) (r, m) (run_sys s) = Inr s'"
      "\<And>q. q \<noteq> r \<Longrightarrow> nodes s' q = nodes (run_sys s) q" "rn_last (nodes s' r) = Suc (rn_last (nodes (run_sys s) r))"
    by (auto simp: register_at_def)
  let ?t = "t\<lparr>rt_phase := Registering (Suc k)\<rparr>" and ?s = "s\<lparr>run_sys := s', run_live := xs @ t\<lparr>rt_phase := Registering (Suc k)\<rparr> # ys\<rparr>"
  have reg: "rn_last (nodes (run_sys s) (fst (rt_accesses t ! k))) + 1 < node_capacity"
    "register_at (rt_handle t) (rt_counter t) (rt_accesses t ! k) (run_sys s) = Inr s'"
    using room s'(1) a by (simp_all add: lasts_def)
  have step: "run_step s ?s" by (rule run_register [OF live ph k reg])
  have quiet: "quiet_step s ?s" using step ph by (simp add: quiet_step_def bodies_def live)
  have l: "lasts ?s q = (if q = r then Suc (lasts s r) else lasts s q)" for q using s'(2,3) by (simp add: lasts_def)
  have set: "fst ` set (take (Suc k) (rt_accesses t)) = insert r (fst ` set (take k (rt_accesses t)))"
    using k a by (simp add: take_Suc_conv_app_nth)
  have "\<exists>u. quiet_step\<^sup>*\<^sup>* ?s u \<and> run_inv c u \<and> run_live u = xs @ ?t\<lparr>rt_phase := Registering (length (rt_accesses ?t))\<rparr> # ys \<and>
    (\<forall>r. lasts u r \<le> b r + (if r \<in> named ?t then 1 else 0))"
  proof (rule Suc.hyps(1) [of ?t "Suc k"])
    show "d = length (rt_accesses ?t) - Suc k" using Suc.hyps(2) by simp
    show "run_inv c ?s" by (rule register_keeps_inv [OF inv live ph k reg])
    show "lasts ?s q + 1 < node_capacity \<or> q \<in> fst ` set (take (Suc k) (rt_accesses ?t))" if "q \<in> named ?t" for q
      using that Suc.prems(4) [of q] by (auto simp: l set)
    show "lasts ?s q \<le> b q + (if q \<in> fst ` set (take (Suc k) (rt_accesses ?t)) then 1 else 0)" for q
      using Suc.prems(5) [of q] acc(2) by (auto simp: l set split: if_splits)
  qed simp_all
  then obtain u where "quiet_step\<^sup>*\<^sup>* ?s u" "run_inv c u" "run_live u = xs @ t\<lparr>rt_phase := Registering (length (rt_accesses t))\<rparr> # ys"
      "\<forall>r. lasts u r \<le> b r + (if r \<in> named t then 1 else 0)"
    by auto
  then show ?case using converse_rtranclp_into_rtranclp [of quiet_step, OF quiet] by blast
qed

lemma dispatch_goes_on:
  assumes inv: "run_inv c s" and live: "run_live s = xs @ t # ys" and ph: "rt_phase t = Registering 0"
    and room: "\<And>r. r \<in> named t \<Longrightarrow> lasts s r + 1 < node_capacity"
  shows "\<exists>u. quiet_step\<^sup>*\<^sup>* s u \<and> run_inv c u \<and> run_live u = xs @ t\<lparr>rt_phase := Dispatched\<rparr> # ys \<and>
    (\<forall>r. lasts u r \<le> lasts s r + (if r \<in> named t then 1 else 0))"
proof -
  let ?t = "t\<lparr>rt_phase := Registering (length (rt_accesses t))\<rparr>"
  obtain u where u: "quiet_step\<^sup>*\<^sup>* s u" "run_live u = xs @ ?t # ys" "\<forall>r. lasts u r \<le> lasts s r + (if r \<in> named t then 1 else 0)"
      "run_inv c u"
    using registration_goes_on [OF inv live ph, of "lasts s"] room by auto
  obtain ready s' where e: "end_dispatch (rt_counter ?t) (run_sys u) = (ready, s')" by fastforce
  then have n: "nodes s' = nodes (run_sys u)" by (auto simp: end_dispatch_def Let_def split: prod.splits)
  have "run_step u (u\<lparr>run_sys := s', run_live := xs @ ?t\<lparr>rt_phase := Dispatched\<rparr> # ys,
       run_started := (if ready then insert (rt_handle ?t) (run_started u) else run_started u)\<rparr>)" (is "run_step u ?v")
    by (rule run_dispatched [OF u(2) _ e]) simp
  then have "quiet_step u ?v" by (simp add: quiet_step_def bodies_def u(2))
  moreover have "run_inv c ?v" by (rule dispatched_keeps_inv [OF u(4,2) _ e]) simp
  moreover have "lasts ?v r = lasts u r" for r by (simp add: lasts_def n)
  ultimately show ?thesis using u by (intro exI [of _ ?v]) auto
qed

text \<open>A dispatch from its beginning to its end, beside dispatched tasks.\<close>

lemma new_task_dispatched:
  assumes inv: "run_inv c s" and fresh: "h \<notin> rt_handle ` set (run_live s)" "p \<notin> rt_counter ` set (run_live s)" "p \<noteq> 0"
    and as: "distinct (map fst as)" "length as < 2 ^ 16" and alone: "list_all (\<lambda>t. \<not> registering t) (run_live s)"
    and room: "\<And>r. r \<in> fst ` set as \<Longrightarrow> lasts s r + 1 < node_capacity"
  shows "\<exists>v u. run_step s v \<and> bodies v = bodies s @ [(h, as)] \<and> quiet_step\<^sup>*\<^sup>* v u \<and> run_inv c u \<and>
    run_live u = run_live s @ [(new_task h p as)\<lparr>rt_phase := Dispatched\<rparr>] \<and>
    (\<forall>r. lasts u r \<le> lasts s r + (if r \<in> fst ` set as then 1 else 0))"
proof -
  let ?t = "new_task h p as" and ?s = "s\<lparr>run_sys := start_dispatch p as (run_sys s), run_live := run_live s @ [new_task h p as]\<rparr>"
  have "list_all (\<lambda>t. registering t \<longrightarrow> named t \<inter> fst ` set as = {}) (run_live s)" using alone by (simp add: list_all_iff)
  note step = run_begin [OF fresh as this] and inv' = begin_keeps_inv [OF inv fresh as this]
  have l: "lasts ?s = lasts s" by (simp add: lasts_def fun_eq_iff start_dispatch_eq [OF as(2)])
  have ph: "rt_phase ?t = Registering 0" by (simp add: new_task_def)
  have "\<exists>u. quiet_step\<^sup>*\<^sup>* ?s u \<and> run_inv c u \<and> run_live u = run_live s @ ?t\<lparr>rt_phase := Dispatched\<rparr> # [] \<and>
      (\<forall>r. lasts u r \<le> lasts ?s r + (if r \<in> named ?t then 1 else 0))"
    by (rule dispatch_goes_on [OF inv' _ ph]) (use room in \<open>simp_all add: l\<close>)
  then obtain u where "quiet_step\<^sup>*\<^sup>* ?s u" "run_inv c u" "run_live u = run_live s @ [?t\<lparr>rt_phase := Dispatched\<rparr>]"
      "\<forall>r. lasts u r \<le> lasts s r + (if r \<in> fst ` set as then 1 else 0)"
    by (auto simp: l)
  moreover have "bodies ?s = bodies s @ [(h, as)]" by (simp add: bodies_def) (simp add: new_task_def)
  ultimately show ?thesis using step by (intro exI [of _ ?s] exI [of _ u]) simp
qed

text \<open>The oldest task can leave its queues.\<close>

lemma leaving_goes_on:
  assumes "run_inv True s" and "run_live s = t # ts" and "rt_phase t = Leaving k"
  shows "\<exists>u. quiet_step\<^sup>*\<^sup>* s u \<and> run_inv True u \<and> run_live u = ts \<and> lasts u = lasts s"
  using assms
proof (induction "length (rt_accesses t) - k" arbitrary: s t k)
  case 0
  have t: "t \<in> set (run_live s)" by (simp add: "0.prems"(2))
  have "rt_phase t = Leaving (length (rt_accesses t))"
    using "0.hyps" task_ok_parts(7) [OF run_inv_task [OF "0.prems"(1) t], of k] "0.prems"(3) by simp
  from run_gone [of s "[]" t ts, OF _ this] "0.prems"(2) have "run_step s (s\<lparr>run_live := ts, run_started := run_started s - {rt_handle t}\<rparr>)"
    by simp
  then have "quiet_step s (s\<lparr>run_live := ts, run_started := run_started s - {rt_handle t}\<rparr>)"
    using "0.prems"(2,3) by (simp add: quiet_step_def bodies_def)
  moreover have "run_inv True (s\<lparr>run_live := ts, run_started := run_started s - {rt_handle t}\<rparr>)"
    using gone_keeps_inv [OF "0.prems"(1), of "[]" t ts] "0.prems"(2) \<open>rt_phase t = Leaving (length (rt_accesses t))\<close> by simp
  ultimately show ?case by (intro exI [of _ "s\<lparr>run_live := ts, run_started := run_started s - {rt_handle t}\<rparr>"]) (auto simp: lasts_def)
next
  case (Suc d)
  note inv = Suc.prems(1) and live = Suc.prems(2) and ph = Suc.prems(3)
  have k: "k < length (rt_accesses t)" using Suc.hyps(2) by simp
  then have "rt_accesses t ! k \<in> set (present t)" using ph by (auto simp: in_set_conv_nth intro!: exI [of _ 0])
  then have old: "oldest_in (rt_handle t) (run_sys s) (fst (rt_accesses t ! k))" using oldest_task(2) [OF inv live] by simp
  from deregister_head [OF run_inv_parts(1) [OF inv] old] obtain s' where
    s': "remove_from (rt_handle t) (fst (rt_accesses t ! k)) (run_sys s) = Inr s'"
      "\<And>q. rn_last (nodes s' q) = rn_last (nodes (run_sys s) q)"
    by (metis remove_from_def)
  let ?t = "t\<lparr>rt_phase := Leaving (Suc k)\<rparr>"
  let ?s = "s\<lparr>run_sys := s', run_live := ?t # ts, run_started := run_started s \<union> newly_added (run_sys s) s'\<rparr>"
  have step: "run_step s ?s" using run_leave [of s "[]" t ts, OF _ ph k s'(1)] live by simp
  have inv': "run_inv True ?s" using leave_keeps_inv [OF inv, of "[]" t ts, OF _ ph k old s'(1)] live by simp
  have quiet: "quiet_step s ?s" using step ph by (simp add: quiet_step_def bodies_def live)
  have "\<exists>u. quiet_step\<^sup>*\<^sup>* ?s u \<and> run_inv True u \<and> run_live u = ts \<and> lasts u = lasts ?s"
    by (rule Suc.hyps(1) [of ?t "Suc k"]) (use Suc.hyps(2) inv' in simp_all)
  moreover have "lasts ?s = lasts s" using s'(2) by (simp add: lasts_def fun_eq_iff)
  ultimately show ?case using converse_rtranclp_into_rtranclp [of quiet_step, OF quiet] by auto
qed

text \<open>The oldest task goes on to its end, and after it the others.\<close>

lemma oldest_goes_on:
  assumes inv: "run_inv True s" and live: "run_live s = t # ts"
    and room: "\<And>r. r \<in> named t \<Longrightarrow> lasts s r + 1 < node_capacity"
  shows "\<exists>u. run_step\<^sup>*\<^sup>* s u \<and> run_inv True u \<and> run_live u = ts \<and> (\<forall>r. lasts u r \<le> lasts s r + 1)"
proof -
  have leave: "\<exists>u. run_step\<^sup>*\<^sup>* v u \<and> run_inv True u \<and> run_live u = ts \<and> lasts u = lasts v"
    if v: "run_inv True v" "run_live v = x # ts" "\<not> registering x" for v x
  proof (cases "rt_phase x")
    case Dispatched
    have st: "rt_handle x \<in> run_started v"
      using task_ok_parts(5) [OF run_inv_task [OF v(1), of x]] oldest_task(1) [OF v(1,2)] v(2,3) by simp
    let ?w = "v\<lparr>run_live := x\<lparr>rt_phase := Leaving 0\<rparr> # ts\<rparr>"
    from run_end [of v "[]" x ts, OF _ Dispatched st] end_keeps_inv [OF v(1), of "[]" x ts, OF _ Dispatched st] v(2)
    have step: "run_step v ?w" and "run_inv True ?w" by simp_all
    then obtain u where "run_step\<^sup>*\<^sup>* ?w u" "run_inv True u" "run_live u = ts" "lasts u = lasts ?w"
      using leaving_goes_on [of ?w "x\<lparr>rt_phase := Leaving 0\<rparr>" ts 0] quiet_steps by auto
    moreover have "lasts ?w = lasts v" by (simp add: lasts_def fun_eq_iff)
    ultimately show ?thesis using converse_rtranclp_into_rtranclp [of run_step, OF step] by auto
  next
    case (Leaving k)
    then show ?thesis using leaving_goes_on [OF v(1,2)] quiet_steps by blast
  qed (use v(3) in \<open>auto simp: registering_def\<close>)
  show ?thesis
  proof (cases "registering t")
    case True
    then obtain k where ph: "rt_phase t = Registering k" by (auto simp: registering_def)
    let ?t = "t\<lparr>rt_phase := Registering (length (rt_accesses t))\<rparr>"
    obtain u where u: "run_step\<^sup>*\<^sup>* s u" "run_live u = ?t # ts" "\<forall>r. lasts u r \<le> lasts s r + (if r \<in> named t then 1 else 0)"
        "run_inv True u"
      using registration_goes_on [OF inv _ ph, of "[]" ts "lasts s"] live room quiet_steps by auto
    obtain ready s' where e: "end_dispatch (rt_counter ?t) (run_sys u) = (ready, s')" by fastforce
    then have n: "nodes s' = nodes (run_sys u)" by (auto simp: end_dispatch_def Let_def split: prod.splits)
    let ?v = "u\<lparr>run_sys := s', run_live := t\<lparr>rt_phase := Dispatched\<rparr> # ts,
      run_started := (if ready then insert (rt_handle ?t) (run_started u) else run_started u)\<rparr>"
    from run_dispatched [of u "[]" ?t ts, OF _ _ e] dispatched_keeps_inv [OF u(4), of "[]" ?t ts, OF _ _ e] u(2)
    have step: "run_step u ?v" and v: "run_inv True ?v" by simp_all
    obtain w where w: "run_step\<^sup>*\<^sup>* ?v w" "run_live w = ts" "lasts w = lasts ?v" "run_inv True w" using leave [OF v, of "t\<lparr>rt_phase := Dispatched\<rparr>"] by auto
    have "lasts ?v = lasts u" by (simp add: lasts_def n fun_eq_iff)
    then have "lasts w r \<le> lasts s r + 1" for r using w(3) spec [OF u(3), of r] by (auto split: if_splits)
    moreover have "run_step\<^sup>*\<^sup>* s w" using u(1) step w(1) by (meson converse_rtranclp_into_rtranclp rtranclp_trans)
    ultimately show ?thesis using w(2,4) by blast
  next
    case False
    obtain u where "run_step\<^sup>*\<^sup>* s u" "run_inv True u" "run_live u = ts" "lasts u = lasts s" using leave [OF inv live False] by blast
    then show ?thesis by (intro exI [of _ u]) simp
  qed
qed

lemma all_can_end:
  "run_inv True s \<Longrightarrow> \<forall>r. lasts s r + length (run_live s) < node_capacity \<Longrightarrow> \<exists>u. run_step\<^sup>*\<^sup>* s u \<and> run_live u = []"
proof (induction "run_live s" arbitrary: s)
  case Nil
  then show ?case by (intro exI [of _ s]) simp
next
  case (Cons t ts)
  have live: "run_live s = t # ts" using Cons.hyps(2) by simp
  have room: "lasts s r + Suc (length ts) < node_capacity" for r using spec [OF Cons.prems(2), of r] live by simp
  obtain u where u: "run_step\<^sup>*\<^sup>* s u" "run_live u = ts" "\<forall>r. lasts u r \<le> lasts s r + 1" "run_inv True u"
    using oldest_goes_on [OF Cons.prems(1) live] room by (metis (no_types, lifting) add.commute add_lessD1 add_Suc_right plus_1_eq_Suc)
  have "lasts u r + length (run_live u) < node_capacity" for r
    using spec [OF u(3), of r] room [of r] u(2) by simp
  then obtain v where "run_step\<^sup>*\<^sup>* u v" "run_live v = []"
    using Cons.hyps(1) [OF u(2) [symmetric] u(4)] by blast
  then show ?case using u(1) by (meson rtranclp_trans)
qed

subsection \<open>Two tasks\<close>

text \<open>Task 7 writes resources 3 and 4, task 8 reads both; both are dispatched.\<close>

definition run_empty :: task_run where
  "run_empty = \<lparr>run_sys = quiet_system, run_live = [], run_started = {}\<rparr>"

definition task_7 :: run_task where
  "task_7 = (new_task 7 70 [(3, Write), (4, Write)])\<lparr>rt_phase := Dispatched\<rparr>"

definition task_8 :: run_task where
  "task_8 = (new_task 8 80 [(3, Read), (4, Read)])\<lparr>rt_phase := Dispatched\<rparr>"

lemma run_empty_start: "run_start run_empty"
  by (simp add: run_start_def run_empty_def quiet_ok node_capacity_def)

lemma two_tasks_run:
  "\<exists>s. reach run_start run_step s \<and> no_leftovers s \<and> run_live s = [task_7, task_8] \<and> (\<forall>r. lasts s r \<le> 2)"
proof -
  have go: "\<exists>u. reach run_start run_step u \<and> run_inv True u \<and>
      run_live u = run_live s @ [(new_task h p as)\<lparr>rt_phase := Dispatched\<rparr>] \<and> (\<forall>r. lasts u r \<le> n + 1)"
    if s: "reach run_start run_step s" "run_inv True s" "\<forall>r. lasts s r \<le> n" "n < 2" "h \<notin> rt_handle ` set (run_live s)"
      "p \<notin> rt_counter ` set (run_live s)" "p \<noteq> 0" "list_all (\<lambda>t. \<not> registering t) (run_live s)"
      and as: "distinct (map fst as)" "length as < 2 ^ 16" for s n h p as
  proof -
    have room: "lasts s r + 1 < node_capacity" for r using spec [OF s(3), of r] s(4) by (simp add: node_capacity_def)
    obtain v u where u: "run_step s v" "quiet_step\<^sup>*\<^sup>* v u" "run_live u = run_live s @ [(new_task h p as)\<lparr>rt_phase := Dispatched\<rparr>]"
      "\<forall>r. lasts u r \<le> lasts s r + (if r \<in> fst ` set as then 1 else 0)" "run_inv True u"
      using new_task_dispatched [OF s(2,5-7) as s(8) room] by blast
    have "reach run_start run_step u" using reach_steps [OF _ reach_step [OF s(1) u(1)]] quiet_steps [OF u(2)] by blast
    moreover have "lasts u r \<le> n + 1" for r using spec [OF u(4), of r] spec [OF s(3), of r] by (auto split: if_splits)
    ultimately show ?thesis using u(3,5) by blast
  qed
  have r0: "reach run_start run_step run_empty" "run_inv True run_empty"
    using run_empty_start by (auto intro: reach_init run_inv_init)
  have "\<forall>r. lasts run_empty r \<le> 0" by (simp add: lasts_def run_empty_def quiet_ok)
  from go [OF r0 this, of 7 70 "[(3, Write), (4, Write)]"] obtain u where
    u: "reach run_start run_step u" "run_inv True u" "run_live u = [task_7]" "\<forall>r. lasts u r \<le> 1"
    by (auto simp: run_empty_def task_7_def)
  have "rt_handle task_7 = 7" "rt_counter task_7 = 70" "\<not> registering task_7"
    by (simp_all add: task_7_def) (simp_all add: new_task_def)
  then obtain v where "reach run_start run_step v" "run_inv True v" "run_live v = [task_7, task_8]" "\<forall>r. lasts v r \<le> 1 + 1"
    using go [OF u(1,2,4), of 8 80 "[(3, Read), (4, Read)]"] u(3) by (auto simp: task_8_def)
  then show ?thesis unfolding one_add_one by (intro exI [of _ v]) (simp add: run_inv_clean)
qed

subsection \<open>Properties\<close>

text \<open>
  C2. Provided that dispatches under way at the same time share no resource, conflicting tasks run in
  the order in which their dispatches began, however dispatches and ends interleave and in whatever
  order tasks end: while an older task has not left a resource, a later one that accesses it with a
  conflicting mode does not run. In particular two tasks that conflict never run at the same time.
\<close>

theorem dispatch_order_respected:
  assumes "reach run_start run_step s" and "run_live s = xs @ t1 # ys @ t2 # zs"
    and "map_of (rt_accesses t1) r = Some m1" and "map_of (rt_accesses t2) r = Some m2"
    and "is_serial_access m1 m2" and "\<not> has_left t1 r"
  shows "rt_handle t2 \<notin> run_started s"
  by (rule later_not_started [OF runs.reach_inv [OF assms(1)] assms(2-)])

lemma dispatch_order_respected_witness: "\<exists>s. reach run_start run_step s \<and> run_live s = [task_7, task_8] \<and> 8 \<notin> run_started s"
proof -
  obtain s where s: "reach run_start run_step s" "run_live s = [task_7, task_8]" using two_tasks_run by blast
  have t: "rt_handle task_8 = 8" "map_of (rt_accesses task_7) 4 = Some Write" "map_of (rt_accesses task_8) 4 = Some Read"
    "\<not> has_left task_7 4" by (simp_all add: task_7_def task_8_def new_task_def has_left_def)
  from dispatch_order_respected [OF s(1) _ t(2,3) _ t(4), of "[]" "[]" "[]"] s(2) t(1)
  have "8 \<notin> run_started s" by (simp add: is_serial_access_def)
  then show ?thesis using s by blast
qed

text \<open>
  C4. In the same runs, tasks ending in any order: the wait counter of a task is, at every moment of its dispatch and after it, what its dispatcher
  has still to take from it (the offset and the resources not yet registered) and the number of
  resources at which it waits; the task has been started exactly when the counter is zero.
\<close>

theorem counter_counts_waiting:
  assumes "reach run_start run_step s" and "t \<in> set (run_live s)"
  shows "wait_counters (run_sys s) (rt_counter t) = of_nat (owed t + card (waiting_at (node_queues (run_sys s)) (rt_handle t))) \<and>
    (rt_handle t \<in> run_started s \<longleftrightarrow> wait_counters (run_sys s) (rt_counter t) = 0)"
proof -
  note inv = runs.reach_inv [OF assms(1)]
  note ok = task_ok_parts [OF run_inv_task [OF inv assms(2)]] and W = waiting_card [OF inv assms(2)]
  let ?W = "waiting_at (node_queues (run_sys s)) (rt_handle t)"
  have "owed t \<le> 2 ^ 31 + 2 ^ 16" using ok(3) by (auto simp: owed_def split: phase.split)
  then have "(of_nat (owed t + card ?W) :: u32) = 0 \<longleftrightarrow> owed t + card ?W = 0"
    using of_nat_u32_eq [of "owed t + card ?W" 0] W(2) by simp
  moreover have "owed t = 0 \<longleftrightarrow> \<not> registering t" by (cases "rt_phase t") simp_all
  ultimately show ?thesis using ok(4,5) W(1) by simp
qed

lemma counter_counts_waiting_witness:
  "\<exists>s. reach run_start run_step s \<and> run_live s = [task_7, task_8] \<and>
     wait_counters (run_sys s) 80 = of_nat (card (waiting_at (node_queues (run_sys s)) 8)) \<and>
     (7 \<in> run_started s \<longleftrightarrow> wait_counters (run_sys s) 70 = 0)"
proof -
  obtain s where s: "reach run_start run_step s" "run_live s = [task_7, task_8]" using two_tasks_run by blast
  have "task_7 \<in> set (run_live s)" "task_8 \<in> set (run_live s)" by (simp_all add: s(2))
  from this [THEN counter_counts_waiting [OF s(1)]] s show ?thesis
    by (intro exI [of _ s]) (simp_all add: task_7_def task_8_def new_task_def owed_def)
qed



text \<open>
  Where nothing is left behind every task is started and can end: while the queues have room for the
  live tasks, a run ends all of them.
\<close>

theorem all_tasks_end:
  assumes "reach run_start run_step s" and "no_leftovers s"
    and "\<forall>r. rn_last (nodes (run_sys s) r) + length (run_live s) < node_capacity"
  shows "\<exists>t. run_step\<^sup>*\<^sup>* s t \<and> run_live t = [] \<and> run_started t = {}"
proof -
  note inv = runs.reach_inv [OF assms(1)]
  have "run_inv True s" using inv assms(2) by (simp add: run_inv_clean)
  then obtain t where t: "run_step\<^sup>*\<^sup>* s t" "run_live t = []" using all_can_end assms(3) by (auto simp: lasts_def)
  then show ?thesis using run_inv_parts(7) [OF runs.steps_inv [OF t(1) inv]] by auto
qed

lemma all_tasks_end_witness:
  "\<exists>s t. reach run_start run_step s \<and> run_live s = [task_7, task_8] \<and> run_step\<^sup>*\<^sup>* s t \<and> run_live t = [] \<and> run_started t = {}"
proof -
  obtain s where s: "reach run_start run_step s" "no_leftovers s" "run_live s = [task_7, task_8]" "\<forall>r. lasts s r \<le> 2"
    using two_tasks_run by blast
  have "rn_last (nodes (run_sys s) r) + length (run_live s) < node_capacity" for r
    using spec [OF s(4), of r] s(3) by (simp add: lasts_def node_capacity_def)
  then show ?thesis using all_tasks_end [OF s(1,2)] s by blast
qed

text \<open>
  C39. That dispatches under way at the same time have no resource in common is needed, although no two
  threads ever add to a queue at the same time here: of two dispatches that register at two
  resources in opposite order and in turn, each task waits behind the other at one of them. Neither
  is run by its dispatcher or passed to the pool; each counter is left at 1.
\<close>

theorem crossing_dispatches_block:
  assumes ok: "system_ok s" and p: "p1 \<noteq> 0" "p2 \<noteq> 0" "p1 \<noteq> p2" and r: "r1 \<noteq> r2"
    and free: "node_queues s r1 = ([], [])" "node_queues s r2 = ([], [])"
    and room: "rn_last (nodes s r1) + 1 < node_capacity" "rn_last (nodes s r2) + 1 < node_capacity"
  shows "\<exists>s1 s2 s3 s4 s5 s6.
    register_at h1 p1 (r1, Write) (start_dispatch p2 [(r2, Write), (r1, Write)]
      (start_dispatch p1 [(r1, Write), (r2, Write)] s)) = Inr s1 \<and>
    register_at h2 p2 (r2, Write) s1 = Inr s2 \<and> register_at h1 p1 (r2, Write) s2 = Inr s3 \<and>
    register_at h2 p2 (r1, Write) s3 = Inr s4 \<and> end_dispatch p1 s4 = (False, s5) \<and> end_dispatch p2 s5 = (False, s6) \<and>
    node_queues s6 r1 = ([make_access h1 Write p1], [make_access h2 Write p2]) \<and>
    node_queues s6 r2 = ([make_access h2 Write p2], [make_access h1 Write p1]) \<and>
    wait_counters s6 p1 = 1 \<and> wait_counters s6 p2 = 1 \<and> pool_added s6 = pool_added s"
proof -
  let ?e1 = "make_access h1 Write p1" and ?e2 = "make_access h2 Write p2"
  let ?s0 = "start_dispatch p2 [(r2, Write), (r1, Write)] (start_dispatch p1 [(r1, Write), (r2, Write)] s)"
  have s0: "system_shape ?s0" "node_queues ?s0 = node_queues s" "nodes ?s0 = nodes s" "pool_added ?s0 = pool_added s"
    "wait_counters ?s0 p1 = 2147483650" "wait_counters ?s0 p2 = 2147483650"
    using system_ok_shape [OF ok] p by (simp_all add: start_dispatch_eq)
  have now: "starts_now e ([], [])" for e by (simp add: starts_now_def)
  have wait: "\<not> starts_now ?e1 ([?e2], [])" "\<not> starts_now ?e2 ([?e1], [])"
    by (simp_all add: starts_now_def parallel_with_def make_access_def is_serial_access_def)
  have room0: "rn_last (nodes ?s0 r1) < node_capacity" using room(1) s0(3) by simp
  obtain s1 where s1: "register_at h1 p1 (r1, Write) ?s0 = Inr s1" "system_shape s1"
      "node_queues s1 = (node_queues s)(r1 := ([?e1], []))" "wait_counters s1 = (wait_counters ?s0)(p1 := 2147483649)"
      "pool_added s1 = pool_added s" "\<And>q. q \<noteq> r1 \<Longrightarrow> nodes s1 q = nodes s q" "rn_last (nodes s1 r1) = Suc (rn_last (nodes s r1))"
    using register_one [OF s0(1) room0 p(1) refl, of h1 Write] free(1) now [of ?e1] unfolding s0(2-4)
    by (auto simp: register_at_def spec_add_def s0(5))
  have "rn_last (nodes s1 r2) < node_capacity" using room(2) s1(6) r by simp
  then obtain s2 where s2: "register_at h2 p2 (r2, Write) s1 = Inr s2" "system_shape s2"
      "node_queues s2 = (node_queues s1)(r2 := ([?e2], []))" "wait_counters s2 = (wait_counters s1)(p2 := 2147483649)"
      "pool_added s2 = pool_added s" "\<And>q. q \<noteq> r2 \<Longrightarrow> nodes s2 q = nodes s1 q" "rn_last (nodes s2 r2) = Suc (rn_last (nodes s r2))"
    using register_one [OF s1(2) _ p(2) refl, of r2 h2 Write] free(2) now [of ?e2] r p(3) s1(3-6)
    by (auto simp: register_at_def spec_add_def s0(6))
  have "rn_last (nodes s2 r2) < node_capacity" using room(2) s2(7) by simp
  then obtain s3 where s3: "register_at h1 p1 (r2, Write) s2 = Inr s3" "system_shape s3"
      "node_queues s3 = (node_queues s2)(r2 := ([?e2], [?e1]))" "wait_counters s3 = wait_counters s2"
      "pool_added s3 = pool_added s" "\<And>q. q \<noteq> r2 \<Longrightarrow> nodes s3 q = nodes s2 q"
    using register_one [OF s2(2) _ p(1) refl, of r2 h1 Write] wait(1) s2(3-5)
    by (auto simp: register_at_def spec_add_def)
  have "rn_last (nodes s3 r1) < node_capacity" using room(1) s3(6) s2(6) s1(7) r by simp
  moreover have "node_queues s3 r1 = ([?e1], [])" using r by (simp add: s3(3) s2(3) s1(3))
  ultimately obtain s4 where s4: "register_at h2 p2 (r1, Write) s3 = Inr s4"
      "node_queues s4 = (node_queues s3)(r1 := ([?e1], [?e2]))" "wait_counters s4 = wait_counters s3"
      "pool_added s4 = pool_added s"
    using register_one [OF s3(2) _ p(2) refl, of r1 h2 Write] wait(2) s3(5)
    by (auto simp: register_at_def spec_add_def)
  have c: "wait_counters s4 p1 = 2147483649" "wait_counters s4 p2 = 2147483649"
    using p(3) by (simp_all add: s4(3) s3(4) s2(4) s1(4))
  have "end_dispatch p1 s4 = (False, s4\<lparr>wait_counters := (wait_counters s4)(p1 := 1)\<rparr>)"
    "end_dispatch p2 (s4\<lparr>wait_counters := (wait_counters s4)(p1 := 1)\<rparr>) =
       (False, s4\<lparr>wait_counters := (wait_counters s4)(p1 := 1, p2 := 1)\<rparr>)"
    using c p(3) by (simp_all add: end_dispatch_def fetch_sub_def invalid_eq)
  moreover have "node_queues s4 r1 = ([?e1], [?e2])" "node_queues s4 r2 = ([?e2], [?e1])"
    using r by (simp_all add: s4(2) s3(3))
  ultimately show ?thesis using s1(1) s2(1) s3(1) s4(1,4) p(3) by (intro exI conjI) (assumption | simp)+
qed

lemma crossing_dispatches_block_witness:
  "\<exists>s1 s2 s3 s4 s5 s6.
    register_at 7 70 (3, Write) (start_dispatch 80 [(4, Write), (3, Write)]
      (start_dispatch 70 [(3, Write), (4, Write)] quiet_system)) = Inr s1 \<and>
    register_at 8 80 (4, Write) s1 = Inr s2 \<and> register_at 7 70 (4, Write) s2 = Inr s3 \<and>
    register_at 8 80 (3, Write) s3 = Inr s4 \<and> end_dispatch 70 s4 = (False, s5) \<and> end_dispatch 80 s5 = (False, s6) \<and>
    node_queues s6 3 = ([make_access 7 Write 70], [make_access 8 Write 80]) \<and>
    node_queues s6 4 = ([make_access 8 Write 80], [make_access 7 Write 70]) \<and>
    wait_counters s6 70 = 1 \<and> wait_counters s6 80 = 1 \<and> pool_added s6 = pool_added quiet_system"
  by (rule crossing_dispatches_block) (simp_all add: quiet_ok node_capacity_def)

end
