(* ===== verification/Task_Serial.thy ===== *)
theory Task_Serial
  imports Task_Runs
begin

section \<open>Runs of tasks are as good as sequential ones\<close>

text \<open>
  What the order kept by the queues means for the data. The body of a task is a list of
  operations on the resources it named, each one permitted by the access mode: reading, reading
  and writing, adding to the value, multiplying it. The operations of the tasks that run at a time
  interleave in any way, with each other and with the steps of dispatches and ends, which are
  those of Task_Runs, that is, the code of \<open>dispatch_task\<close> and of \<open>~promise_type\<close>, queue by queue;
  as there, dispatches under way at the same time share no resource.
  Whatever the interleaving, every operation reads what it would read, and the resources end as
  they would end, if the bodies were executed one after the other in the order in which the
  dispatches began.
\<close>

subsection \<open>Operations on resources\<close>

type_synonym store = "nat \<Rightarrow> int"

datatype 'l task_op =
    Op_read nat "int \<Rightarrow> 'l \<Rightarrow> 'l"
  | Op_write nat "int \<Rightarrow> 'l \<Rightarrow> int \<times> 'l"
  | Op_add nat "'l \<Rightarrow> int"
  | Op_mul nat "'l \<Rightarrow> int"

fun op_resource :: "'l task_op \<Rightarrow> nat" where
  "op_resource (Op_read r f) = r" | "op_resource (Op_write r f) = r"
| "op_resource (Op_add r f) = r" | "op_resource (Op_mul r f) = r"

fun do_op :: "'l task_op \<Rightarrow> store \<times> 'l \<Rightarrow> store \<times> 'l" where
  "do_op (Op_read r f) (st, l) = (st, f (st r) l)"
| "do_op (Op_write r f) (st, l) = (st(r := fst (f (st r) l)), snd (f (st r) l))"
| "do_op (Op_add r f) (st, l) = (st(r := st r + f l), l)"
| "do_op (Op_mul r f) (st, l) = (st(r := st r * f l), l)"

fun permitted :: "access_mode \<Rightarrow> 'l task_op \<Rightarrow> bool" where
  "permitted Write a = True"
| "permitted Read (Op_read r f) = True"
| "permitted AAdd (Op_add r f) = True"
| "permitted AMul (Op_mul r f) = True"
| "permitted m a = False"

definition op_ok :: "accesses \<Rightarrow> 'l task_op \<Rightarrow> bool" where
  "op_ok as a = (case map_of as (op_resource a) of None \<Rightarrow> False | Some m \<Rightarrow> permitted m a)"

definition no_conflict :: "accesses \<Rightarrow> accesses \<Rightarrow> bool" where
  "no_conflict as1 as2 \<longleftrightarrow> (\<forall>r m1 m2. map_of as1 r = Some m1 \<and> map_of as2 r = Some m2 \<longrightarrow> \<not> is_serial_access m1 m2)"

text \<open>Operations of tasks that do not conflict can be exchanged.\<close>

lemma parallel_modes:
  assumes "op_ok as1 a" and "op_ok as2 b" and "no_conflict as1 as2" and "op_resource a = op_resource b"
  obtains m where "permitted m a" "permitted m b" "m \<noteq> Write"
  using assms by (auto simp: op_ok_def no_conflict_def is_serial_access_iff split: option.splits)

lemma do_op_exchange:
  assumes "op_ok as1 a" and "op_ok as2 b" and "no_conflict as1 as2"
  shows "fst (do_op b (fst (do_op a (st, l)), k)) = fst (do_op a (fst (do_op b (st, k)), l))"
    and "snd (do_op b (fst (do_op a (st, l)), k)) = snd (do_op b (st, k))"
    and "snd (do_op a (fst (do_op b (st, k)), l)) = snd (do_op a (st, l))"
proof -
  have "fst (do_op b (fst (do_op a (st, l)), k)) = fst (do_op a (fst (do_op b (st, k)), l)) \<and>
    snd (do_op b (fst (do_op a (st, l)), k)) = snd (do_op b (st, k)) \<and>
    snd (do_op a (fst (do_op b (st, k)), l)) = snd (do_op a (st, l))"
  proof (cases "op_resource a = op_resource b")
    case True
    then obtain m where m: "permitted m a" "permitted m b" "m \<noteq> Write" by (rule parallel_modes [OF assms])
    then show ?thesis using True by (cases m; cases a; cases b) (auto simp: fun_upd_def)
  next
    case False
    then show ?thesis by (cases a; cases b) (auto simp: fun_upd_twist)
  qed
  then show "fst (do_op b (fst (do_op a (st, l)), k)) = fst (do_op a (fst (do_op b (st, k)), l))"
    "snd (do_op b (fst (do_op a (st, l)), k)) = snd (do_op b (st, k))"
    "snd (do_op a (fst (do_op b (st, k)), l)) = snd (do_op a (st, l))"
    by simp_all
qed

lemma fold_op_exchange:
  assumes "op_ok as1 a" and "list_all (op_ok as2) bs" and "no_conflict as1 as2"
  shows "fst (fold do_op bs (fst (do_op a (st, l)), k)) = fst (do_op a (fst (fold do_op bs (st, k)), l)) \<and>
    snd (fold do_op bs (fst (do_op a (st, l)), k)) = snd (fold do_op bs (st, k)) \<and>
    snd (do_op a (fst (fold do_op bs (st, k)), l)) = snd (do_op a (st, l))"
  using assms(2)
proof (induction bs arbitrary: st k)
  case (Cons b bs)
  have b: "op_ok as2 b" and bs: "list_all (op_ok as2) bs" using Cons.prems by simp_all
  note ex = do_op_exchange [OF assms(1) b assms(3), where st = st and l = l and k = k]
  obtain st1 k1 where s1: "do_op b (st, k) = (st1, k1)" by fastforce
  have "do_op b (fst (do_op a (st, l)), k) = (fst (do_op a (st1, l)), k1)"
    using ex(1,2) s1 by (metis fst_conv prod.collapse snd_conv)
  then show ?case using Cons.IH [OF bs, of st1 k1] ex(3) s1 by simp
qed simp

subsection \<open>Jobs\<close>

text \<open>
  A task: what its body has done and what is left to do, its local state at first and now. Jobs are
  kept in the order in which their dispatches began, the ended ones included.
\<close>

record 'l job =
  job_handle :: nat
  job_accesses :: accesses
  job_done :: "'l task_op list"
  job_todo :: "'l task_op list"
  job_first :: 'l
  job_local :: 'l
  job_ended :: bool

record 'l serial_run =
  sr_run :: task_run
  sr_store :: store
  sr_jobs :: "'l job list"

definition new_job :: "nat \<Rightarrow> accesses \<Rightarrow> 'l task_op list \<Rightarrow> 'l \<Rightarrow> 'l job" where
  "new_job h as body l = \<lparr>job_handle = h, job_accesses = as, job_done = [], job_todo = body,
     job_first = l, job_local = l, job_ended = False\<rparr>"

text \<open>
  A dispatch begins; a dispatch goes on, or a promise is destroyed; a body does an operation; a body
  ends.
\<close>

inductive serial_step :: "'l serial_run \<Rightarrow> 'l serial_run \<Rightarrow> bool" where
  job_begins: "run_step (sr_run s) r' \<Longrightarrow> bodies r' = bodies (sr_run s) @ [(h, as)] \<Longrightarrow>
     list_all (op_ok as) body \<Longrightarrow>
     serial_step s (s\<lparr>sr_run := r', sr_jobs := sr_jobs s @ [new_job h as body l]\<rparr>)"
| job_waits: "quiet_step (sr_run s) r' \<Longrightarrow>
     serial_step s (s\<lparr>sr_run := r'\<rparr>)"
| job_moves: "sr_jobs s = js @ j # ks \<Longrightarrow> \<not> job_ended j \<Longrightarrow> job_handle j \<in> run_started (sr_run s) \<Longrightarrow>
     job_todo j = a # as \<Longrightarrow> do_op a (sr_store s, job_local j) = (st', l') \<Longrightarrow>
     serial_step s (s\<lparr>sr_store := st', sr_jobs := js @ j\<lparr>job_done := job_done j @ [a], job_todo := as,
       job_local := l'\<rparr> # ks\<rparr>)"
| job_ends: "sr_jobs s = js @ j # ks \<Longrightarrow> \<not> job_ended j \<Longrightarrow> job_todo j = [] \<Longrightarrow>
     run_step (sr_run s) r' \<Longrightarrow> bodies r' = filter (\<lambda>b. fst b \<noteq> job_handle j) (bodies (sr_run s)) \<Longrightarrow>
     serial_step s (s\<lparr>sr_run := r', sr_jobs := js @ j\<lparr>job_ended := True\<rparr> # ks\<rparr>)"

definition serial_start :: "store \<Rightarrow> 'l serial_run \<Rightarrow> bool" where
  "serial_start st s \<longleftrightarrow> run_start (sr_run s) \<and> sr_store s = st \<and> sr_jobs s = []"

subsection \<open>Sequential execution\<close>

text \<open>The bodies one after the other: the resources at the end, and the local states.\<close>

fun run_in_order :: "('l task_op list \<times> 'l) list \<Rightarrow> store \<Rightarrow> store \<times> 'l list" where
  "run_in_order [] st = (st, [])"
| "run_in_order ((body, l) # js) st =
     (let (st1, l1) = fold do_op body (st, l); (st2, ls) = run_in_order js st1 in (st2, l1 # ls))"

text \<open>What was done so far, executed one job after the other.\<close>

definition done_part :: "'l job \<Rightarrow> 'l task_op list \<times> 'l" where
  "done_part j = (job_done j, job_first j)"

lemma run_in_order_append:
  "run_in_order (xs @ ys) st =
     (let (st1, ls) = run_in_order xs st; (st2, ks) = run_in_order ys st1 in (st2, ls @ ks))"
  by (induction xs arbitrary: st) (auto simp: Let_def split: prod.splits)

text \<open>An operation that does not conflict with any of the jobs can be executed before or after them.\<close>

lemma run_in_order_exchange:
  assumes "op_ok as a" and "\<And>j. j \<in> set js \<Longrightarrow> job_done j \<noteq> [] \<Longrightarrow>
      list_all (op_ok (job_accesses j)) (job_done j) \<and> no_conflict as (job_accesses j)"
  shows "fst (run_in_order (map done_part js) (fst (do_op a (st, l)))) =
      fst (do_op a (fst (run_in_order (map done_part js) st), l))"
    and "snd (run_in_order (map done_part js) (fst (do_op a (st, l)))) = snd (run_in_order (map done_part js) st)"
    and "snd (do_op a (fst (run_in_order (map done_part js) st), l)) = snd (do_op a (st, l))"
proof -
  have "fst (run_in_order (map done_part js) (fst (do_op a (st, l)))) =
      fst (do_op a (fst (run_in_order (map done_part js) st), l)) \<and>
    snd (run_in_order (map done_part js) (fst (do_op a (st, l)))) = snd (run_in_order (map done_part js) st) \<and>
    snd (do_op a (fst (run_in_order (map done_part js) st), l)) = snd (do_op a (st, l))"
    using assms(2)
  proof (induction js arbitrary: st)
    case (Cons j js)
    obtain st1 k where s1: "fold do_op (job_done j) (st, job_first j) = (st1, k)" by fastforce
    have "fold do_op (job_done j) (fst (do_op a (st, l)), job_first j) = (fst (do_op a (st1, l)), k) \<and>
        snd (do_op a (st1, l)) = snd (do_op a (st, l))"
    proof (cases "job_done j = []")
      case False
      then have "list_all (op_ok (job_accesses j)) (job_done j)" "no_conflict as (job_accesses j)"
        using Cons.prems by simp_all
      from fold_op_exchange [OF assms(1) this, of st l "job_first j"] show ?thesis
        using s1 by (metis fst_conv prod.collapse snd_conv)
    qed (use s1 in simp)
    then show ?case using Cons.IH [of st1] Cons.prems s1
      by (simp add: done_part_def Let_def case_prod_beta)
  qed simp
  then show "fst (run_in_order (map done_part js) (fst (do_op a (st, l)))) =
      fst (do_op a (fst (run_in_order (map done_part js) st), l))"
    "snd (run_in_order (map done_part js) (fst (do_op a (st, l)))) = snd (run_in_order (map done_part js) st)"
    "snd (do_op a (fst (run_in_order (map done_part js) st), l)) = snd (do_op a (st, l))"
    by simp_all
qed

subsection \<open>The invariant\<close>

definition serial_inv :: "store \<Rightarrow> 'l serial_run \<Rightarrow> bool" where
  "serial_inv st0 s \<longleftrightarrow> run_inv False (sr_run s) \<and>
     map (\<lambda>j. (job_handle j, job_accesses j)) (filter (\<lambda>j. \<not> job_ended j) (sr_jobs s)) = bodies (sr_run s) \<and>
     (\<forall>j \<in> set (sr_jobs s). list_all (op_ok (job_accesses j)) (job_done j @ job_todo j) \<and>
        (job_ended j \<longrightarrow> job_todo j = []) \<and>
        (\<not> job_ended j \<and> job_done j \<noteq> [] \<longrightarrow> job_handle j \<in> run_started (sr_run s))) \<and>
     sorted_wrt (\<lambda>j k. \<not> job_ended j \<and> job_done k \<noteq> [] \<longrightarrow> no_conflict (job_accesses j) (job_accesses k)) (sr_jobs s) \<and>
     run_in_order (map done_part (sr_jobs s)) st0 = (sr_store s, map job_local (sr_jobs s))"

lemma serial_inv_init: "serial_start st s \<Longrightarrow> serial_inv st s"
  by (simp add: serial_start_def serial_inv_def run_inv_init) (simp add: run_start_def bodies_def)

text \<open>A body that was started stays started until it ends.\<close>

lemma bodies_distinct: "run_inv c r \<Longrightarrow> distinct (map fst (bodies r))"
  using run_inv_parts(3) by (simp add: bodies_def comp_def distinct_map_filter)

lemma bodies_keep_started:
  assumes "run_step r r'" and inv: "run_inv False r" and "h \<in> fst ` set (bodies r)" and "h \<in> run_started r"
  shows "h \<in> run_started r'"
  using assms(1)
proof cases
  case (run_gone xs t ys)
  obtain u where u: "u \<in> set (run_live r)" "in_body u" "rt_handle u = h" using assms(3) by (auto simp: bodies_def)
  have "u \<noteq> t" using u(2) run_gone(3) by (auto simp: in_body_def)
  then have "h \<noteq> rt_handle t" using other_names(1) [OF inv run_gone(2), of u] u(1,3) run_gone(2) by auto
  then show ?thesis using run_gone(1) assms(4) by simp
qed (use assms(4) in auto)

lemma map_split_two:
  assumes "map f xs = as @ a # bs @ b # cs"
  shows "\<exists>us x vs y ws. xs = us @ x # vs @ y # ws \<and> f x = a \<and> f y = b"
proof -
  obtain us r1 where "xs = us @ r1" "map f r1 = a # bs @ b # cs" using assms by (auto simp: map_eq_append_conv)
  moreover from this obtain x r2 where "r1 = x # r2" "f x = a" "map f r2 = bs @ b # cs" by auto
  moreover from this obtain vs r3 where "r2 = vs @ r3" "map f r3 = b # cs" by (auto simp: map_eq_append_conv)
  moreover from this obtain y ws where "r3 = y # ws" "f y = b" by auto
  ultimately have "xs = us @ x # vs @ y # ws \<and> f x = a \<and> f y = b" by simp
  then show ?thesis by blast
qed

lemma filter_split: "filter P xs = us @ x # vs \<Longrightarrow> \<exists>as bs. xs = as @ x # bs \<and> filter P bs = vs \<and> P x"
proof (induction xs arbitrary: us)
  case (Cons a xs)
  show ?case
  proof (cases "P a \<and> us = []")
    case True
    then show ?thesis using Cons.prems by (intro exI [of _ "[]"] exI [of _ xs]) simp
  next
    case False
    then have "\<exists>us'. filter P xs = us' @ x # vs" using Cons.prems by (cases us) (auto split: if_splits)
    then obtain as bs where "xs = as @ x # bs" "filter P bs = vs" "P x" using Cons.IH by blast
    then show ?thesis by (intro exI [of _ "a # as"] exI [of _ bs]) simp
  qed
qed simp

text \<open>A job that has been started does not conflict with an older one that has not ended.\<close>

lemma started_job_no_conflict:
  assumes inv: "serial_inv st0 s" and jobs: "sr_jobs s = js @ j # ks" and j: "\<not> job_ended j"
    and run: "job_handle j \<in> run_started (sr_run s)" and i: "i \<in> set js" "\<not> job_ended i"
  shows "no_conflict (job_accesses i) (job_accesses j)"
proof (rule ccontr)
  assume "\<not> no_conflict (job_accesses i) (job_accesses j)"
  then obtain r m1 m2 where m: "map_of (job_accesses i) r = Some m1" "map_of (job_accesses j) r = Some m2"
      "is_serial_access m1 m2"
    by (auto simp: no_conflict_def)
  have rinv: "run_inv False (sr_run s)" using inv by (simp add: serial_inv_def)
  let ?g = "\<lambda>j. (job_handle j, job_accesses j)"
  obtain us vs where js: "js = us @ i # vs" using i(1) by (meson split_list)
  have "map (\<lambda>t. (rt_handle t, rt_accesses t)) (filter in_body (run_live (sr_run s))) =
      map ?g (filter (\<lambda>j. \<not> job_ended j) us) @ ?g i # map ?g (filter (\<lambda>j. \<not> job_ended j) vs) @ ?g j #
      map ?g (filter (\<lambda>j. \<not> job_ended j) ks)"
    using inv jobs js i(2) j by (simp add: serial_inv_def bodies_def)
  from map_split_two [OF this] obtain xs x ys y zs where
    f: "filter in_body (run_live (sr_run s)) = xs @ x # ys @ y # zs" "rt_accesses x = job_accesses i"
      "rt_handle y = job_handle j" "rt_accesses y = job_accesses j"
    by auto
  obtain as1 r1 where a: "run_live (sr_run s) = as1 @ x # r1" "filter in_body r1 = ys @ y # zs" "in_body x"
    using filter_split [OF f(1)] by blast
  obtain as2 r2 where b: "r1 = as2 @ y # r2" using filter_split [OF a(2)] by blast
  have "\<not> has_left x r" using a(3) by (simp add: has_left_def in_body_def)
  then show False
    using later_not_started [OF rinv, of as1 x as2 y r2] a(1) b f(2-4) m run by simp
qed

lemma started_jobs:
  assumes inv: "serial_inv st0 s" and step: "run_step (sr_run s) r'"
    and j: "j \<in> set (sr_jobs s)" "\<not> job_ended j" "job_done j \<noteq> []"
  shows "job_handle j \<in> run_started r'"
proof -
  have "map (\<lambda>j. (job_handle j, job_accesses j)) (filter (\<lambda>j. \<not> job_ended j) (sr_jobs s)) = bodies (sr_run s)"
    using inv by (simp add: serial_inv_def)
  moreover have "job_handle j \<in> fst ` set (map (\<lambda>j. (job_handle j, job_accesses j)) (filter (\<lambda>j. \<not> job_ended j) (sr_jobs s)))"
    using j(1,2) by force
  ultimately have "job_handle j \<in> fst ` set (bodies (sr_run s))" by simp
  then show ?thesis using bodies_keep_started [OF step] inv j by (simp add: serial_inv_def)
qed

lemma job_begins_inv:
  assumes inv: "serial_inv st0 s" and step: "run_step (sr_run s) r'"
    and live: "bodies r' = bodies (sr_run s) @ [(h, as)]" and body: "list_all (op_ok as) body"
  shows "serial_inv st0 (s\<lparr>sr_run := r', sr_jobs := sr_jobs s @ [new_job h as body l]\<rparr>)"
  using inv run_step_inv [OF step] started_jobs [OF inv step] live body
  by (auto simp: serial_inv_def new_job_def done_part_def run_in_order_append sorted_wrt_append Let_def)

lemma job_waits_inv:
  assumes inv: "serial_inv st0 s" and step: "run_step (sr_run s) r'" and live: "bodies r' = bodies (sr_run s)"
  shows "serial_inv st0 (s\<lparr>sr_run := r'\<rparr>)"
  using inv run_step_inv [OF step] started_jobs [OF inv step] live by (auto simp: serial_inv_def)

lemma job_ends_inv:
  assumes inv: "serial_inv st0 s" and jobs: "sr_jobs s = js @ j # ks" and j: "\<not> job_ended j" "job_todo j = []"
    and step: "run_step (sr_run s) r'"
    and live: "bodies r' = filter (\<lambda>b. fst b \<noteq> job_handle j) (bodies (sr_run s))"
  shows "serial_inv st0 (s\<lparr>sr_run := r', sr_jobs := js @ j\<lparr>job_ended := True\<rparr> # ks\<rparr>)"
proof -
  let ?g = "\<lambda>j. (job_handle j, job_accesses j)" and ?f = "filter (\<lambda>j. \<not> job_ended j)"
  have rinv: "run_inv False (sr_run s)" and rel: "map ?g (?f (sr_jobs s)) = bodies (sr_run s)"
    using inv by (simp_all add: serial_inv_def)
  have "distinct (map fst (map ?g (?f (sr_jobs s))))" unfolding rel by (rule bodies_distinct [OF rinv])
  then have d: "distinct (map job_handle (?f (sr_jobs s)))" by (simp add: comp_def)
  have other: "job_handle k \<noteq> job_handle j" if "k \<in> set js \<union> set ks" "\<not> job_ended k" for k
  proof -
    have "job_handle k \<in> job_handle ` (set (?f js) \<union> set (?f ks))" using that by auto
    moreover have "job_handle j \<notin> job_handle ` (set (?f js) \<union> set (?f ks))" using d j(1) by (auto simp: jobs)
    ultimately show ?thesis by metis
  qed
  then have "filter (\<lambda>k. job_handle k \<noteq> job_handle j) (?f (sr_jobs s)) = ?f js @ ?f ks"
    using j(1) by (simp add: jobs) (intro arg_cong2 [of _ _ _ _ "(@)"] filter_cong; auto)
  moreover have "map ?g (filter (\<lambda>k. job_handle k \<noteq> job_handle j) (?f (sr_jobs s))) =
      filter (\<lambda>b. fst b \<noteq> job_handle j) (map ?g (?f (sr_jobs s)))"
    by (simp add: filter_map comp_def)
  ultimately have new: "map ?g (?f js @ ?f ks) = bodies r'" using rel by (simp add: live)
  have "job_handle k \<in> run_started r'" if "k \<in> set js \<union> set ks" "\<not> job_ended k" "job_done k \<noteq> []" for k
    using started_jobs [OF inv step] that by (simp add: jobs)
  then show ?thesis
    using inv jobs new run_step_inv [OF step rinv] j
    by (auto simp: serial_inv_def sorted_wrt_append done_part_def)
qed

lemma job_moves_inv:
  assumes inv: "serial_inv st0 s" and jobs: "sr_jobs s = js @ j # ks" and j: "\<not> job_ended j"
    and run: "job_handle j \<in> run_started (sr_run s)" and todo: "job_todo j = a # as"
    and op: "do_op a (sr_store s, job_local j) = (st', l')"
  shows "serial_inv st0 (s\<lparr>sr_store := st', sr_jobs := js @ j\<lparr>job_done := job_done j @ [a], job_todo := as,
       job_local := l'\<rparr> # ks\<rparr>)"
proof -
  let ?j = "j\<lparr>job_done := job_done j @ [a], job_todo := as, job_local := l'\<rparr>"
  obtain st1 ls where s1: "run_in_order (map done_part js) st0 = (st1, ls)" by fastforce
  obtain st2 l2 where s2: "fold do_op (job_done j) (st1, job_first j) = (st2, l2)" by fastforce
  obtain st3 ms where s3: "run_in_order (map done_part ks) st2 = (st3, ms)" by fastforce
  have "run_in_order (map done_part (js @ j # ks)) st0 = (st3, ls @ l2 # ms)"
    using s1 s2 s3 by (simp add: run_in_order_append done_part_def Let_def)
  moreover have "run_in_order (map done_part (js @ j # ks)) st0 = (sr_store s, map job_local (js @ j # ks))"
    using inv jobs by (simp add: serial_inv_def)
  moreover have "length ls = length js"
  proof -
    have "length (snd (run_in_order (map done_part js) st)) = length js" for st
      by (induction js arbitrary: st) (simp_all add: done_part_def Let_def case_prod_beta)
    then show ?thesis using s1 by (metis snd_conv)
  qed
  ultimately have eq: "sr_store s = st3" "ls = map job_local js" "l2 = job_local j" "ms = map job_local ks"
    by auto
  have sw: "\<And>k. k \<in> set ks \<Longrightarrow> job_done k \<noteq> [] \<Longrightarrow> no_conflict (job_accesses j) (job_accesses k)"
    using inv jobs j by (auto simp: serial_inv_def sorted_wrt_append)
  have ok: "op_ok (job_accesses j) a" "\<And>k. k \<in> set ks \<Longrightarrow> list_all (op_ok (job_accesses k)) (job_done k)"
    using inv jobs todo by (auto simp: serial_inv_def)
  have ex: "fst (run_in_order (map done_part ks) (fst (do_op a (st2, l2)))) = fst (do_op a (st3, l2))"
    "snd (run_in_order (map done_part ks) (fst (do_op a (st2, l2)))) = ms"
    "snd (do_op a (st3, l2)) = snd (do_op a (st2, l2))"
    using run_in_order_exchange [OF ok(1), of ks, where st = st2 and l = l2] ok(2) sw s3 by auto
  have st': "fst (do_op a (st3, l2)) = st'" "snd (do_op a (st3, l2)) = l'" using op eq by simp_all
  obtain st4 where s4: "do_op a (st2, l2) = (st4, l')" using ex(3) st'(2) by (metis prod.collapse)
  have s5: "run_in_order (map done_part ks) st4 = (st', ms)" using ex(1,2) s4 st'(1) by (metis fst_conv prod.collapse)
  have "run_in_order (map done_part (js @ ?j # ks)) st0 = (st', map job_local (js @ ?j # ks))"
    using s1 s2 s4 s5 eq by (simp add: run_in_order_append done_part_def Let_def)
  moreover have "no_conflict (job_accesses i) (job_accesses j)" if "i \<in> set js" "\<not> job_ended i" for i
    by (rule started_job_no_conflict [OF inv jobs j run that])
  ultimately show ?thesis
    using inv jobs j run todo by (auto simp: serial_inv_def sorted_wrt_append)
qed

lemma serial_step_inv: "serial_step s t \<Longrightarrow> serial_inv st0 s \<Longrightarrow> serial_inv st0 t"
proof (induction rule: serial_step.induct)
  case (job_begins s r' h as body l)
  then show ?case by (intro job_begins_inv)
next
  case (job_waits s r')
  then show ?case by (intro job_waits_inv) (simp_all add: quiet_step_def)
next
  case (job_moves s js j ks a as st' l')
  then show ?case by (intro job_moves_inv)
next
  case (job_ends s js j ks r')
  then show ?case by (intro job_ends_inv)
qed

interpretation serial: invariant_system "serial_start st0" serial_step "serial_inv st0" for st0
  by unfold_locales (blast intro: serial_inv_init serial_step_inv)+

subsection \<open>Runs of jobs\<close>

lemma serial_quiet: "quiet_step\<^sup>*\<^sup>* (sr_run s) r \<Longrightarrow> serial_step\<^sup>*\<^sup>* s (s\<lparr>sr_run := r\<rparr>)"
proof (induction rule: rtranclp_induct)
  case (step r r')
  have "serial_step (s\<lparr>sr_run := r\<rparr>) (s\<lparr>sr_run := r\<rparr>\<lparr>sr_run := r'\<rparr>)" by (rule job_waits) (use step.hyps(2) in simp)
  then show ?case using step.IH by (simp add: rtranclp.rtrancl_into_rtrancl)
qed simp

end
