(* ===== verification/Task_Programs.thy ===== *)
theory Task_Programs
  imports Task_Serial
begin

section \<open>Programs: sequences of dispatches\<close>

text \<open>
  A program dispatches tasks one after the other; each has its accesses, its body and its local
  state. Every program whose tasks name distinct resources, and few enough for the queues, can run
  to the end, and every run to the end leaves what the sequential execution leaves.
\<close>

type_synonym 'l program = "(accesses \<times> 'l task_op list \<times> 'l) list"

definition job_of :: "'l job \<Rightarrow> accesses \<times> 'l task_op list \<times> 'l" where
  "job_of j = (job_accesses j, job_done j @ job_todo j, job_first j)"

definition task_fits :: "accesses \<times> 'l task_op list \<times> 'l \<Rightarrow> bool" where
  "task_fits t = (case t of (as, body, l) \<Rightarrow> distinct (map fst as) \<and> length as < 2 ^ 16 \<and> list_all (op_ok as) body)"

definition run_program :: "'l program \<Rightarrow> store \<Rightarrow> store \<times> 'l list" where
  "run_program prog st = run_in_order (map snd prog) st"

text \<open>A run of the program that is over.\<close>

definition program_done :: "'l program \<Rightarrow> 'l serial_run \<Rightarrow> bool" where
  "program_done prog s \<longleftrightarrow> map job_of (sr_jobs s) = prog \<and> list_all job_ended (sr_jobs s)"

lemma program_result:
  assumes "reach (serial_start st) serial_step s" and "program_done prog s"
  shows "run_program prog st = (sr_store s, map job_local (sr_jobs s))"
proof -
  have inv: "serial_inv st s" by (rule serial.reach_inv [OF assms(1)])
  have "map snd prog = map done_part (sr_jobs s)"
    using inv assms(2) by (auto simp: program_done_def serial_inv_def job_of_def done_part_def list_all_iff)
  then show ?thesis using inv by (simp add: run_program_def serial_inv_def)
qed

subsection \<open>Programs can run\<close>

subsection \<open>Single jobs\<close>

text \<open>A job is dispatched, beside others that are.\<close>

lemma job_dispatched:
  assumes reach: "reach (serial_start st) serial_step s" and inv: "run_inv True (sr_run s)"
    and fresh: "h \<notin> rt_handle ` set (run_live (sr_run s))" "p \<notin> rt_counter ` set (run_live (sr_run s))" "p \<noteq> 0"
    and fits: "task_fits (as, body, l)" and alone: "list_all (\<lambda>t. \<not> registering t) (run_live (sr_run s))"
    and room: "\<And>r. lasts (sr_run s) r + 1 < node_capacity"
  shows "\<exists>s'. reach (serial_start st) serial_step s' \<and> run_inv True (sr_run s') \<and> sr_jobs s' = sr_jobs s @ [new_job h as body l] \<and>
    sr_store s' = sr_store s \<and> run_live (sr_run s') = run_live (sr_run s) @ [(new_task h p as)\<lparr>rt_phase := Dispatched\<rparr>] \<and>
    (\<forall>r. lasts (sr_run s') r \<le> lasts (sr_run s) r + 1)"
proof -
  have as: "distinct (map fst as)" "length as < 2 ^ 16" "list_all (op_ok as) body"
    using fits by (simp_all add: task_fits_def)
  obtain v u where u: "run_step (sr_run s) v" "bodies v = bodies (sr_run s) @ [(h, as)]" "quiet_step\<^sup>*\<^sup>* v u"
      "run_live u = run_live (sr_run s) @ [(new_task h p as)\<lparr>rt_phase := Dispatched\<rparr>]"
      "\<forall>r. lasts u r \<le> lasts (sr_run s) r + (if r \<in> fst ` set as then 1 else 0)" "run_inv True u"
    using new_task_dispatched [OF inv fresh as(1,2) alone room] by blast
  let ?v = "s\<lparr>sr_run := v, sr_jobs := sr_jobs s @ [new_job h as body l]\<rparr>"
  have "reach (serial_start st) serial_step ?v" by (rule reach_step [OF reach job_begins [OF u(1,2) as(3)]])
  moreover have "serial_step\<^sup>*\<^sup>* ?v (?v\<lparr>sr_run := u\<rparr>)" by (rule serial_quiet) (simp add: u(3))
  ultimately have "reach (serial_start st) serial_step (?v\<lparr>sr_run := u\<rparr>)" by (blast intro: reach_steps)
  moreover have "lasts u r \<le> lasts (sr_run s) r + 1" for r using spec [OF u(5), of r] by (auto split: if_splits)
  ultimately show ?thesis using u(4,6) by (intro exI [of _ "?v\<lparr>sr_run := u\<rparr>"]) simp
qed

text \<open>The body of a job that was started.\<close>

lemma body_moves:
  "sr_jobs s = js @ j # ks \<Longrightarrow> \<not> job_ended j \<Longrightarrow> job_handle j \<in> run_started (sr_run s) \<Longrightarrow>
   fold do_op (job_todo j) (sr_store s, job_local j) = (st', l') \<Longrightarrow>
   serial_step\<^sup>*\<^sup>* s (s\<lparr>sr_store := st', sr_jobs := js @ j\<lparr>job_done := job_done j @ job_todo j, job_todo := [], job_local := l'\<rparr> # ks\<rparr>)"
proof (induction "job_todo j" arbitrary: s j)
  case Nil
  then have "s\<lparr>sr_store := st', sr_jobs := js @ j\<lparr>job_done := job_done j @ job_todo j, job_todo := [], job_local := l'\<rparr> # ks\<rparr> = s"
    by (cases s; cases j) simp
  then show ?case by simp
next
  case (Cons a as)
  obtain st1 l1 where op: "do_op a (sr_store s, job_local j) = (st1, l1)" by fastforce
  let ?j = "j\<lparr>job_done := job_done j @ [a], job_todo := as, job_local := l1\<rparr>"
  let ?s = "s\<lparr>sr_store := st1, sr_jobs := js @ ?j # ks\<rparr>"
  note todo = Cons.hyps(2) [symmetric]
  have step: "serial_step s ?s" by (rule job_moves [OF Cons.prems(1-3) todo op])
  have "fold do_op (job_todo ?j) (sr_store ?s, job_local ?j) = (st', l')" using Cons.prems(4) todo op by simp
  then have "serial_step\<^sup>*\<^sup>* ?s (?s\<lparr>sr_store := st', sr_jobs := js @ ?j\<lparr>job_done := job_done ?j @ job_todo ?j, job_todo := [], job_local := l'\<rparr> # ks\<rparr>)"
    by (intro Cons.hyps(1)) (use Cons.prems in simp_all)
  then show ?case using converse_rtranclp_into_rtranclp [of serial_step, OF step] todo by simp
qed

text \<open>The oldest job does what is left of its body, and ends.\<close>

lemma oldest_job_ends:
  assumes reach: "reach (serial_start st) serial_step s" and inv: "run_inv True (sr_run s)" and jobs: "sr_jobs s = js @ j # ks" and ended: "list_all job_ended js"
    and j: "\<not> job_ended j" and live: "run_live (sr_run s) = t # ts" and t: "rt_handle t = job_handle j" "rt_phase t = Dispatched"
    and body: "fold do_op (job_todo j) (sr_store s, job_local j) = (st', l')"
  shows "\<exists>s'. reach (serial_start st) serial_step s' \<and> run_inv True (sr_run s') \<and> sr_jobs s' = js @ j\<lparr>job_done := job_done j @ job_todo j, job_todo := [],
      job_local := l', job_ended := True\<rparr> # ks \<and> sr_store s' = st' \<and> run_live (sr_run s') = ts \<and> lasts (sr_run s') = lasts (sr_run s)"
proof -
  let ?r = "sr_run s"
  have "task_ok (run_sys ?r) (run_started ?r) t" by (rule run_inv_task [OF inv]) (simp add: live)
  then have st: "job_handle j \<in> run_started ?r" using oldest_task(1) [OF inv live] t by (auto simp: task_ok_def)
  let ?j = "j\<lparr>job_done := job_done j @ job_todo j, job_todo := [], job_local := l'\<rparr>"
  let ?s = "s\<lparr>sr_store := st', sr_jobs := js @ ?j # ks\<rparr>"
  have s1: "reach (serial_start st) serial_step ?s" by (rule reach_steps [OF body_moves [OF jobs j st body] reach])
  let ?e = "?r\<lparr>run_live := t\<lparr>rt_phase := Leaving 0\<rparr> # ts\<rparr>"
  have e: "run_step ?r ?e" using run_end [of ?r "[]" t ts] live t st by simp
  have e_inv: "run_inv True ?e" using end_keeps_inv [OF inv, of "[]" t ts] live t st by simp
  have "distinct (map fst (bodies ?r))" by (rule bodies_distinct [OF inv])
  then have "filter (\<lambda>b. fst b \<noteq> fst (hd (bodies ?r))) (bodies ?r) = tl (bodies ?r)"
    by (rule distinct_remove_hd) (use live t in \<open>simp add: bodies_def\<close>)
  then have "bodies ?e = filter (\<lambda>b. fst b \<noteq> job_handle j) (bodies ?r)"
    using live t by (simp add: bodies_def)
  with e have "serial_step ?s (?s\<lparr>sr_run := ?e, sr_jobs := js @ ?j\<lparr>job_ended := True\<rparr> # ks\<rparr>)" (is "serial_step _ ?f")
    using job_ends [of ?s js ?j ks ?e] j by simp
  then have f: "reach (serial_start st) serial_step ?f" by (rule reach_step [OF s1])
  obtain u where u: "quiet_step\<^sup>*\<^sup>* ?e u" "run_live u = ts" "lasts u = lasts ?e" "run_inv True u"
    using leaving_goes_on [OF e_inv, of "t\<lparr>rt_phase := Leaving 0\<rparr>" ts 0] by auto
  have "serial_step\<^sup>*\<^sup>* ?f (?f\<lparr>sr_run := u\<rparr>)" by (rule serial_quiet) (simp add: u(1))
  then have "reach (serial_start st) serial_step (?f\<lparr>sr_run := u\<rparr>)" using f by (rule reach_steps)
  moreover have "lasts ?e = lasts ?r" by (simp add: lasts_def fun_eq_iff)
  ultimately show ?thesis using u(2-4) by (intro exI [of _ "?f\<lparr>sr_run := u\<rparr>"]) simp
qed

subsection \<open>Whole programs\<close>

lemma serial_begin: "reach (serial_start st) serial_step \<lparr>sr_run = run_empty, sr_store = st, sr_jobs = []\<rparr>"
  by (rule reach_init) (simp add: serial_start_def run_empty_start)

lemmas empty_inv = run_inv_init [OF run_empty_start]

lemma lasts_empty: "lasts run_empty r = 0"
  by (simp add: lasts_def run_empty_def quiet_ok)

lemma program_runs:
  "list_all task_fits prog \<Longrightarrow> length prog + 1 < node_capacity \<Longrightarrow>
   \<exists>s. reach (serial_start st) serial_step s \<and> run_inv True (sr_run s) \<and> program_done prog s \<and> run_live (sr_run s) = [] \<and>
     (\<forall>r. lasts (sr_run s) r \<le> length prog)"
proof (induction prog rule: rev_induct)
  case Nil
  show ?case
    by (intro exI [of _ "\<lparr>sr_run = run_empty, sr_store = st, sr_jobs = []\<rparr>"])
      (simp add: serial_begin empty_inv lasts_empty program_done_def, simp add: run_empty_def)
next
  case (snoc t prog)
  then obtain s where s: "reach (serial_start st) serial_step s" "program_done prog s" "run_live (sr_run s) = []"
      "\<forall>r. lasts (sr_run s) r \<le> length prog" "run_inv True (sr_run s)" by auto
  obtain as body l where t: "t = (as, body, l)" by (cases t)
  have room: "lasts (sr_run s) r + 1 < node_capacity" for r using spec [OF s(4), of r] snoc.prems(2) by simp
  obtain s1 where s1: "reach (serial_start st) serial_step s1" "sr_jobs s1 = sr_jobs s @ [new_job 7 as body l]"
      "run_live (sr_run s1) = [(new_task 7 70 as)\<lparr>rt_phase := Dispatched\<rparr>]" "\<forall>r. lasts (sr_run s1) r \<le> lasts (sr_run s) r + 1"
      "run_inv True (sr_run s1)"
    using job_dispatched [OF s(1,5), of 7 70 as body l] s(3) snoc.prems(1) t room by auto
  obtain st' l' where b: "fold do_op (job_todo (new_job 7 as body l)) (sr_store s1, job_local (new_job 7 as body l)) = (st', l')"
    by fastforce
  have over: "list_all job_ended (sr_jobs s)" using s(2) by (simp add: program_done_def)
  obtain s2 where s2: "reach (serial_start st) serial_step s2" "run_live (sr_run s2) = []" "lasts (sr_run s2) = lasts (sr_run s1)"
      "sr_jobs s2 = sr_jobs s @ [(new_job 7 as body l)\<lparr>job_done := body, job_todo := [], job_local := l', job_ended := True\<rparr>]"
      "run_inv True (sr_run s2)"
    using oldest_job_ends [OF s1(1,5,2) over _ s1(3) _ _ b] by (auto simp: new_job_def new_task_def)
  have "program_done (prog @ [t]) s2" using s(2) by (simp add: program_done_def s2(4) job_of_def new_job_def t)
  moreover have "lasts (sr_run s2) r \<le> length (prog @ [t])" for r
    using spec [OF s1(4), of r] spec [OF s(4), of r] by (simp add: s2(3))
  ultimately show ?case using s2(1,2,5) by blast
qed

subsection \<open>Properties\<close>

text \<open>
  C1. Provided that dispatches under way at the same time share no resource: whatever the interleaving
  and the order in which tasks end, what the tasks did so far and the values they read are those of
  the sequential execution of what each has done, in dispatch order; and when all tasks have
  ended, the resources and the results are those of executing the whole bodies one after the
  other.
\<close>

theorem runs_are_serial:
  assumes "reach (serial_start st0) serial_step s"
  shows "run_in_order (map done_part (sr_jobs s)) st0 = (sr_store s, map job_local (sr_jobs s)) \<and>
    (list_all job_ended (sr_jobs s) \<longrightarrow>
       run_in_order (map (\<lambda>j. (job_done j @ job_todo j, job_first j)) (sr_jobs s)) st0 =
         (sr_store s, map job_local (sr_jobs s)))"
proof -
  note inv = serial.reach_inv [OF assms]
  have now: "run_in_order (map done_part (sr_jobs s)) st0 = (sr_store s, map job_local (sr_jobs s))"
    using inv by (simp add: serial_inv_def)
  have whole: "map (\<lambda>j. (job_done j @ job_todo j, job_first j)) (sr_jobs s) = map done_part (sr_jobs s)"
    if "list_all job_ended (sr_jobs s)"
    using inv that by (auto simp: serial_inv_def list_all_iff done_part_def)
  show ?thesis
    by (intro conjI impI) (rule now, simp only: whole now)
qed

text \<open>
  Task 7 writes a resource, task 8 reads it. Both are dispatched before the body of task 7 begins;
  task 8 waits for it.
\<close>

lemma write_then_read_reach:
  "\<exists>s. reach (serial_start (\<lambda>_. 1)) serial_step s \<and> sr_store s = (\<lambda>_. 1)(3 := 6) \<and> map job_local (sr_jobs s) = [0, 6] \<and>
     map job_ended (sr_jobs s) = [True, True] \<and>
     map job_of (sr_jobs s) = [([(3, Write), (4, Write)], [Op_write 3 (\<lambda>v l. (v + 5, l))], 0),
       ([(3, Read), (4, Read)], [Op_read 3 (\<lambda>v l. v)], 0 :: int)]"
proof -
  let ?a7 = "[(3, Write), (4, Write)] :: accesses" and ?a8 = "[(3, Read), (4, Read)] :: accesses"
  let ?w = "[Op_write 3 (\<lambda>v l. (v + 5, l))] :: int task_op list" and ?r = "[Op_read 3 (\<lambda>v l. v)] :: int task_op list"
  let ?j7 = "new_job 7 ?a7 ?w 0" and ?j8 = "new_job 8 ?a8 ?r 0"
  have fits: "task_fits (?a7, ?w, 0)" "task_fits (?a8, ?r, 0)" by (simp_all add: task_fits_def op_ok_def)
  have room: "n + 1 < node_capacity" if "n \<le> 1" for n using that by (simp add: node_capacity_def)
  note start = serial_begin [of "\<lambda>_. 1"]
  have live0: "run_live run_empty = []" by (simp add: run_empty_def)
  obtain s1 where s1: "reach (serial_start (\<lambda>_. 1)) serial_step s1" "sr_jobs s1 = [?j7]" "sr_store s1 = (\<lambda>_. 1)"
      "run_live (sr_run s1) = [task_7]" "\<forall>r. lasts (sr_run s1) r \<le> 1" "run_inv True (sr_run s1)"
    using job_dispatched [OF start _ _ _ _ fits(1), of 7 70] room empty_inv by (auto simp: lasts_empty live0 task_7_def)
  have n: "rt_handle task_7 = 7" "rt_counter task_7 = 70" "\<not> registering task_7" "rt_phase task_7 = Dispatched"
    "rt_handle task_8 = 8" "rt_phase task_8 = Dispatched"
    by (simp_all add: task_7_def task_8_def) (simp_all add: new_task_def)
  obtain s2 where s2: "reach (serial_start (\<lambda>_. 1)) serial_step s2" "sr_jobs s2 = [?j7, ?j8]" "sr_store s2 = (\<lambda>_. 1)"
      "run_live (sr_run s2) = [task_7, task_8]" "run_inv True (sr_run s2)"
    using job_dispatched [OF s1(1,6) _ _ _ fits(2), of 8 80] room s1(2-5) n by (auto simp: task_8_def)
  let ?k7 = "?j7\<lparr>job_done := ?w, job_todo := [], job_ended := True\<rparr>"
  have "fold do_op (job_todo ?j7) (sr_store s2, job_local ?j7) = ((\<lambda>_. 1)(3 := 6), 0)" by (simp add: s2(3) new_job_def)
  from oldest_job_ends [OF s2(1,5) _ _ _ s2(4) _ _ this, of "[]" "[?j8]"] s2(2) n obtain s3 where
    s3: "reach (serial_start (\<lambda>_. 1)) serial_step s3" "sr_jobs s3 = [?k7, ?j8]" "sr_store s3 = (\<lambda>_. 1)(3 := 6)"
      "run_live (sr_run s3) = [task_8]" "run_inv True (sr_run s3)"
    by (auto simp: new_job_def)
  have "fold do_op (job_todo ?j8) (sr_store s3, job_local ?j8) = ((\<lambda>_. 1)(3 := 6), 6)" by (simp add: s3(3) new_job_def)
  from oldest_job_ends [OF s3(1,5) _ _ _ s3(4) _ _ this, of "[?k7]" "[]"] s3(2) n obtain s4 where
    "reach (serial_start (\<lambda>_. 1)) serial_step s4" "sr_store s4 = (\<lambda>_. 1)(3 := 6)"
      "sr_jobs s4 = [?k7, ?j8\<lparr>job_done := ?r, job_todo := [], job_local := 6, job_ended := True\<rparr>]"
    by (auto simp: new_job_def)
  then show ?thesis by (intro exI [of _ s4]) (simp add: new_job_def job_of_def)
qed

lemma all_ended: "set (map job_ended js) \<subseteq> {True} \<Longrightarrow> list_all job_ended js"
  by (auto simp: list_all_iff)

lemma runs_are_serial_witness:
  "\<exists>s. reach (serial_start (\<lambda>_. 1)) serial_step s \<and> sr_store s 3 = 6 \<and> map job_ended (sr_jobs s) = [True, True] \<and>
     run_in_order (map (\<lambda>j. (job_done j @ job_todo j, job_first j)) (sr_jobs s)) (\<lambda>_. 1) =
       (sr_store s, [0, 6 :: int])"
proof -
  obtain s :: "int serial_run" where s: "reach (serial_start (\<lambda>_. 1)) serial_step s" "sr_store s = (\<lambda>_. 1)(3 := 6)"
      "map job_local (sr_jobs s) = [0, 6]" "map job_ended (sr_jobs s) = [True, True]"
    using write_then_read_reach by (elim exE conjE) (rule that)
  have ended: "list_all job_ended (sr_jobs s)"
    by (rule all_ended) (subst s(4), simp)
  note serial = runs_are_serial [OF s(1), THEN conjunct2, THEN mp, OF ended]
  have "sr_store s 3 = 6" by (subst s(2)) simp
  with s(1,4) serial [unfolded s(3)] show ?thesis by (intro exI [of _ s] conjI)
qed

end
