(* ===== verification/Math_Utils.thy ===== *)
theory Math_Utils
  imports Prelude "HOL-Library.Signed_Division"
begin

section \<open>Remainders by a constant (math_utils.hpp)\<close>

text \<open>
  \<open>modulo<Modulus>(value)\<close> masks when the modulus is a power of two and divides otherwise. The
  values are integers of any integral type, so they are mathematical integers here, negative
  ones in two's complement; \<open>%\<close> is the remainder of truncated division, \<open>smod\<close>.
\<close>

definition modulo :: "int \<Rightarrow> int \<Rightarrow> int" where
  "modulo modulus v = (if modulus AND (modulus - 1) = 0 then v AND (modulus - 1) else v smod modulus)"

lemma mask_zero_imp_power: "0 < (m::int) \<Longrightarrow> m AND (m - 1) = 0 \<Longrightarrow> \<exists>k. m = 2 ^ k"
proof (induction "nat m" arbitrary: m rule: less_induct)
  case less
  have half: "(m div 2) AND ((m - 1) div 2) = 0"
    using drop_bit_and [of 1 m "m - 1"] less.prems(2) by (simp add: drop_bit_eq_div)
  show ?case
  proof (cases "even m")
    case True
    then obtain n where n: "m = 2 * n" by (elim evenE)
    then have "(m - 1) div 2 = n - 1" "m div 2 = n" by auto
    then have "n AND (n - 1) = 0" using half by simp
    then obtain k where "n = 2 ^ k" using less.hyps [of n] less.prems(1) n by auto
    then have "m = 2 ^ Suc k" using n by simp
    then show ?thesis by blast
  next
    case False
    then obtain n where n: "m = 2 * n + 1" by (elim oddE)
    then have "n = 0" using half by simp
    then have "m = 2 ^ 0" using n by simp
    then show ?thesis by blast
  qed
qed

lemma power_mask_zero: "(2 ^ k :: int) AND (2 ^ k - 1) = 0"
proof -
  have "(2 ^ k :: int) AND (2 ^ k - 1) = 2 ^ k mod 2 ^ k"
    by (metis mask_eq_exp_minus_1 take_bit_eq_mask take_bit_eq_mod)
  then show ?thesis by simp
qed

lemma modulo_power: "modulo (2 ^ k) v = v mod 2 ^ k"
proof -
  have "v AND (2 ^ k - 1) = v mod 2 ^ k"
    by (metis mask_eq_exp_minus_1 take_bit_eq_mask take_bit_eq_mod)
  then show ?thesis by (simp add: modulo_def power_mask_zero)
qed

lemma smod_nonneg: "0 \<le> v \<Longrightarrow> 0 < m \<Longrightarrow> v smod m = v mod (m::int)"
  by (cases "v = 0") (simp_all add: signed_modulo_int_def)

text \<open>
  On values that are not negative, \<open>modulo\<close> is the remainder, for powers of two and for
  all other positive moduli.
\<close>

theorem modulo_is_remainder:
  assumes "0 < m" and "0 \<le> v"
  shows "modulo m v = v mod m"
proof (cases "m AND (m - 1) = 0")
  case True
  then obtain k where "m = 2 ^ k" using mask_zero_imp_power assms(1) by blast
  then show ?thesis by (simp add: modulo_power)
next
  case False
  then show ?thesis using smod_nonneg assms by (simp add: modulo_def)
qed

lemma modulo_is_remainder_witness: "modulo 64 1000 = 40 \<and> modulo 10 1234 = 4"
  using modulo_is_remainder [of 64 1000] modulo_is_remainder [of 10 1234] by simp

text \<open>
  On negative values the documented result, the \<open>%\<close> of the language, is what moduli that
  are not powers of two give; powers of two give the residue that is not negative instead.
\<close>

theorem modulo_of_negative:
  assumes "0 < m" and "v < 0"
  shows "modulo m v = (if \<exists>k. m = 2 ^ k then v mod m else - ((- v) mod m))"
proof (cases "m AND (m - 1) = 0")
  case True
  then obtain k where "m = 2 ^ k" using mask_zero_imp_power assms(1) by blast
  then show ?thesis by (auto simp: modulo_power)
next
  case False
  then have "\<nexists>k. m = 2 ^ k" using power_mask_zero by metis
  then show ?thesis using False assms by (simp add: modulo_def signed_modulo_int_def)
qed

lemma modulo_of_negative_witness: "modulo 8 (-3) = 5 \<and> modulo 10 (-3) = -3"
proof -
  have p: "\<exists>k. (8::int) = 2 ^ k" by (rule exI [of _ 3]) simp
  have "modulo 8 (-3) = 5" using modulo_of_negative [of 8 "-3"] p by simp
  moreover have "\<nexists>k. (10::int) = 2 ^ k"
  proof
    assume "\<exists>k. (10::int) = 2 ^ k"
    then have "(10::int) AND (10 - 1) = 0" using power_mask_zero by metis
    then show False by simp
  qed
  ultimately show ?thesis using modulo_of_negative [of 10 "-3"] by simp
qed

end
