(* ===== verification/Rand_Graph.thy ===== *)
theory Rand_Graph
  imports Task_Programs Math_Utils
begin

section \<open>The random task graph (tests/randGraph.cpp)\<close>

text \<open>
  The test draws, for each of its tasks, the resources the task will write, and computes on the
  way what the values of the resources must be at the end. It then dispatches the tasks, a
  barrier, and for each resource a task that reads and compares. The random numbers are
  parameters: the lists of what the two distributions return. Resource \<open>k\<close> is the one with queue \<open>k\<close>.
\<close>

subsection \<open>The pattern and the expected values\<close>

text \<open>
  \<open>hash\<close> adds the task's number to the first word. It also computes a SHA-256 block of the value,
  into a local array that nobody reads: the value is not changed by that.
\<close>

definition hash :: "nat \<Rightarrow> u64 list \<Rightarrow> u64 list" where
  "hash task_id val = val[0 := val ! 0 + of_nat task_id]"

record graph =
  access_pattern :: "nat list list"
  expected_hash :: "u64 list list"
  path_length :: "nat list"

text \<open>Draws until a resource comes that the task does not have; nothing if the draws run out.\<close>

fun draw_resource :: "nat list \<Rightarrow> nat list \<Rightarrow> (nat \<times> nat list) option" where
  "draw_resource pat [] = None"
| "draw_resource pat (r # rs) = (if r \<notin> set pat then Some (r, rs) else draw_resource pat rs)"

definition add_dependency :: "nat \<Rightarrow> nat \<Rightarrow> nat list \<Rightarrow> graph \<Rightarrow> nat list \<times> graph" where
  "add_dependency i r pat g =
     (let pat' = pat @ [r];
          longest = (if path_length g ! r > 0 then path_length g ! r else 0)
      in (pat', g\<lparr>expected_hash := (expected_hash g)[r := hash i (expected_hash g ! r)],
           path_length := fold (\<lambda>rid pl. pl[rid := longest + 1]) pat' (path_length g)\<rparr>))"

fun draw_dependencies :: "nat \<Rightarrow> nat \<Rightarrow> nat list \<Rightarrow> nat list \<Rightarrow> graph \<Rightarrow> (nat list \<times> nat list \<times> graph) option" where
  "draw_dependencies i 0 rs pat g = Some (pat, rs, g)"
| "draw_dependencies i (Suc n) rs pat g =
     (case draw_resource pat rs of
        None \<Rightarrow> None
      | Some (r, rs') \<Rightarrow>
          (case add_dependency i r pat g of (pat', g') \<Rightarrow> draw_dependencies i n rs' pat' g'))"

fun generate_from :: "nat \<Rightarrow> nat list \<Rightarrow> nat list \<Rightarrow> graph \<Rightarrow> graph option" where
  "generate_from i [] rs g = Some g"
| "generate_from i (n # ns) rs g =
     (case draw_dependencies i n rs [] g of
        None \<Rightarrow> None
      | Some (pat, rs', g') \<Rightarrow> generate_from (i + 1) ns rs' (g'\<lparr>access_pattern := access_pattern g' @ [pat]\<rparr>))"

definition generate_access_pattern :: "nat \<Rightarrow> nat list \<Rightarrow> nat list \<Rightarrow> graph option" where
  "generate_access_pattern n_resources ns rs =
     generate_from 0 ns rs \<lparr>access_pattern = [], expected_hash = replicate n_resources (replicate 8 0),
       path_length = replicate n_resources 0\<rparr>"

subsection \<open>The tasks\<close>

text \<open>
  A resource holds an array of eight words, of which only the first is ever changed: its value is
  that word as an integer.
\<close>

definition array_of :: "int \<Rightarrow> u64 list" where
  "array_of v = word_of_int v # replicate 7 0"

definition value_of :: "u64 list \<Rightarrow> int" where
  "value_of a = uint (a ! 0)"

definition hash_op :: "nat \<Rightarrow> int task_op" where
  "hash_op r = Op_write r (\<lambda>v i. (value_of (hash (nat i) (array_of v)), i))"

text \<open>\<open>test\<close> dispatches task \<open>i\<close> with write accesses, for zero to five resources.\<close>

definition pattern_task :: "nat \<Rightarrow> nat list \<Rightarrow> int program" where
  "pattern_task i pat =
     (if length pat = 0 then [([], [], int i)]
      else if length pat \<le> 5 then [(map (\<lambda>r. (r, Write)) pat, map hash_op pat, int i)]
      else [])"

text \<open>
  The barrier does what dispatching an empty task with write access to all resources does
  (theory Barrier).
\<close>

definition barrier_job :: "nat \<Rightarrow> accesses \<times> int task_op list \<times> int" where
  "barrier_job n_resources = (map (\<lambda>r. (r, Write)) [0..<n_resources], [], 0)"

text \<open>The tasks behind the barrier read; what they compare with is \<open>expected_hash\<close>.\<close>

definition check_task :: "nat \<Rightarrow> accesses \<times> int task_op list \<times> int" where
  "check_task r = ([(r, Read)], [Op_read r (\<lambda>v l. v)], int r)"

definition test_program :: "nat \<Rightarrow> graph \<Rightarrow> int program" where
  "test_program n_resources g =
     concat (map (\<lambda>i. pattern_task i (access_pattern g ! i)) [0..<length (access_pattern g)]) @
     barrier_job n_resources # map check_task [0..<n_resources]"

definition found_correct :: "graph \<Rightarrow> nat \<Rightarrow> int \<Rightarrow> bool" where
  "found_correct g r v \<longleftrightarrow> array_of v = expected_hash g ! r"

subsection \<open>What the pattern and the expected values are\<close>

definition tasks_of :: "nat \<Rightarrow> nat list list \<Rightarrow> nat list" where
  "tasks_of r pats = filter (\<lambda>i. r \<in> set (pats ! i)) [0..<length pats]"

lemma tasks_of_snoc: "tasks_of r (pats @ [pat]) = tasks_of r pats @ (if r \<in> set pat then [length pats] else [])"
proof -
  have "filter (\<lambda>i. r \<in> set ((pats @ [pat]) ! i)) [0..<length pats] = tasks_of r pats"
    unfolding tasks_of_def by (rule filter_cong) (auto simp: nth_append)
  then show ?thesis by (simp add: tasks_of_def)
qed

definition graph_ok :: "nat \<Rightarrow> graph \<Rightarrow> bool" where
  "graph_ok n g \<longleftrightarrow> length (expected_hash g) = n \<and>
     (\<forall>r < n. expected_hash g ! r = fold hash (tasks_of r (access_pattern g)) (replicate 8 0)) \<and>
     (\<forall>pat \<in> set (access_pattern g). distinct pat \<and> set pat \<subseteq> {..<n} \<and> length pat \<le> 5)"

lemma draw_resource_new:
  "draw_resource pat rs = Some (r, rs') \<Longrightarrow> r \<notin> set pat \<and> r \<in> set rs \<and> set rs' \<subseteq> set rs"
  by (induction pat rs rule: draw_resource.induct) (auto split: if_splits)

text \<open>Part of a task: its resources so far have its number already.\<close>

lemma draw_dependencies_ok:
  "draw_dependencies i n rs pat g = Some (pat', rs', g') \<Longrightarrow> set rs \<subseteq> {..<m} \<Longrightarrow> distinct pat \<Longrightarrow> set pat \<subseteq> {..<m} \<Longrightarrow>
   length (expected_hash g) = m \<Longrightarrow>
   (\<forall>r < m. expected_hash g ! r = (if r \<in> set pat then hash i (old r) else old r)) \<Longrightarrow>
   distinct pat' \<and> set pat' \<subseteq> {..<m} \<and> length pat' = length pat + n \<and> set rs' \<subseteq> {..<m} \<and>
   length (expected_hash g') = m \<and> access_pattern g' = access_pattern g \<and>
   (\<forall>r < m. expected_hash g' ! r = (if r \<in> set pat' then hash i (old r) else old r))"
proof (induction i n rs pat g rule: draw_dependencies.induct)
  case (2 i n rs pat g)
  from "2.prems"(1) obtain r rs1 where r: "draw_resource pat rs = Some (r, rs1)" by (auto split: option.splits)
  note new = draw_resource_new [OF r]
  obtain pat1 g1 where add: "add_dependency i r pat g = (pat1, g1)" by fastforce
  have one: "pat1 = pat @ [r]" "expected_hash g1 = (expected_hash g)[r := hash i (expected_hash g ! r)]"
    "access_pattern g1 = access_pattern g"
    using add by (auto simp: add_dependency_def Let_def)
  have old: "\<forall>q < m. expected_hash g1 ! q = (if q \<in> set pat1 then hash i (old q) else old q)"
    using "2.prems" new one by (auto simp: nth_list_update)
  have run: "draw_dependencies i n rs1 pat1 g1 = Some (pat', rs', g')" using "2.prems"(1) r add by simp
  have sets: "set rs1 \<subseteq> {..<m}" "distinct pat1" "set pat1 \<subseteq> {..<m}" "length (expected_hash g1) = m"
    using "2.prems" new one by auto
  from "2.IH" [OF r refl add [symmetric] run sets old] one show ?case by simp
qed auto

lemma generate_from_ok:
  "generate_from i ns rs g = Some g' \<Longrightarrow> graph_ok m g \<Longrightarrow> length (access_pattern g) = i \<Longrightarrow> set rs \<subseteq> {..<m} \<Longrightarrow>
   list_all (\<lambda>n. n \<le> 5) ns \<Longrightarrow> graph_ok m g' \<and> map length (access_pattern g') = map length (access_pattern g) @ ns"
proof (induction i ns rs g rule: generate_from.induct)
  case (2 i n ns rs g)
  from "2.prems"(1) obtain pat rs1 g1 where d: "draw_dependencies i n rs [] g = Some (pat, rs1, g1)"
    by (auto split: option.splits)
  let ?g = "g1\<lparr>access_pattern := access_pattern g1 @ [pat]\<rparr>"
  have ok: "distinct pat \<and> set pat \<subseteq> {..<m} \<and> length pat = n \<and> set rs1 \<subseteq> {..<m} \<and>
      length (expected_hash g1) = m \<and> access_pattern g1 = access_pattern g \<and>
      (\<forall>r < m. expected_hash g1 ! r = (if r \<in> set pat then hash i (expected_hash g ! r) else expected_hash g ! r))"
    using draw_dependencies_ok [OF d, of m "\<lambda>r. expected_hash g ! r"] "2.prems" by (simp add: graph_ok_def)
  then have "graph_ok m ?g" using "2.prems"(2,3,5) by (auto simp: graph_ok_def tasks_of_snoc)
  moreover have "generate_from (i + 1) ns rs1 ?g = Some g'" using "2.prems"(1) d by simp
  ultimately show ?case using "2.IH" [OF d refl refl] "2.prems"(3,5) ok by simp
qed simp

lemma generate_ok:
  assumes "generate_access_pattern m ns rs = Some g" and "set rs \<subseteq> {..<m}" and "list_all (\<lambda>n. n \<le> 5) ns"
  shows "graph_ok m g" "map length (access_pattern g) = ns"
  using generate_from_ok [of 0 ns rs _ g m] assms by (simp_all add: generate_access_pattern_def graph_ok_def tasks_of_def)

subsection \<open>The sequential run of the program\<close>

lemma array_of_uint [simp]: "array_of (uint w) = w # replicate 7 0"
  by (simp add: array_of_def)

lemma hash_word: "hash i (w # ws) = (w + of_nat i) # ws"
  by (simp add: hash_def)

lemma fold_hash: "fold hash is (w # ws) = (w + of_nat (sum_list is)) # ws"
  by (induction "is" arbitrary: w) (simp_all add: hash_word add.assoc)

lemma zero_array: "replicate 8 (0 :: u64) = 0 # replicate 7 0"
  by (simp add: eval_nat_numeral)

lemma do_hash_op: "do_op (hash_op r) (\<lambda>q. uint (w q :: u64), int i) = (\<lambda>q. uint ((w(r := w r + of_nat i)) q), int i)"
  by (auto simp: hash_op_def value_of_def hash_word fun_eq_iff)

lemma hash_ops:
  "distinct pat \<Longrightarrow> fold do_op (map hash_op pat) (\<lambda>q. uint (w q :: u64), int i) =
     (\<lambda>q. uint (w q + (if q \<in> set pat then of_nat i else 0)), int i)"
proof (induction pat arbitrary: w)
  case (Cons r pat)
  have "fold do_op (map hash_op (r # pat)) (\<lambda>q. uint (w q), int i) =
      fold do_op (map hash_op pat) (\<lambda>q. uint ((w(r := w r + of_nat i)) q), int i)"
    by (simp only: list.map fold_simps do_hash_op)
  also have "\<dots> = (\<lambda>q. uint ((w(r := w r + of_nat i)) q + (if q \<in> set pat then of_nat i else 0)), int i)"
    using Cons by simp
  finally show ?case using Cons.prems by (auto simp: fun_eq_iff)
qed simp

definition pattern_ok :: "nat \<times> nat list \<Rightarrow> bool" where
  "pattern_ok t \<longleftrightarrow> distinct (snd t) \<and> length (snd t) \<le> 5"

definition task_sum :: "(nat \<times> nat list) list \<Rightarrow> nat \<Rightarrow> nat" where
  "task_sum ts r = sum_list (map fst (filter (\<lambda>t. r \<in> set (snd t)) ts))"

lemma run_patterns:
  "list_all pattern_ok ts \<Longrightarrow>
   run_in_order (map snd (concat (map (\<lambda>(i, pat). pattern_task i pat) ts))) (\<lambda>q. uint (w q :: u64)) =
     (\<lambda>q. uint (w q + of_nat (task_sum ts q)), map (int \<circ> fst) ts)"
proof (induction ts arbitrary: w)
  case Nil
  then show ?case by (simp add: task_sum_def)
next
  case (Cons t ts)
  obtain i pat where t: "t = (i, pat)" by (cases t)
  have ok: "distinct pat" "length pat \<le> 5" using Cons.prems t by (simp_all add: pattern_ok_def)
  let ?v = "\<lambda>q. w q + (if q \<in> set pat then of_nat i else 0)"
  have one: "run_in_order (map snd (pattern_task i pat)) (\<lambda>q. uint (w q)) = (\<lambda>q. uint (?v q), [int i])"
    using hash_ops [OF ok(1), of w i] ok(2) by (simp add: pattern_task_def)
  have sum: "?v q + of_nat (task_sum ts q) = w q + of_nat (task_sum (t # ts) q)" for q
    by (simp add: task_sum_def t add.assoc)
  have "run_in_order (map snd (concat (map (\<lambda>(i, pat). pattern_task i pat) ts))) (\<lambda>q. uint (?v q)) =
      (\<lambda>q. uint (?v q + of_nat (task_sum ts q)), map (int \<circ> fst) ts)"
    using Cons.prems by (intro Cons.IH) simp
  then show ?case using one sum by (simp add: t run_in_order_append Let_def)
qed

lemma run_checks: "run_in_order (map (snd \<circ> check_task) rs) st = (st, map st rs)"
  by (induction rs) (simp_all add: check_task_def)

definition numbered :: "nat list list \<Rightarrow> (nat \<times> nat list) list" where
  "numbered pats = map (\<lambda>i. (i, pats ! i)) [0..<length pats]"

lemma numbered_sum: "task_sum (numbered pats) r = sum_list (tasks_of r pats)"
  by (simp add: task_sum_def numbered_def tasks_of_def filter_map comp_def)

lemma run_test_program:
  assumes ok: "graph_ok m g"
  shows "\<exists>st. run_program (test_program m g) (\<lambda>_. 0) = (st, map int [0..<length (access_pattern g)] @ 0 # map st [0..<m]) \<and>
    (\<forall>r < m. array_of (st r) = expected_hash g ! r)"
proof -
  let ?p = "access_pattern g" and ?st = "\<lambda>q. uint (0 + of_nat (task_sum (numbered (access_pattern g)) q) :: u64)"
  have "list_all pattern_ok (numbered ?p)"
    using ok by (auto simp: graph_ok_def pattern_ok_def numbered_def list_all_iff)
  from run_patterns [OF this, of "\<lambda>_. 0"]
  have "run_in_order (map snd (concat (map (\<lambda>(i, pat). pattern_task i pat) (numbered ?p)))) (\<lambda>_. 0) =
      (?st, map (int \<circ> fst) (numbered ?p))" by simp
  then have "run_in_order (map snd (concat (map (\<lambda>i. pattern_task i (?p ! i)) [0..<length ?p]))) (\<lambda>_. 0) =
      (?st, map int [0..<length ?p])"
    by (simp add: numbered_def comp_def)
  then have "run_program (test_program m g) (\<lambda>_. 0) = (?st, map int [0..<length ?p] @ 0 # map ?st [0..<m])"
    by (simp add: run_program_def test_program_def barrier_job_def run_in_order_append run_checks)
  moreover have "array_of (?st r) = expected_hash g ! r" if "r < m" for r
  proof -
    have "expected_hash g ! r = fold hash (tasks_of r ?p) (replicate 8 0)" using ok that by (simp add: graph_ok_def)
    also have "\<dots> = (0 + of_nat (sum_list (tasks_of r ?p))) # replicate 7 0" unfolding zero_array by (rule fold_hash)
    finally show ?thesis unfolding array_of_uint numbered_sum by simp
  qed
  ultimately show ?thesis by blast
qed

subsection \<open>Properties\<close>

text \<open>
  C5. The test passes under every schedule: whatever was drawn, when the tasks have ended, every
  resource has its expected value, and every task behind the barrier found the value correct.
\<close>

theorem random_graph_correct:
  assumes "generate_access_pattern m ns rs = Some g" and "list_all (\<lambda>r. r < m) rs" and "list_all (\<lambda>n. n \<le> 5) ns"
    and "reach (serial_start (\<lambda>_. 0)) serial_step s" and "program_done (test_program m g) s"
  shows "length (sr_jobs s) = length ns + 1 + m \<and>
    list_all (\<lambda>r. array_of (sr_store s r) = expected_hash g ! r \<and>
      found_correct g r (job_local (sr_jobs s ! (length ns + 1 + r)))) [0..<m]"
proof -
  have rs: "set rs \<subseteq> {..<m}" using assms(2) by (auto simp: list_all_iff)
  note g = generate_ok [OF assms(1) rs assms(3)]
  have len: "length (access_pattern g) = length ns" using arg_cong [OF g(2), of length] by simp
  obtain st where st: "run_program (test_program m g) (\<lambda>_. 0) = (st, map int [0..<length ns] @ 0 # map st [0..<m])"
    "\<forall>r < m. array_of (st r) = expected_hash g ! r"
    using run_test_program [OF g(1)] len by auto
  then have eq: "sr_store s = st" "map job_local (sr_jobs s) = map int [0..<length ns] @ 0 # map st [0..<m]"
    using program_result [OF assms(4,5)] by simp_all
  have n: "length (sr_jobs s) = length ns + 1 + m" using arg_cong [OF eq(2), of length] by simp
  have "job_local (sr_jobs s ! (length ns + 1 + r)) = st r" if "r < m" for r
    using arg_cong [OF eq(2), of "\<lambda>xs. xs ! (length ns + 1 + r)"] n that by (simp add: nth_append)
  then show ?thesis using st(2) eq(1) n by (simp add: list_all_iff found_correct_def)
qed

text \<open>Two resources; the first task writes both, the second none, the third resource 1.\<close>

definition small_graph :: graph where
  "small_graph = \<lparr>access_pattern = [[1, 0], [], [1]], expected_hash = [replicate 8 0, 2 # replicate 7 0], path_length = [1, 2]\<rparr>"

lemma small_graph_drawn: "generate_access_pattern 2 [2, 0, 1] [1, 1, 0, 1] = Some small_graph"
  by (simp add: generate_access_pattern_def small_graph_def add_dependency_def hash_def eval_nat_numeral Let_def)

lemma small_program: "test_program 2 small_graph =
  [([(1, Write), (0, Write)], [hash_op 1, hash_op 0], 0), ([], [], 1), ([(1, Write)], [hash_op 1], 2),
   ([(0, Write), (1, Write)], [], 0), check_task 0, check_task 1]"
proof -
  have "[0..<3] = [0, 1, 2 :: nat]" "[0..<2] = [0, 1 :: nat]" by (simp_all add: upt_rec)
  then show ?thesis by (simp add: test_program_def small_graph_def pattern_task_def barrier_job_def)
qed

lemma small_graph_fits: "list_all task_fits (test_program 2 small_graph)"
  unfolding small_program by (simp add: check_task_def task_fits_def op_ok_def hash_op_def)

theorem random_graph_correct_witness:
  "\<exists>s. reach (serial_start (\<lambda>_. 0)) serial_step s \<and> program_done (test_program 2 small_graph) s \<and>
    array_of (sr_store s 1) = 2 # replicate 7 0 \<and> found_correct small_graph 1 (job_local (sr_jobs s ! 5))"
proof -
  have "length (test_program 2 small_graph) + 1 < node_capacity"
    unfolding small_program by (simp add: node_capacity_def)
  from program_runs [OF small_graph_fits this, of "\<lambda>_. 0"] obtain s where
    s: "reach (serial_start (\<lambda>_. 0)) serial_step s" "program_done (test_program 2 small_graph) s" by blast
  from random_graph_correct [OF small_graph_drawn _ _ s]
  have "array_of (sr_store s 1) = expected_hash small_graph ! 1 \<and> found_correct small_graph 1 (job_local (sr_jobs s ! 5))"
    by (auto simp: list_all_iff eval_nat_numeral dest!: bspec [where x = 1])
  then show ?thesis using s by (auto simp: small_graph_def)
qed

text \<open>
  The test does not see the order of the tasks that write a resource: the tasks executed in any
  other order leave the same values, because \<open>hash\<close> only adds.
\<close>

theorem random_graph_blind_to_order:
  assumes "list_all pattern_ok ts" and "mset us = mset ts"
  shows "fst (run_program (concat (map (\<lambda>(i, pat). pattern_task i pat) us)) (\<lambda>_. 0)) =
    fst (run_program (concat (map (\<lambda>(i, pat). pattern_task i pat) ts)) (\<lambda>_. 0))"
proof -
  have sum: "task_sum us q = task_sum ts q" for q
  proof -
    have "mset (map fst (filter (\<lambda>t. q \<in> set (snd t)) us)) = mset (map fst (filter (\<lambda>t. q \<in> set (snd t)) ts))"
      using assms(2) by simp
    then show ?thesis unfolding task_sum_def by (metis sum_mset_sum_list)
  qed
  have "set us = set ts" using assms(2) by (rule mset_eq_setD)
  then have "list_all pattern_ok us" using assms(1) by (simp add: list_all_iff)
  from run_patterns [OF this, of "\<lambda>_. 0"] run_patterns [OF assms(1), of "\<lambda>_. 0"]
  show ?thesis by (simp add: run_program_def sum)
qed

theorem random_graph_blind_to_order_witness:
  "fst (run_program (concat (map (\<lambda>(i, pat). pattern_task i pat) [(3, [0, 1]), (4, [1])])) (\<lambda>_. 0)) =
    fst (run_program (concat (map (\<lambda>(i, pat). pattern_task i pat) [(4, [1]), (3, [0, 1])])) (\<lambda>_. 0))"
  by (rule random_graph_blind_to_order) (simp_all add: pattern_ok_def)

end
