(* ===== verification/Resources.thy ===== *)
theory Resources
  imports Dispatch
begin

section \<open>Resources and their accesses (resources.hpp)\<close>

text \<open>
  A \<open>Resource\<close> object wraps a value of its own or a reference to a variable of the user, and
  owns a queue, a new \<open>ResourceNode\<close> with an identifier from a global counter. Tasks name a
  resource by an access, made by \<open>rg_read\<close> or \<open>rg_write\<close>. Objects, variables and queues are
  numbers; the queues are those of the \<open>system\<close> in \<open>Dispatch\<close>.
\<close>

subsection \<open>Identifiers\<close>

definition generate_id :: "u32 \<Rightarrow> u32 \<times> u32" where
  "generate_id id_counter = fetch_add id_counter 1"

fun issued_ids :: "nat \<Rightarrow> u32 \<Rightarrow> u32 list" where
  "issued_ids 0 c = []"
| "issued_ids (Suc n) c = (let (i, c') = generate_id c in i # issued_ids n c')"

lemma issued_ids_eq: "issued_ids n c = map (\<lambda>k. c + of_nat k) [0..<n]"
proof (induction n arbitrary: c)
  case (Suc n)
  have "[0..<Suc n] = 0 # map Suc [0..<n]" by (simp add: map_Suc_upt upt_conv_Cons)
  then show ?case by (simp add: Suc generate_id_def fetch_add_def add.assoc)
qed simp

subsection \<open>Objects\<close>

datatype 'v storage = Held 'v | Referenced nat

record 'v resource =
  storage :: "'v storage"
  user_queue :: nat

text \<open>Where a C++ reference returned by \<open>get\<close> points to: into a resource object, or to a variable.\<close>

datatype location = Inside nat | Variable nat

record 'v program =
  variables :: "nat \<Rightarrow> 'v"
  resources :: "nat \<Rightarrow> 'v resource option"
  id_counter :: u32
  queues_sys :: system

text \<open>
  The constructors: what is stored, and \<open>make_shared<ResourceNode>(generate_id())\<close> for the queue,
  at an address \<open>q\<close> that the allocation chose.
\<close>

definition construct_resource :: "access_mode \<Rightarrow> nat \<Rightarrow> nat \<Rightarrow> 'v storage \<Rightarrow> 'v program \<Rightarrow> 'v program" where
  "construct_resource g r q st p =
     (let (uid, c) = generate_id (id_counter p)
      in p\<lparr>resources := (resources p)(r \<mapsto> \<lparr>storage = st, user_queue = q\<rparr>), id_counter := c,
           queues_sys := (queues_sys p)\<lparr>nodes := (nodes (queues_sys p))(q := new_node g uid)\<rparr>\<rparr>)"

definition resource_of_lvalue :: "access_mode \<Rightarrow> nat \<Rightarrow> nat \<Rightarrow> nat \<Rightarrow> 'v program \<Rightarrow> 'v program" where
  "resource_of_lvalue g r q a p = construct_resource g r q (Referenced a) p"

definition resource_of_rvalue :: "access_mode \<Rightarrow> nat \<Rightarrow> nat \<Rightarrow> 'v \<Rightarrow> 'v program \<Rightarrow> 'v program" where
  "resource_of_rvalue g r q v p = construct_resource g r q (Held v) p"

text \<open>The default constructor; \<open>d\<close> is \<open>T{}\<close>.\<close>

definition resource_default :: "access_mode \<Rightarrow> 'v \<Rightarrow> nat \<Rightarrow> nat \<Rightarrow> 'v program \<Rightarrow> 'v program" where
  "resource_default g d r q p = construct_resource g r q (Held d) p"

definition get_user_queue :: "nat \<Rightarrow> 'v program \<Rightarrow> nat option" where
  "get_user_queue r p = map_option user_queue (resources p r)"

text \<open>\<open>get\<close>: the alternative that the variant holds.\<close>

definition resource_get :: "nat \<Rightarrow> 'v program \<Rightarrow> location option" where
  "resource_get r p =
     (case resources p r of None \<Rightarrow> None
      | Some x \<Rightarrow> (case storage x of Referenced a \<Rightarrow> Some (Variable a) | Held v \<Rightarrow> Some (Inside r)))"

fun read_location :: "location \<Rightarrow> 'v program \<Rightarrow> 'v option" where
  "read_location (Variable a) p = Some (variables p a)"
| "read_location (Inside r) p =
     (case resources p r of None \<Rightarrow> None
      | Some x \<Rightarrow> (case storage x of Held v \<Rightarrow> Some v | Referenced a \<Rightarrow> None))"

fun write_location :: "location \<Rightarrow> 'v \<Rightarrow> 'v program \<Rightarrow> 'v program" where
  "write_location (Variable a) v p = p\<lparr>variables := (variables p)(a := v)\<rparr>"
| "write_location (Inside r) v p =
     (case resources p r of None \<Rightarrow> p
      | Some x \<Rightarrow> p\<lparr>resources := (resources p)(r \<mapsto> x\<lparr>storage := Held v\<rparr>)\<rparr>)"

subsection \<open>Accesses\<close>

record resource_access =
  ra_resource :: nat
  ra_mode :: access_mode

definition rg_read :: "nat \<Rightarrow> resource_access" where
  "rg_read r = \<lparr>ra_resource = r, ra_mode = Read\<rparr>"

definition rg_write :: "nat \<Rightarrow> resource_access" where
  "rg_write r = \<lparr>ra_resource = r, ra_mode = Write\<rparr>"

definition access_get :: "resource_access \<Rightarrow> 'v program \<Rightarrow> location option" where
  "access_get a p = resource_get (ra_resource a) p"

definition access_queue :: "resource_access \<Rightarrow> 'v program \<Rightarrow> nat option" where
  "access_queue a p = get_user_queue (ra_resource a) p"

definition access_id :: "resource_access \<Rightarrow> 'v program \<Rightarrow> u32 option" where
  "access_id a p = map_option (\<lambda>q. rn_uid (nodes (queues_sys p) q)) (access_queue a p)"

text \<open>
  The arguments of \<open>dispatch_task\<close> after \<open>process_handle\<close>: an access counts as a resource and the
  callable gets the reference, anything else is passed on; the queues are taken from the accesses.
\<close>

datatype 'x argument = Access resource_access | Plain 'x

datatype 'x passed = Passed_reference "location option" | Passed_on 'x

fun process_handle :: "'v program \<Rightarrow> 'x argument \<Rightarrow> u16 \<Rightarrow> 'x passed \<times> u16" where
  "process_handle p (Access a) n = (Passed_reference (access_get a p), n + 1)"
| "process_handle p (Plain x) n = (Passed_on x, n)"

fun accesses_of :: "'v program \<Rightarrow> 'x argument list \<Rightarrow> accesses option" where
  "accesses_of p [] = Some []"
| "accesses_of p (Plain x # as) = accesses_of p as"
| "accesses_of p (Access a # as) =
     (case (access_queue a p, accesses_of p as) of
        (Some q, Some qs) \<Rightarrow> Some ((q, ra_mode a) # qs)
      | _ \<Rightarrow> None)"

definition dispatch_arguments ::
    "nat \<Rightarrow> nat \<Rightarrow> 'x argument list \<Rightarrow> 'v program \<Rightarrow> (node_error + bool \<times> nat list \<times> 'v program) option" where
  "dispatch_arguments h w as p =
     map_option (\<lambda>qs. map_sum id (\<lambda>(ready, rs, s). (ready, rs, p\<lparr>queues_sys := s\<rparr>))
       (dispatch_task h w qs (queues_sys p))) (accesses_of p as)"

lemma process_handle_counts:
  "accesses_of p as = Some qs \<Longrightarrow>
   snd (fold (\<lambda>a (out, n). case process_handle p a n of (x, n') \<Rightarrow> (out @ [x], n')) as (out, n)) =
   n + resource_counter qs"
proof (induction as arbitrary: qs out n)
  case (Cons a as)
  have c: "fold (\<lambda>_ c. c + 1) xs k = k + fold (\<lambda>_ c. c + 1) xs 0" for xs :: accesses and k :: u16
  proof (induction xs arbitrary: k)
    case (Cons x xs)
    from Cons [of "k + 1"] Cons [of 1] show ?case by simp
  qed simp
  show ?case
  proof (cases a)
    case (Access b)
    then obtain q qs' where qs: "accesses_of p as = Some qs'" "qs = (q, ra_mode b) # qs'"
      using Cons.prems by (auto split: option.splits)
    then show ?thesis using Cons.IH [OF qs(1)] Access c [of qs' 1]
      by (simp add: resource_counter_def add.assoc)
  next
    case (Plain x)
    then show ?thesis using Cons by simp
  qed
qed (simp add: resource_counter_def)

subsection \<open>Properties\<close>

text \<open>
  The identifiers that the global counter hands out are pairwise different exactly as long
  as there are at most \<open>2\<^sup>3\<^sup>2\<close> of them, wherever the counter stands.
\<close>

theorem resource_ids_unique: "distinct (issued_ids n c) \<longleftrightarrow> n \<le> 2 ^ 32"
proof
  assume d: "distinct (issued_ids n c)"
  show "n \<le> 2 ^ 32"
  proof (rule ccontr)
    assume n: "\<not> n \<le> 2 ^ 32"
    then have "issued_ids n c ! 0 = issued_ids n c ! (2 ^ 32)" by (simp add: issued_ids_eq)
    moreover have "length (issued_ids n c) = n" by (simp add: issued_ids_eq)
    ultimately show False using n nth_eq_iff_index_eq [OF d, of 0 "2 ^ 32"] by simp
  qed
next
  assume n: "n \<le> 2 ^ 32"
  have "unat (of_nat i :: u32) = i" if "i < n" for i
    using that n by (simp add: unsigned_of_nat take_bit_nat_eq_self)
  then have "i = j" if "(of_nat i :: u32) = of_nat j" "i < n" "j < n" for i j using that by metis
  then show "distinct (issued_ids n c)"
    unfolding issued_ids_eq distinct_map by (auto intro!: inj_onI)
qed

text \<open>
  What is ordered is the \<open>Resource\<close> object and not the variable behind it: two resources
  made from the same variable have different queues. What is written through one is read
  through the other, and yet tasks that write through them are both started at once.
\<close>

theorem aliased_resources_not_ordered:
  assumes "r \<noteq> r'" and "q \<noteq> q'" and "w \<noteq> 0" and "w' \<noteq> 0" and "w \<noteq> w'"
    and "p1 = resource_of_lvalue g r' q' a (resource_of_lvalue g r q a p)"
  shows "\<exists>l p2 p3. access_get (rg_write r) p1 = Some l \<and> access_get (rg_write r') p1 = Some l \<and>
    read_location l (write_location l v p1) = Some v \<and>
    dispatch_arguments h w [Access (rg_write r)] p1 = Some (Inr (True, [q], p2)) \<and>
    dispatch_arguments h' w' [Access (rg_write r')] p2 = Some (Inr (True, [q'], p3))"
proof -
  have one: "\<exists>s'. dispatch_task h w [(q, Write)] s = Inr (True, [q], s') \<and>
      (\<forall>k. k \<noteq> q \<longrightarrow> nodes s' k = nodes s k)" if s: "nodes s q = new_node g uid" and w: "w \<noteq> 0"
    for h w q s uid
  proof -
    let ?s = "s\<lparr>wait_counters := (wait_counters s)(w := INVALID_WAIT_STATE + 1)\<rparr>"
    let ?t = "make_access h Write w"
    have "Resource_Node.add_task ?t (world_at q ?s) =
        Inr (set_fnr 1 (push_entry ?t (world_at q ?s)) \<lparr>counters := (wait_counters ?s)(w := INVALID_WAIT_STATE)\<rparr>)"
      using s w by (simp add: add_task_def take_slot_def count_down_def fetch_sub_def compare_exchange_def
          new_node_def node_capacity_def make_access_def Let_def)
    then show ?thesis
      by (auto simp: dispatch_defs at_node_def resource_counter_def fetch_add_def fetch_sub_def Let_def)
  qed
  obtain i j where p1: "resources p1 r = Some \<lparr>storage = Referenced a, user_queue = q\<rparr>"
      "resources p1 r' = Some \<lparr>storage = Referenced a, user_queue = q'\<rparr>"
      "nodes (queues_sys p1) q = new_node g i" "nodes (queues_sys p1) q' = new_node g j"
    using assms(1,2,6) by (auto simp: resource_of_lvalue_def construct_resource_def Let_def split: prod.splits)
  obtain s2 where s2: "dispatch_task h w [(q, Write)] (queues_sys p1) = Inr (True, [q], s2)"
      "nodes s2 q' = new_node g j"
    using one [OF p1(3) assms(3)] p1(4) assms(2) by metis
  obtain s3 where s3: "dispatch_task h' w' [(q', Write)] s2 = Inr (True, [q'], s3)"
    using one [OF s2(2) assms(4)] by blast
  show ?thesis
    using p1 s2(1) s3
    by (simp add: access_get_def resource_get_def rg_write_def dispatch_arguments_def access_queue_def
        get_user_queue_def)
qed

lemma aliased_resources_not_ordered_witness:
  "\<exists>p2 p3. dispatch_arguments 70 5 [Access (rg_write 1)]
      (resource_of_lvalue Read 2 20 9 (resource_of_lvalue Read 1 10 9
        \<lparr>variables = \<lambda>_. 0 :: nat, resources = Map.empty, id_counter = 0, queues_sys = quiet_system\<rparr>)) =
        Some (Inr (True, [10], p2)) \<and>
     dispatch_arguments 71 6 [Access (rg_write 2)] p2 = Some (Inr (True, [20], p3))"
  using aliased_resources_not_ordered [of 1 2 10 20 5 6 _ Read 9
      "\<lparr>variables = \<lambda>_. 0 :: nat, resources = Map.empty, id_counter = 0, queues_sys = quiet_system\<rparr>" 4 70 71]
  by simp blast

end
