(* ===== verification/Init_Task.thy ===== *)
theory Init_Task
  imports Shared_Handle Thread_Pool
begin

section \<open>The root task and its return object (initTask.hpp)\<close>

text \<open>
  An \<open>InitTask\<close> is the return object of the root coroutine. The main thread holds it: it may
  call \<open>get\<close>, and its destructor spins until the reference count of the root frame is 1 before
  it gives up the last handle. A worker runs the coroutine; children that the root has adopted
  keep the frame alive through their handle \<open>parent\<close>. The model is a step relation, one step
  per access to the promise; the counts and frames behind it are those of \<open>Shared_Handle\<close>.
\<close>

subsection \<open>The call of the root coroutine\<close>

text \<open>
  \<open>get_return_object\<close> builds \<open>self\<close> on the count of 1 and copies it into the return object at
  \<open>l\<close>; then \<open>initial_suspend\<close> puts the coroutine into the pool and returns to the caller.
\<close>

definition get_return_object :: "nat \<Rightarrow> nat \<Rightarrow> nat \<Rightarrow> store \<Rightarrow> handle_error + store" where
  "get_return_object c self l s = copy_construct l self (create_frame c self [] s)"

definition detach_to_pool :: "nat option \<Rightarrow> nat \<Rightarrow> pool \<Rightarrow> pool option" where
  "detach_to_pool me h p = pool_add_task me h p"

definition init_call :: "nat \<Rightarrow> nat \<Rightarrow> nat \<Rightarrow> nat option \<Rightarrow> store \<times> pool \<Rightarrow> (handle_error + store \<times> pool) option" where
  "init_call c self l me sp =
     (case get_return_object c self l (fst sp) of
        Inl e \<Rightarrow> Some (Inl e)
      | Inr s \<Rightarrow> map_option (\<lambda>p. Inr (s, p)) (detach_to_pool me c (snd sp)))"

subsection \<open>State\<close>

text \<open>The thread that runs the coroutine: in the pool, in its body, and the two steps of its end.\<close>

datatype root_pc = R_queued | R_body | R_returned | R_final | R_suspended

text \<open>The main thread: outside the object, inside \<open>get\<close>, inside the destructor.\<close>

datatype main_pc = M_free | M_check | M_predicate | M_asleep | M_fetch | M_spin | M_reset | M_destroyed

text \<open>
  \<open>parents\<close> counts the children that hold the frame, \<open>unadopted\<close> those that were dispatched without
  being given a handle of it, \<open>destroyed\<close> the destructions of the frame.
\<close>

record 'v root =
  owners :: u32
  task_done :: bool
  root_result :: "'v option"
  root_at :: root_pc
  main_at :: main_pc
  parents :: nat
  unadopted :: nat
  destroyed :: nat
  obtained :: "'v option list"

definition root_init :: "'v root \<Rightarrow> bool" where
  "root_init s \<longleftrightarrow> s = \<lparr>owners = 2, task_done = False, root_result = None, root_at = R_queued,
     main_at = M_free, parents = 0, unadopted = 0, destroyed = 0, obtained = []\<rparr>"

text \<open>One handle is given up; the thread that finds the count at 1 destroys the frame.\<close>

definition drop_owner :: "'v root \<Rightarrow> 'v root" where
  "drop_owner s =
     (let (old, new) = fetch_sub (owners s) 1
      in s\<lparr>owners := new, destroyed := (if old = 1 then destroyed s + 1 else destroyed s)\<rparr>)"

subsection \<open>Steps\<close>

definition root_step :: "'v \<Rightarrow> 'v root \<Rightarrow> 'v root option" where
  "root_step v s =
     (case root_at s of
        R_queued \<Rightarrow> Some (s\<lparr>root_at := R_body\<rparr>)
      | R_body \<Rightarrow> Some (s\<lparr>root_result := Some v, root_at := R_returned\<rparr>)
      | R_returned \<Rightarrow> Some (s\<lparr>task_done := True, root_at := R_final\<rparr>)
      | R_final \<Rightarrow> Some (drop_owner (s\<lparr>root_at := R_suspended\<rparr>))
      | R_suspended \<Rightarrow> None)"

text \<open>
  The two overloads of \<open>await_transform\<close>. A \<open>DispatchAwaiter\<close> that is a variable binds the first, which
  stores a handle in the child; the program has fewer than \<open>2\<^sup>3\<^sup>2 - 2\<close> such children at a time. The
  result of \<open>dispatch_task\<close> in \<open>co_await dispatch_task(...)\<close> is a temporary; it cannot bind the lvalue
  reference and is forwarded by the generic overload, which leaves the child without the handle.
\<close>

definition adopt_step :: "'v root \<Rightarrow> 'v root option" where
  "adopt_step s =
     (if root_at s = R_body \<and> parents s + 3 < 2 ^ 32
      then Some (s\<lparr>owners := snd (fetch_add (owners s) 1), parents := parents s + 1\<rparr>) else None)"

definition forward_step :: "'v root \<Rightarrow> 'v root option" where
  "forward_step s = (if root_at s = R_body then Some (s\<lparr>unadopted := unadopted s + 1\<rparr>) else None)"

text \<open>A child ends; a handle of the frame that it has is given up.\<close>

definition orphan_ends_step :: "'v root \<Rightarrow> 'v root option" where
  "orphan_ends_step s = (if 0 < unadopted s then Some (s\<lparr>unadopted := unadopted s - 1\<rparr>) else None)"

definition child_ends_step :: "'v root \<Rightarrow> 'v root option" where
  "child_ends_step s =
     (if 0 < parents s then Some (drop_owner (s\<lparr>parents := parents s - 1\<rparr>)) else None)"

text \<open>
  \<open>get\<close>: a first look at \<open>task_done\<close>, then \<open>cv.wait\<close> with the same condition; \<open>result.value()\<close>
  on an empty result throws, recorded as \<open>None\<close>. Nothing notifies the condition variable.
  The destructor looks at the count until it is not above 1, then resets its handle.
\<close>

definition main_step :: "'v root \<Rightarrow> 'v root option" where
  "main_step s =
     (case main_at s of
        M_free \<Rightarrow> None
      | M_check \<Rightarrow> Some (s\<lparr>main_at := (if task_done s then M_fetch else M_predicate)\<rparr>)
      | M_predicate \<Rightarrow> Some (s\<lparr>main_at := (if task_done s then M_fetch else M_asleep)\<rparr>)
      | M_asleep \<Rightarrow> None
      | M_fetch \<Rightarrow> Some (s\<lparr>obtained := obtained s @ [root_result s], main_at := M_free\<rparr>)
      | M_spin \<Rightarrow> Some (s\<lparr>main_at := (if 1 < owners s then M_spin else M_reset)\<rparr>)
      | M_reset \<Rightarrow> Some (drop_owner (s\<lparr>main_at := M_destroyed\<rparr>))
      | M_destroyed \<Rightarrow> None)"

text \<open>\<open>spurious\<close> says whether the condition variable may wake up without being notified.\<close>

inductive init_step :: "bool \<Rightarrow> 'v \<Rightarrow> 'v root \<Rightarrow> 'v root \<Rightarrow> bool" for spurious v where
  root_moves: "root_step v s = Some t \<Longrightarrow> init_step spurious v s t"
| root_adopts: "adopt_step s = Some t \<Longrightarrow> init_step spurious v s t"
| root_forwards: "forward_step s = Some t \<Longrightarrow> init_step spurious v s t"
| orphan_ends: "orphan_ends_step s = Some t \<Longrightarrow> init_step spurious v s t"
| child_ends: "child_ends_step s = Some t \<Longrightarrow> init_step spurious v s t"
| main_moves: "main_step s = Some t \<Longrightarrow> init_step spurious v s t"
| call_get: "main_at s = M_free \<Longrightarrow> init_step spurious v s (s\<lparr>main_at := M_check\<rparr>)"
| call_destructor: "main_at s = M_free \<Longrightarrow> init_step spurious v s (s\<lparr>main_at := M_spin\<rparr>)"
| wakes_up: "spurious \<Longrightarrow> main_at s = M_asleep \<Longrightarrow> init_step spurious v s (s\<lparr>main_at := M_predicate\<rparr>)"

inductive_cases init_stepE: "init_step spurious v s t"

subsection \<open>The invariant\<close>

text \<open>The handles of the frame: \<open>self\<close>, those of the children, and that of the return object.\<close>

definition owner_count :: "'v root \<Rightarrow> nat" where
  "owner_count s = (if root_at s = R_suspended then 0 else 1) + parents s +
     (if main_at s = M_destroyed then 0 else 1)"

definition owners_ok :: "'v root \<Rightarrow> bool" where
  "owners_ok s \<longleftrightarrow> owners s = of_nat (owner_count s) \<and> owner_count s < 2 ^ 32 \<and>
     destroyed s = (if owner_count s = 0 then 1 else 0) \<and>
     (main_at s \<in> {M_reset, M_destroyed} \<longrightarrow> root_at s = R_suspended \<and> parents s = 0)"

definition result_ok :: "'v \<Rightarrow> 'v root \<Rightarrow> bool" where
  "result_ok v s \<longleftrightarrow>
     (task_done s \<longleftrightarrow> root_at s \<in> {R_final, R_suspended}) \<and>
     (root_at s \<in> {R_returned, R_final, R_suspended} \<longrightarrow> root_result s = Some v) \<and>
     (main_at s = M_fetch \<longrightarrow> task_done s) \<and> set (obtained s) \<subseteq> {Some v}"

definition root_inv :: "'v \<Rightarrow> 'v root \<Rightarrow> bool" where
  "root_inv v s \<longleftrightarrow> owners_ok s \<and> result_ok v s"

lemma root_inv_init: "root_init s \<Longrightarrow> root_inv v s"
  by (simp add: root_init_def root_inv_def owners_ok_def result_ok_def owner_count_def)

text \<open>Giving up one of the handles.\<close>

lemma drop_owner_frame [simp]:
  "task_done (drop_owner s) = task_done s" "root_result (drop_owner s) = root_result s"
  "root_at (drop_owner s) = root_at s" "main_at (drop_owner s) = main_at s"
  "parents (drop_owner s) = parents s" "obtained (drop_owner s) = obtained s"
  "owner_count (drop_owner s) = owner_count s"
  by (simp_all add: drop_owner_def Let_def fetch_sub_def owner_count_def)

lemma of_nat_u32_eq_one: "n < 2 ^ 32 \<Longrightarrow> ((of_nat n :: u32) = 1) = (n = 1)"
  using of_nat_inverse [of n "1 :: u32"] by auto

lemma drop_owner_ok:
  assumes "owners s = of_nat (Suc (owner_count s))" and "Suc (owner_count s) < 2 ^ 32" and "destroyed s = 0"
  shows "owners (drop_owner s) = of_nat (owner_count s) \<and>
    destroyed (drop_owner s) = (if owner_count s = 0 then 1 else 0)"
  using assms of_nat_u32_eq_one [OF assms(2)]
  by (simp add: drop_owner_def Let_def fetch_sub_def)

lemma owners_bound: "owners_ok s \<Longrightarrow> (1 < owners s) = (1 < owner_count s)"
  by (simp add: owners_ok_def word_less_nat_alt unsigned_of_nat take_bit_nat_eq_self)

lemmas root_simps = root_inv_def owners_ok_def result_ok_def owner_count_def

lemma owners_ok_cong:
  "owners_ok s \<Longrightarrow> owners t = owners s \<Longrightarrow> destroyed t = destroyed s \<Longrightarrow> owner_count t = owner_count s \<Longrightarrow>
   (main_at t \<in> {M_reset, M_destroyed} \<Longrightarrow> root_at t = R_suspended \<and> parents t = 0) \<Longrightarrow> owners_ok t"
  by (simp add: owners_ok_def)

lemma root_step_inv:
  assumes inv: "root_inv v s" and step: "root_step v s = Some t"
  shows "root_inv v t"
proof -
  have ok: "owners_ok s" "result_ok v s" using inv by (simp_all add: root_inv_def)
  have m: "main_at s \<notin> {M_reset, M_destroyed}" if "root_at s \<noteq> R_suspended"
    using ok(1) that by (auto simp: owners_ok_def)
  show ?thesis
  proof (cases "root_at s = R_final")
    case True
    then have t: "t = drop_owner (s\<lparr>root_at := R_suspended\<rparr>)" using step by (simp add: root_step_def)
    have "owner_count s = Suc (owner_count (s\<lparr>root_at := R_suspended\<rparr>))" by (simp add: owner_count_def True)
    then show ?thesis
      using ok drop_owner_ok [of "s\<lparr>root_at := R_suspended\<rparr>"] True m
      by (auto simp: t root_inv_def owners_ok_def result_ok_def)
  next
    case False
    then have t: "owners t = owners s \<and> destroyed t = destroyed s \<and> main_at t = main_at s \<and>
        parents t = parents s \<and> root_at s \<noteq> R_suspended \<and> root_at t \<noteq> R_suspended"
      using step by (cases "root_at s") (auto simp: root_step_def)
    then have "owners_ok t" using m by (intro owners_ok_cong [OF ok(1)]) (auto simp: owner_count_def)
    moreover have "result_ok v t" using step ok(2) False
      by (cases "root_at s") (auto simp: root_step_def result_ok_def)
    ultimately show ?thesis by (simp add: root_inv_def)
  qed
qed

lemma adopt_step_inv: "root_inv v s \<Longrightarrow> adopt_step s = Some t \<Longrightarrow> root_inv v t"
  by (auto simp: root_simps adopt_step_def fetch_add_def split: if_splits)

lemma root_inv_unadopted: "root_inv v (s\<lparr>unadopted := n\<rparr>) = root_inv v s"
  by (simp add: root_inv_def owners_ok_def result_ok_def owner_count_def)

lemma unadopted_step_inv:
  "root_inv v s \<Longrightarrow> forward_step s = Some t \<Longrightarrow> root_inv v t"
  "root_inv v s \<Longrightarrow> orphan_ends_step s = Some t \<Longrightarrow> root_inv v t"
  by (auto simp: root_inv_unadopted forward_step_def orphan_ends_step_def split: if_splits)

lemma child_ends_step_inv: "root_inv v s \<Longrightarrow> child_ends_step s = Some t \<Longrightarrow> root_inv v t"
proof -
  assume inv: "root_inv v s" and step: "child_ends_step s = Some t"
  let ?s = "s\<lparr>parents := parents s - 1\<rparr>"
  have t: "t = drop_owner ?s" and p: "0 < parents s" using step by (auto simp: child_ends_step_def split: if_splits)
  have n: "owner_count s = Suc (owner_count ?s)" using p by (simp add: owner_count_def)
  then show ?thesis
    using inv p drop_owner_ok [of ?s] by (auto simp: t root_inv_def owners_ok_def result_ok_def)
qed

lemma main_step_inv:
  assumes inv: "root_inv v s" and step: "main_step s = Some t"
  shows "root_inv v t"
proof -
  have ok: "owners_ok s" "result_ok v s" using inv by (simp_all add: root_inv_def)
  show ?thesis
  proof (cases "main_at s = M_reset")
    case True
    then have t: "t = drop_owner (s\<lparr>main_at := M_destroyed\<rparr>)" using step by (simp add: main_step_def)
    have "owner_count s = Suc (owner_count (s\<lparr>main_at := M_destroyed\<rparr>))" by (simp add: owner_count_def True)
    then show ?thesis
      using ok drop_owner_ok [of "s\<lparr>main_at := M_destroyed\<rparr>"] True
      by (auto simp: t root_inv_def owners_ok_def result_ok_def)
  next
    case False
    have t: "owners t = owners s \<and> destroyed t = destroyed s \<and> root_at t = root_at s \<and> parents t = parents s \<and>
        main_at t \<noteq> M_destroyed \<and> main_at s \<noteq> M_destroyed"
      using step False by (cases "main_at s") (auto simp: main_step_def split: if_splits)
    have "root_at s = R_suspended \<and> parents s = 0" if "main_at t = M_reset"
    proof -
      have "main_at s = M_spin" "\<not> 1 < owners s"
        using step that False by (cases "main_at s"; auto simp: main_step_def split: if_splits)+
      then have "owner_count s \<le> 1" "main_at s \<noteq> M_destroyed" using owners_bound [OF ok(1)] by simp_all
      then show ?thesis by (auto simp: owner_count_def split: if_splits)
    qed
    then have "owners_ok t" using t by (intro owners_ok_cong [OF ok(1)]) (auto simp: owner_count_def)
    moreover have "result_ok v t" using step ok(2) False
      by (cases "main_at s") (auto simp: main_step_def result_ok_def split: if_splits)
    ultimately show ?thesis by (simp add: root_inv_def)
  qed
qed

lemma init_step_inv: "root_inv v s \<Longrightarrow> init_step spurious v s t \<Longrightarrow> root_inv v t"
  by (erule init_stepE)
    (auto intro: root_step_inv adopt_step_inv unadopted_step_inv child_ends_step_inv main_step_inv, auto simp: root_simps)

interpretation root: invariant_system root_init "init_step spurious v" "root_inv v" for spurious v
  by unfold_locales (blast intro: root_inv_init init_step_inv)+

subsection \<open>Properties\<close>

lemma get_return_object_eq:
  "c \<noteq> 0 \<Longrightarrow> l \<noteq> self \<Longrightarrow> \<exists>s'. get_return_object c self l s = Inr s' \<and> counts s' c = 2 \<and>
    objs s' self = Some (handle_to c) \<and> objs s' l = Some (handle_to c)"
  by (simp add: get_return_object_def copy_construct_def create_frame_def increment_ref_def handle_to_def
      fetch_add_def)

text \<open>
  C31. The root frame is destroyed exactly once, by the thread that gives up the last of its
  handles, and not before the coroutine has suspended for good, the children that it adopted are
  gone and the destructor of the return object has given up its handle: the destructor, once it is
  through, is that thread. What \<open>get\<close> hands out is the value that the coroutine returned. Children of
  \<open>co_await dispatch_task(...)\<close> are not adopted and do not hold the frame back.
\<close>

theorem root_destroyed_once:
  assumes "reach root_init (init_step spurious v) s"
  shows "destroyed s = (if main_at s = M_destroyed then 1 else 0) \<and>
    (main_at s = M_destroyed \<longrightarrow> root_at s = R_suspended \<and> parents s = 0) \<and>
    list_all (\<lambda>r. r = Some v) (obtained s)"
  using root.reach_inv [OF assms]
  by (auto simp: root_simps list_all_iff split: if_splits)

text \<open>One child, and \<open>get\<close> after the end: the run of the program up to the destruction of the frame.\<close>

definition root_start :: "nat root" where
  "root_start = \<lparr>owners = 2, task_done = False, root_result = None, root_at = R_queued,
     main_at = M_free, parents = 0, unadopted = 0, destroyed = 0, obtained = []\<rparr>"

datatype root_move = By_root | By_adoption | By_forwarding | By_child | By_main | Get_called | Destructor_called

fun move_root :: "'v \<Rightarrow> root_move \<Rightarrow> 'v root \<Rightarrow> 'v root option" where
  "move_root v By_root s = root_step v s"
| "move_root v By_adoption s = adopt_step s"
| "move_root v By_forwarding s = forward_step s"
| "move_root v By_child s = child_ends_step s"
| "move_root v By_main s = main_step s"
| "move_root v Get_called s = (if main_at s = M_free then Some (s\<lparr>main_at := M_check\<rparr>) else None)"
| "move_root v Destructor_called s = (if main_at s = M_free then Some (s\<lparr>main_at := M_spin\<rparr>) else None)"

fun follow :: "'v \<Rightarrow> root_move list \<Rightarrow> 'v root \<Rightarrow> 'v root option" where
  "follow v [] s = Some s"
| "follow v (m # ms) s = (case move_root v m s of None \<Rightarrow> None | Some t \<Rightarrow> follow v ms t)"

lemma move_root_step: "move_root v m s = Some t \<Longrightarrow> init_step spurious v s t"
  by (cases m) (auto intro: init_step.intros split: if_splits)

lemma follow_reach:
  "follow v ms s = Some t \<Longrightarrow> reach root_init (init_step spurious v) s \<Longrightarrow> reach root_init (init_step spurious v) t"
proof (induction ms arbitrary: s)
  case (Cons m ms)
  then obtain u where u: "move_root v m s = Some u" "follow v ms u = Some t" by (auto split: option.splits)
  from reach_step [OF Cons.prems(2) move_root_step [OF u(1)]] Cons.IH [OF u(2)] show ?case by simp
qed simp

lemma root_destroyed_once_witness:
  "\<exists>s. follow 7 [By_root, By_adoption, By_root, By_root, Get_called, By_main, By_main, Destructor_called,
       By_main, By_child, By_root, By_main, By_main] root_start = Some s \<and> main_at s = M_destroyed \<and>
     destroyed s = 1 \<and> obtained s = [Some (7 :: nat)]"
proof -
  let ?fs = "[By_root, By_adoption, By_root, By_root, Get_called, By_main, By_main, Destructor_called,
       By_main, By_child, By_root, By_main, By_main]"
  let ?s = "\<lparr>owners = 0, task_done = True, root_result = Some (7 :: nat), root_at = R_suspended,
     main_at = M_destroyed, parents = 0, unadopted = 0, destroyed = 1, obtained = [Some 7]\<rparr>"
  have run: "follow 7 ?fs root_start = Some ?s"
    by (simp add: root_start_def root_step_def main_step_def adopt_step_def child_ends_step_def drop_owner_def
        fetch_sub_def fetch_add_def Let_def)
  have "reach root_init (init_step False 7) root_start"
    by (rule reach_init) (simp add: root_init_def root_start_def)
  then have "reach root_init (init_step False 7) ?s" by (rule follow_reach [OF run])
  from root_destroyed_once [OF this] run show ?thesis by auto
qed

text \<open>The children of \<open>co_await dispatch_task(...)\<close> can outlive the root and its frame.\<close>

lemma child_outlives_root:
  "\<exists>s. reach root_init (init_step False v) s \<and> main_at s = M_destroyed \<and> destroyed s = 1 \<and> unadopted s = 1"
proof -
  let ?i = "\<lparr>owners = 2, task_done = False, root_result = None, root_at = R_queued,
     main_at = M_free, parents = 0, unadopted = 0, destroyed = 0, obtained = []\<rparr>"
  let ?fs = "[By_root, By_forwarding, By_root, By_root, By_root, Destructor_called, By_main, By_main]"
  let ?s = "\<lparr>owners = 0, task_done = True, root_result = Some v, root_at = R_suspended,
     main_at = M_destroyed, parents = 0, unadopted = 1, destroyed = 1, obtained = []\<rparr>"
  have "follow v ?fs ?i = Some ?s"
    by (simp add: root_step_def main_step_def forward_step_def drop_owner_def fetch_sub_def Let_def)
  moreover have "reach root_init (init_step False v) ?i" by (rule reach_init) (simp add: root_init_def)
  ultimately have "reach root_init (init_step False v) ?s" by (rule follow_reach)
  then show ?thesis by (intro exI [of _ ?s]) simp
qed

text \<open>
  C32. No thread notifies the condition variable that \<open>get\<close> waits for: a main thread that calls
  \<open>get\<close> before the coroutine has finished can fall asleep, and if the condition variable does
  not wake up by itself the program is stuck for good: the coroutine has finished, its
  result is there, and no thread can move.
\<close>

theorem get_never_notified:
  "\<exists>s. reach root_init (init_step False v) s \<and> main_at s = M_asleep \<and> task_done s \<and>
     root_result s = Some v \<and> (\<nexists>t. init_step False v s t)"
proof -
  let ?i = "\<lparr>owners = 2, task_done = False, root_result = None, root_at = R_queued,
     main_at = M_free, parents = 0, unadopted = 0, destroyed = 0, obtained = []\<rparr>"
  let ?fs = "[Get_called, By_main, By_main, By_root, By_root, By_root, By_root]"
  let ?s = "\<lparr>owners = 1, task_done = True, root_result = Some v, root_at = R_suspended,
     main_at = M_asleep, parents = 0, unadopted = 0, destroyed = 0, obtained = []\<rparr>"
  have "follow v ?fs ?i = Some ?s"
    by (simp add: root_step_def main_step_def drop_owner_def fetch_sub_def Let_def)
  moreover have "reach root_init (init_step False v) ?i" by (rule reach_init) (simp add: root_init_def)
  ultimately have "reach root_init (init_step False v) ?s" by (rule follow_reach)
  moreover have "\<not> init_step False v ?s t" for t
  proof
    assume "init_step False v ?s t"
    then show False
      by (rule init_stepE) (simp_all add: root_step_def adopt_step_def forward_step_def orphan_ends_step_def
        child_ends_step_def main_step_def)
  qed
  ultimately show ?thesis by (intro exI [of _ ?s]) simp
qed

end
