(* ===== verification/Mem_Block.thy ===== *)
theory Mem_Block
  imports Prelude
begin

section \<open>Memory blocks and the allocators that adjust them (alloc/)\<close>

text \<open>
  \<open>MemBlk\<close>, the rounding functions, and the allocators that forward to a base allocator with
  another size or pointer: \<open>AffixAllocator\<close>, \<open>AlignedAllocator\<close>, \<open>Segregator\<close>,
  \<open>CounterAllocator\<close> and \<open>OpNewAllocator\<close>. Addresses and sizes are 64-bit words, so additions
  wrap as \<open>size_t\<close> does. An allocator is a pair of functions on its state; a template argument
  is a function argument. The address that \<open>operator new\<close> chooses is a parameter.
\<close>

subsection \<open>\<open>MemBlk\<close>\<close>

record memblk =
  mb_ptr :: u64
  mb_n :: u64

definition blk :: "u64 \<Rightarrow> u64 \<Rightarrow> memblk" where
  "blk p n = \<lparr>mb_ptr = p, mb_n = n\<rparr>"

definition blk_empty :: memblk where
  "blk_empty = blk 0 0"

definition blk_bool :: "memblk \<Rightarrow> bool" where
  "blk_bool b \<longleftrightarrow> mb_n b \<noteq> 0"

text \<open>Move construction and assignment: the target takes the value, the source is reset.\<close>

definition blk_move :: "memblk \<Rightarrow> memblk \<times> memblk" where
  "blk_move x = (x, blk_empty)"

subsection \<open>Rounding\<close>

definition round_to_alignment :: "u64 \<Rightarrow> u64 \<Rightarrow> u64" where
  "round_to_alignment alignment n = (n + alignment - 1) AND NOT (alignment - 1)"

text \<open>\<open>align_size\<close>; \<open>hdis\<close> is \<open>hardware_destructive_interference_size\<close> of the platform.\<close>

definition align_size :: "u64 \<Rightarrow> u64 \<Rightarrow> u64" where
  "align_size hdis n = (n + hdis - 1) AND NOT (hdis - 1)"

lemma align_size_round: "align_size hdis n = round_to_alignment hdis n"
  by (simp add: align_size_def round_to_alignment_def)

lemma and_not_mask: "x AND NOT (mask k) = push_bit k (drop_bit k (x::u64))"
  by (rule bit_eqI) (auto simp: bit_simps not_less)

lemma unat_mask: "k < 64 \<Longrightarrow> unat (mask k :: u64) = 2 ^ k - 1"
proof -
  assume k: "k < 64"
  have "word_of_nat (2 ^ k - 1) = (mask k :: u64)"
    by (simp add: of_nat_diff mask_eq_exp_minus_1)
  moreover have "(2::nat) ^ k - 1 < 2 ^ 64"
    using power_strict_increasing [OF k, of "2::nat"] by linarith
  ultimately show ?thesis using of_nat_inverse by fastforce
qed

lemma unat_add_small: "unat (a::u64) + unat b < 2 ^ 64 \<Longrightarrow> unat (a + b) = unat a + unat b"
  using unat_add_lem [of a b] by simp

lemma unat_push_drop: "unat (push_bit k (drop_bit k (x::u64))) = (unat x div 2 ^ k) * 2 ^ k"
proof -
  have "unat x div 2 ^ k * 2 ^ k \<le> unat x" by simp
  moreover have "unat x < 2 ^ 64" using unsigned_less [of x] by simp
  ultimately have "(unat x div 2 ^ k) * 2 ^ k < 2 ^ 64" by linarith
  moreover have "unat (push_bit k (drop_bit k x)) = take_bit 64 (push_bit k (drop_bit k (unat x)))"
    by (simp add: unsigned_push_bit_eq unat_drop_bit_eq)
  ultimately show ?thesis
    by (simp add: push_bit_eq_mult drop_bit_eq_div take_bit_nat_eq_self)
qed

lemma round_power:
  assumes "k < 64" and "unat n + 2 ^ k \<le> 2 ^ 64"
  shows "unat (round_to_alignment (2 ^ k) n) = ((unat n + 2 ^ k - 1) div 2 ^ k) * 2 ^ k"
proof -
  let ?x = "n + mask k"
  have one: "(1::nat) \<le> 2 ^ k" by simp
  have "unat n + (2 ^ k - 1) < 2 ^ 64" using assms(2) one by linarith
  then have x: "unat ?x = unat n + 2 ^ k - 1"
    using one unat_add_small [of n "mask k"] unat_mask [OF assms(1)] by simp
  have "round_to_alignment (2 ^ k) n = ?x AND NOT (mask k)"
    by (simp add: round_to_alignment_def mask_eq_exp_minus_1 algebra_simps)
  then show ?thesis using x by (simp add: and_not_mask unat_push_drop)
qed

text \<open>The result is the least multiple that is not below the size.\<close>

lemma round_bounds:
  assumes "k < 64" and "unat n + 2 ^ k \<le> 2 ^ 64"
  shows "unat n \<le> unat (round_to_alignment (2 ^ k) n)"
    and "unat (round_to_alignment (2 ^ k) n) < unat n + 2 ^ k"
    and "2 ^ k dvd unat (round_to_alignment (2 ^ k) n)"
proof -
  let ?d = "(2::nat) ^ k" and ?m = "unat n + 2 ^ k - 1"
  have r: "unat (round_to_alignment (2 ^ k) n) = ?m div ?d * ?d" by (rule round_power [OF assms])
  have d: "0 < ?d" by simp
  have m: "?m div ?d * ?d = ?m - ?m mod ?d" by (simp add: minus_mod_eq_div_mult)
  have "?m mod ?d < ?d" by simp
  then show "unat n \<le> unat (round_to_alignment (2 ^ k) n)" using r m d by linarith
  show "unat (round_to_alignment (2 ^ k) n) < unat n + 2 ^ k" using r m d by linarith
  show "2 ^ k dvd unat (round_to_alignment (2 ^ k) n)" using r by simp
qed

lemma round_fixed:
  assumes "k < 64" and "2 ^ k dvd unat n" and "unat n + 2 ^ k \<le> 2 ^ 64"
  shows "round_to_alignment (2 ^ k) n = n"
proof -
  let ?r = "unat (round_to_alignment (2 ^ k) n)"
  have b: "unat n \<le> ?r" "?r < unat n + 2 ^ k" "2 ^ k dvd ?r" by (rule round_bounds [OF assms(1,3)])+
  then have "2 ^ k dvd ?r - unat n" "?r - unat n < 2 ^ k" using assms(2) by (auto simp: dvd_diff_nat)
  then have "?r - unat n = 0" using nat_dvd_not_less by blast
  then show ?thesis using b(1) by (simp add: word_unat_eq_iff)
qed

subsection \<open>Allocators that adjust a request\<close>

text \<open>
  \<open>AffixAllocator\<close> with sizes \<open>pre\<close> and \<open>suf\<close> of the affixes, already rounded, and the flags
  \<open>has_prefix\<close> and \<open>has_suffix\<close>; \<open>al\<close> is \<open>maxAlignment\<close>.
\<close>

record affix =
  has_prefix :: bool
  has_suffix :: bool
  prefix_size :: u64
  suffix_size :: u64
  max_alignment :: u64

definition affix_extra :: "affix \<Rightarrow> u64" where
  "affix_extra a = (if has_prefix a then prefix_size a else 0) + (if has_suffix a then suffix_size a else 0)"

definition get_inner :: "affix \<Rightarrow> memblk \<Rightarrow> memblk" where
  "get_inner a b =
     (let p = mb_ptr b; n = mb_n b;
          (p, n) = (if has_prefix a then (p + prefix_size a, n - prefix_size a) else (p, n));
          n = (if has_suffix a then n - suffix_size a else n)
      in blk p n)"

definition get_outer :: "affix \<Rightarrow> memblk \<Rightarrow> memblk" where
  "get_outer a b =
     (let p = mb_ptr b; n = mb_n b;
          (p, n) = (if has_prefix a then (p - prefix_size a, n + prefix_size a) else (p, n));
          n = (if has_suffix a then n + suffix_size a else n);
          n = round_to_alignment (max_alignment a) n
      in blk p n)"

text \<open>Addresses of the affixes, from the inner and from the outer block.\<close>

definition prefix_of_inner :: "affix \<Rightarrow> memblk \<Rightarrow> u64" where
  "prefix_of_inner a b = mb_ptr b - prefix_size a"

definition prefix_of_outer :: "affix \<Rightarrow> memblk \<Rightarrow> u64" where
  "prefix_of_outer a b = mb_ptr b"

definition suffix_of_inner :: "affix \<Rightarrow> memblk \<Rightarrow> u64" where
  "suffix_of_inner a b = mb_ptr b + mb_n b"

definition suffix_of_outer :: "affix \<Rightarrow> memblk \<Rightarrow> u64" where
  "suffix_of_outer a b = mb_ptr b + mb_n b - suffix_size a"

definition affix_request :: "affix \<Rightarrow> u64 \<Rightarrow> u64" where
  "affix_request a n =
     (let n = (if has_prefix a then n + prefix_size a else n);
          n = (if has_suffix a then n + suffix_size a else n)
      in round_to_alignment (max_alignment a) n)"

type_synonym ('s, 'e) alloc_fun = "u64 \<Rightarrow> 's \<Rightarrow> 'e + memblk \<times> 's"
type_synonym ('s, 'e) dealloc_fun = "memblk \<Rightarrow> 's \<Rightarrow> 'e + 's"

definition affix_allocate :: "affix \<Rightarrow> ('s, 'e) alloc_fun \<Rightarrow> ('s, 'e) alloc_fun" where
  "affix_allocate a base n s =
     (case base (affix_request a n) s of
        Inl e \<Rightarrow> Inl e
      | Inr (outer, s') \<Rightarrow> Inr (get_inner a outer, s'))"

definition affix_deallocate :: "affix \<Rightarrow> ('s, 'e) dealloc_fun \<Rightarrow> ('s, 'e) dealloc_fun" where
  "affix_deallocate a base b = base (get_outer a b)"

definition aligned_allocate :: "u64 \<Rightarrow> ('s, 'e) alloc_fun \<Rightarrow> ('s, 'e) alloc_fun" where
  "aligned_allocate hdis base n s =
     (case base (align_size hdis n) s of
        Inl e \<Rightarrow> Inl e
      | Inr (b, s') \<Rightarrow> Inr (blk (mb_ptr b) n, s'))"

definition aligned_deallocate :: "u64 \<Rightarrow> ('s, 'e) dealloc_fun \<Rightarrow> ('s, 'e) dealloc_fun" where
  "aligned_deallocate hdis base b = base (blk (mb_ptr b) (align_size hdis (mb_n b)))"

text \<open>\<open>Segregator\<close>: small and large requests go to different allocators of one state.\<close>

definition segregator_allocate ::
    "u64 \<Rightarrow> ('s, 'e) alloc_fun \<Rightarrow> ('s, 'e) alloc_fun \<Rightarrow> ('s, 'e) alloc_fun" where
  "segregator_allocate threshold small large n s = (if n \<le> threshold then small n s else large n s)"

definition segregator_deallocate ::
    "u64 \<Rightarrow> ('s, 'e) dealloc_fun \<Rightarrow> ('s, 'e) dealloc_fun \<Rightarrow> ('s, 'e) dealloc_fun" where
  "segregator_deallocate threshold small large b s =
     (if mb_n b \<le> threshold then small b s else large b s)"

text \<open>\<open>CounterAllocator\<close>: the number of allocations, with the state of the base.\<close>

definition counter_allocate :: "('s, 'e) alloc_fun \<Rightarrow> (u64 \<times> 's, 'e) alloc_fun" where
  "counter_allocate base n cs =
     (case base n (snd cs) of
        Inl e \<Rightarrow> Inl e
      | Inr (b, s') \<Rightarrow> Inr (b, fst cs + 1, s'))"

definition counter_deallocate :: "('s, 'e) dealloc_fun \<Rightarrow> (u64 \<times> 's, 'e) dealloc_fun" where
  "counter_deallocate base b cs = map_sum id (Pair (fst cs)) (base b (snd cs))"

text \<open>\<open>BlockAllocator\<close> (Back.hpp) and \<open>OpNewAllocator\<close>.\<close>

definition block_allocate :: "u64 \<Rightarrow> ('s, 'e) alloc_fun \<Rightarrow> ('s, 'e) alloc_fun" where
  "block_allocate size0 base n s = base size0 s"

definition block_deallocate :: "u64 \<Rightarrow> ('s, 'e) dealloc_fun \<Rightarrow> ('s, 'e) dealloc_fun" where
  "block_deallocate size0 base b = base (blk (mb_ptr b) size0)"

datatype heap_error = Bad_alloc | Bad_delete memblk

type_synonym heap = "memblk list"

text \<open>
  The blocks that are allocated. \<open>sysnew\<close> is the system's \<open>operator new\<close>: the address of a new
  block, or nothing when memory is exhausted. A sized \<open>operator delete\<close> needs the address and
  the size of a block that is allocated.
\<close>

definition opnew_allocate :: "(heap \<Rightarrow> u64 \<Rightarrow> u64 option) \<Rightarrow> (heap, heap_error) alloc_fun" where
  "opnew_allocate sysnew n h =
     (case sysnew h n of None \<Rightarrow> Inl Bad_alloc | Some p \<Rightarrow> Inr (blk p n, blk p n # h))"

definition opnew_deallocate :: "(heap, heap_error) dealloc_fun" where
  "opnew_deallocate b h = (if b \<in> set h then Inr (remove1 b h) else Inl (Bad_delete b))"


subsection \<open>The contract of an allocator\<close>

text \<open>The addresses of a block, and blocks that do not overlap, by distinct addresses.\<close>

definition region :: "memblk \<Rightarrow> nat set" where
  "region b = {unat (mb_ptr b)..<unat (mb_ptr b) + unat (mb_n b)}"

definition apart :: "memblk list \<Rightarrow> bool" where
  "apart bs \<longleftrightarrow> distinct (map mb_ptr bs) \<and>
     (\<forall>b \<in> set bs. \<forall>c \<in> set bs. b \<noteq> c \<longrightarrow> region b \<inter> region c = {}) \<and>
     (\<forall>b \<in> set bs. unat (mb_ptr b) + unat (mb_n b) < 2 ^ 64)"

lemma blk_simps [simp]:
  "mb_ptr (blk p n) = p" "mb_n (blk p n) = n" "blk (mb_ptr b) (mb_n b) = b"
  by (simp_all add: blk_def)

lemma blk_eq [simp]: "blk p n = blk q m \<longleftrightarrow> p = q \<and> n = m"
  by (simp add: blk_def)

text \<open>
  Clients allocate, and free blocks by address and requested size. \<open>holds bs s\<close> says that \<open>bs\<close>
  are the client's blocks in state \<open>s\<close>; \<open>fits\<close> bounds the requests, \<open>exhausted\<close> is the error of
  a request that cannot be served.
\<close>

locale allocator =
  fixes alloc :: "('s, 'e) alloc_fun"
    and dealloc :: "('s, 'e) dealloc_fun"
    and holds :: "memblk list \<Rightarrow> 's \<Rightarrow> bool"
    and fits :: "u64 \<Rightarrow> bool"
    and exhausted :: 'e
  assumes alloc_law: "holds bs s \<Longrightarrow> fits n \<Longrightarrow>
      alloc n s = Inl exhausted \<or> (\<exists>b s'. alloc n s = Inr (b, s') \<and> holds (blk (mb_ptr b) n # bs) s')"
    and dealloc_law: "holds bs s \<Longrightarrow> b \<in> set bs \<Longrightarrow> \<exists>s'. dealloc b s = Inr s' \<and> holds (remove1 b bs) s'"
    and holds_apart: "holds bs s \<Longrightarrow> apart bs"

datatype mem_op = Allocate u64 | Free nat

fun mem_run :: "('s, 'e) alloc_fun \<Rightarrow> ('s, 'e) dealloc_fun \<Rightarrow> mem_op list \<Rightarrow> memblk list \<Rightarrow> 's \<Rightarrow>
    'e + memblk list \<times> 's" where
  "mem_run alloc dealloc [] bs s = Inr (bs, s)"
| "mem_run alloc dealloc (Allocate n # ops) bs s =
     (case alloc n s of
        Inl e \<Rightarrow> Inl e
      | Inr (b, s') \<Rightarrow> mem_run alloc dealloc ops (blk (mb_ptr b) n # bs) s')"
| "mem_run alloc dealloc (Free i # ops) bs s =
     (if length bs \<le> i then mem_run alloc dealloc ops bs s
      else case dealloc (bs ! i) s of
        Inl e \<Rightarrow> Inl e
      | Inr s' \<Rightarrow> mem_run alloc dealloc ops (remove1 (bs ! i) bs) s')"

fun op_fits :: "(u64 \<Rightarrow> bool) \<Rightarrow> mem_op \<Rightarrow> bool" where
  "op_fits fits (Allocate n) = fits n"
| "op_fits fits (Free i) = True"

context allocator
begin

lemma mem_run_safe:
  "holds bs s \<Longrightarrow> list_all (op_fits fits) ops \<Longrightarrow>
   mem_run alloc dealloc ops bs s = Inl exhausted \<or>
   (\<exists>bs' s'. mem_run alloc dealloc ops bs s = Inr (bs', s') \<and> holds bs' s')"
proof (induction ops arbitrary: bs s)
  case (Cons op ops)
  show ?case
  proof (cases op)
    case (Allocate n)
    then have fit: "fits n" "list_all (op_fits fits) ops" using Cons.prems(2) by simp_all
    from alloc_law [OF Cons.prems(1) fit(1)] show ?thesis
    proof (elim disjE exE conjE)
      assume "alloc n s = Inl exhausted"
      then show ?thesis using Allocate by simp
    next
      fix b s' assume "alloc n s = Inr (b, s')" "holds (blk (mb_ptr b) n # bs) s'"
      then show ?thesis using Cons.IH fit(2) Allocate by simp
    qed
  next
    case (Free i)
    show ?thesis
    proof (cases "length bs \<le> i")
      case True
      then show ?thesis using Free Cons by simp
    next
      case False
      then obtain s' where "dealloc (bs ! i) s = Inr s'" "holds (remove1 (bs ! i) bs) s'"
        using dealloc_law [OF Cons.prems(1), of "bs ! i"] by auto
      then show ?thesis using Free False Cons by simp
    qed
  qed
qed simp

end

text \<open>\<open>operator new\<close> as documented: what it returns does not overlap what is allocated.\<close>

locale operator_new =
  fixes sysnew :: "heap \<Rightarrow> u64 \<Rightarrow> u64 option"
  assumes sysnew_law: "apart h \<Longrightarrow> sysnew h n = Some p \<Longrightarrow> apart (blk p n # h)"

lemma apart_remove1: "apart bs \<Longrightarrow> apart (remove1 b bs)"
  unfolding apart_def by (auto simp: distinct_map inj_on_def dest: notin_set_remove1 in_set_remove1
      set_remove1_subset [THEN subsetD])

sublocale operator_new \<subseteq> opn: allocator "opnew_allocate sysnew" opnew_deallocate
    "\<lambda>bs h. h = bs \<and> apart bs" "\<lambda>n. True" Bad_alloc
  by unfold_locales
    (auto simp: opnew_allocate_def opnew_deallocate_def apart_remove1 split: option.splits
      dest: sysnew_law)


text \<open>An affix allocator over any allocator, and an aligning one, keep the contract.\<close>

definition prefix_shift :: "affix \<Rightarrow> u64" where
  "prefix_shift a = (if has_prefix a then prefix_size a else 0)"

definition affix_ok :: "affix \<Rightarrow> bool" where
  "affix_ok a \<longleftrightarrow> (\<exists>k < 64. max_alignment a = 2 ^ k)"

definition affix_fits :: "(u64 \<Rightarrow> bool) \<Rightarrow> affix \<Rightarrow> u64 \<Rightarrow> bool" where
  "affix_fits fits a n \<longleftrightarrow> fits (affix_request a n) \<and>
     unat n + unat (prefix_size a) + unat (suffix_size a) + unat (max_alignment a) \<le> 2 ^ 64"

lemma get_outer_eq: "get_outer a b = blk (mb_ptr b - prefix_shift a) (affix_request a (mb_n b))"
  by (simp add: get_outer_def affix_request_def prefix_shift_def Let_def)

lemma get_inner_ptr: "mb_ptr (get_inner a b) = mb_ptr b + prefix_shift a"
  by (simp add: get_inner_def prefix_shift_def Let_def)

lemma affix_request_ge:
  assumes "affix_ok a" and "unat n + unat (prefix_size a) + unat (suffix_size a) + unat (max_alignment a) \<le> 2 ^ 64"
  shows "unat n + unat (prefix_shift a) \<le> unat (affix_request a n)"
proof -
  obtain k where k: "k < 64" "max_alignment a = 2 ^ k" using assms(1) by (auto simp: affix_ok_def)
  have pk: "unat (2 ^ k :: u64) = 2 ^ k"
  proof -
    have "word_of_nat (2 ^ k) = (2 ^ k :: u64)" by simp
    moreover have "(2::nat) ^ k < 2 ^ 64" by (rule power_strict_increasing [OF k(1)]) simp
    ultimately show ?thesis using of_nat_inverse by fastforce
  qed
  let ?m = "n + prefix_shift a" and ?s = "if has_suffix a then suffix_size a else 0"
  have pos: "(0::nat) < 2 ^ k" by simp
  have "unat (prefix_shift a) \<le> unat (prefix_size a)" "unat ?s \<le> unat (suffix_size a)"
    by (simp_all add: prefix_shift_def)
  then have sum: "unat n + unat (prefix_shift a) + unat ?s + 2 ^ k \<le> 2 ^ 64"
    using assms(2) pk [folded k(2)] by linarith
  then have m: "unat ?m = unat n + unat (prefix_shift a)" using pos by (intro unat_add_small) linarith
  then have ms: "unat (?m + ?s) = unat n + unat (prefix_shift a) + unat ?s"
    using sum pos by (subst unat_add_small) linarith+
  have "affix_request a n = round_to_alignment (2 ^ k) (?m + ?s)"
    by (simp add: affix_request_def prefix_shift_def Let_def k(2))
  then show ?thesis using round_bounds(1) [OF k(1), of "?m + ?s"] ms sum by simp
qed

lemma apart_inner:
  assumes ok: "affix_ok a" and outer: "apart (map (get_outer a) bs)"
    and fit: "\<forall>b \<in> set bs. unat (mb_n b) + unat (prefix_size a) + unat (suffix_size a) + unat (max_alignment a) \<le> 2 ^ 64"
  shows "apart bs"
proof -
  have sub: "region b \<subseteq> region (get_outer a b) \<and> unat (mb_ptr b) + unat (mb_n b) < 2 ^ 64" if b: "b \<in> set bs" for b
  proof -
    let ?o = "mb_ptr b - prefix_shift a" and ?r = "affix_request a (mb_n b)"
    have lt: "unat ?o + unat ?r < 2 ^ 64"
      using outer b unfolding apart_def by (auto simp: get_outer_eq)
    have ge: "unat (mb_n b) + unat (prefix_shift a) \<le> unat ?r"
      using affix_request_ge [OF ok] fit b by blast
    have "unat (?o + prefix_shift a) = unat ?o + unat (prefix_shift a)"
      using lt ge by (intro unat_add_small) linarith
    then have "unat (mb_ptr b) = unat ?o + unat (prefix_shift a)" by simp
    then show ?thesis using ge lt by (auto simp: region_def get_outer_eq)
  qed
  have "map mb_ptr (map (get_outer a) bs) = map (\<lambda>p. p - prefix_shift a) (map mb_ptr bs)"
    by (simp add: get_outer_eq)
  then have dist: "distinct (map mb_ptr bs)"
    using outer unfolding apart_def by (metis distinct_map)
  have "region b \<inter> region c = {}" if "b \<in> set bs" "c \<in> set bs" "b \<noteq> c" for b c
  proof -
    have "mb_ptr b \<noteq> mb_ptr c" using dist that by (auto simp: distinct_map inj_on_def)
    then have "get_outer a b \<noteq> get_outer a c" by (auto simp: get_outer_eq)
    then have "region (get_outer a b) \<inter> region (get_outer a c) = {}"
      using outer that unfolding apart_def by auto
    then show ?thesis using sub [OF that(1)] sub [OF that(2)] by blast
  qed
  then show ?thesis using dist sub unfolding apart_def by blast
qed

locale affixed_allocator = base: allocator alloc dealloc holds fits exhausted
  for alloc :: "('s, 'e) alloc_fun" and dealloc :: "('s, 'e) dealloc_fun" and holds fits exhausted +
  fixes a :: affix
  assumes affix_ok: "affix_ok a"

definition affix_holds :: "affix \<Rightarrow> (memblk list \<Rightarrow> 's \<Rightarrow> bool) \<Rightarrow> memblk list \<Rightarrow> 's \<Rightarrow> bool" where
  "affix_holds a holds bs s \<longleftrightarrow> holds (map (get_outer a) bs) s \<and>
     (\<forall>b \<in> set bs. unat (mb_n b) + unat (prefix_size a) + unat (suffix_size a) + unat (max_alignment a) \<le> 2 ^ 64)"

lemma remove1_map_inj: "inj_on f (set xs) \<Longrightarrow> x \<in> set xs \<Longrightarrow> remove1 (f x) (map f xs) = map f (remove1 x xs)"
  by (induction xs) (auto simp: inj_on_def)

sublocale affixed_allocator \<subseteq> aff: allocator "affix_allocate a alloc" "affix_deallocate a dealloc"
    "affix_holds a holds" "affix_fits fits a" exhausted
proof
  fix bs s n assume h: "affix_holds a holds bs s" and n: "affix_fits fits a n"
  have "alloc (affix_request a n) s = Inl exhausted \<or> (\<exists>b s'. alloc (affix_request a n) s = Inr (b, s') \<and>
      holds (blk (mb_ptr b) (affix_request a n) # map (get_outer a) bs) s')"
    using base.alloc_law h n by (auto simp: affix_holds_def affix_fits_def)
  then show "affix_allocate a alloc n s = Inl exhausted \<or>
      (\<exists>b s'. affix_allocate a alloc n s = Inr (b, s') \<and> affix_holds a holds (blk (mb_ptr b) n # bs) s')"
    using h n by (auto simp: affix_allocate_def affix_holds_def affix_fits_def get_outer_eq get_inner_ptr)
next
  fix bs s b assume h: "affix_holds a holds bs s" and b: "b \<in> set bs"
  have ap: "apart bs"
    using apart_inner [OF affix_ok] base.holds_apart h by (auto simp: affix_holds_def)
  have "inj_on (get_outer a) (set bs)"
    using ap by (auto simp: inj_on_def apart_def get_outer_eq distinct_map)
  then have "remove1 (get_outer a b) (map (get_outer a) bs) = map (get_outer a) (remove1 b bs)"
    using b by (rule remove1_map_inj)
  moreover obtain s' where "dealloc (get_outer a b) s = Inr s'"
      "holds (remove1 (get_outer a b) (map (get_outer a) bs)) s'"
    using base.dealloc_law h b by (auto simp: affix_holds_def) (metis image_eqI list.set_map)
  ultimately show "\<exists>s'. affix_deallocate a dealloc b s = Inr s' \<and> affix_holds a holds (remove1 b bs) s'"
    using h by (auto simp: affix_deallocate_def affix_holds_def dest: notin_set_remove1 in_set_remove1
        set_remove1_subset [THEN subsetD])
next
  fix bs s assume "affix_holds a holds bs s"
  then show "apart bs"
    using apart_inner [OF affix_ok] base.holds_apart by (auto simp: affix_holds_def)
qed


text \<open>\<open>AlignedAllocator\<close> frees what an affix allocator without affixes would free.\<close>

definition plain_affix :: "nat \<Rightarrow> affix" where
  "plain_affix k = \<lparr>has_prefix = False, has_suffix = False, prefix_size = 0, suffix_size = 0,
     max_alignment = 2 ^ k\<rparr>"

lemma aligned_plain:
  "aligned_deallocate (2 ^ k) d = affix_deallocate (plain_affix k) d"
  "aligned_allocate (2 ^ k) al n s =
    map_sum id (\<lambda>(b, s'). (blk (mb_ptr b) n, s')) (affix_allocate (plain_affix k) al n s)"
  by (auto simp: fun_eq_iff aligned_deallocate_def affix_deallocate_def aligned_allocate_def
      affix_allocate_def plain_affix_def get_outer_def get_inner_def affix_request_def
      align_size_round Let_def split: sum.splits)

locale aligned_allocator = base: allocator alloc dealloc holds fits exhausted
  for alloc :: "('s, 'e) alloc_fun" and dealloc :: "('s, 'e) dealloc_fun" and holds fits exhausted +
  fixes k :: nat
  assumes k_small: "k < 64"

sublocale aligned_allocator \<subseteq> plain: affixed_allocator alloc dealloc holds fits exhausted "plain_affix k"
  by unfold_locales (use k_small in \<open>auto simp: affix_ok_def plain_affix_def\<close>)

sublocale aligned_allocator \<subseteq> ali: allocator "aligned_allocate (2 ^ k) alloc" "aligned_deallocate (2 ^ k) dealloc"
    "affix_holds (plain_affix k) holds" "affix_fits fits (plain_affix k)" exhausted
proof
  fix bs s n assume "affix_holds (plain_affix k) holds bs s" and "affix_fits fits (plain_affix k) n"
  from plain.aff.alloc_law [OF this]
  show "aligned_allocate (2 ^ k) alloc n s = Inl exhausted \<or>
      (\<exists>b s'. aligned_allocate (2 ^ k) alloc n s = Inr (b, s') \<and>
        affix_holds (plain_affix k) holds (blk (mb_ptr b) n # bs) s')"
    by (auto simp: aligned_plain)
qed (use plain.aff.dealloc_law plain.aff.holds_apart in \<open>auto simp: aligned_plain\<close>)

text \<open>A simple \<open>operator new\<close>: the first multiple of 16 behind everything that is allocated.\<close>

definition heap_end :: "heap \<Rightarrow> nat" where
  "heap_end h = fold (\<lambda>b m. max m (unat (mb_ptr b) + unat (mb_n b))) h 0"

definition bump_new :: "heap \<Rightarrow> u64 \<Rightarrow> u64 option" where
  "bump_new h n =
     (let p = (heap_end h div 16 + 1) * 16
      in if p + unat n < 2 ^ 64 then Some (of_nat p) else None)"

lemma heap_end_ge: "b \<in> set h \<Longrightarrow> unat (mb_ptr b) + unat (mb_n b) \<le> heap_end h"
proof -
  let ?f = "\<lambda>b m. max m (unat (mb_ptr b) + unat (mb_n b))"
  have ge: "m \<le> fold ?f h m" for m h
  proof (induction h arbitrary: m)
    case (Cons a h)
    have "m \<le> ?f a m" by simp
    also have "\<dots> \<le> fold ?f h (?f a m)" by (rule Cons.IH)
    finally show ?case by simp
  qed simp
  have "b \<in> set h \<Longrightarrow> unat (mb_ptr b) + unat (mb_n b) \<le> fold ?f h m" for m h
  proof (induction h arbitrary: m)
    case (Cons c h)
    then show ?case using ge [of "?f c m" h] by (cases "b = c") auto
  qed simp
  then show "b \<in> set h \<Longrightarrow> ?thesis" by (simp add: heap_end_def)
qed

lemma bump_new_apart: "apart h \<Longrightarrow> bump_new h n = Some p \<Longrightarrow> apart (blk p n # h)"
proof -
  assume ap: "apart h" and n: "bump_new h n = Some p"
  let ?p = "(heap_end h div 16 + 1) * 16"
  have p: "p = of_nat ?p" "?p + unat n < 2 ^ 64" using n by (auto simp: bump_new_def Let_def split: if_splits)
  then have up: "unat p = ?p" by (intro of_nat_inverse) auto
  have "heap_end h mod 16 < 16" by simp
  then have "heap_end h < ?p" using div_mult_mod_eq [of "heap_end h" 16] by (simp add: algebra_simps)
  then have lt: "unat (mb_ptr b) + unat (mb_n b) < unat p" if "b \<in> set h" for b
    using heap_end_ge [OF that] up by linarith
  have "p \<notin> mb_ptr ` set h" using lt by fastforce
  moreover have "region (blk p n) \<inter> region b = {}" if "b \<in> set h" for b
    using lt [OF that] by (auto simp: region_def)
  ultimately show ?thesis using ap p(2) up unfolding apart_def by (auto simp: Int_commute)
qed

interpretation bump: operator_new bump_new
  by unfold_locales (rule bump_new_apart)

text \<open>The tagged allocator of \<open>FreeListTLS\<close>: a pointer as prefix, 16 bytes with its padding.\<close>

definition tagged_affix :: affix where
  "tagged_affix = \<lparr>has_prefix = True, has_suffix = False, prefix_size = 16, suffix_size = 16,
     max_alignment = 16\<rparr>"

lemma tagged_affix_ok: "affix_ok tagged_affix"
  unfolding affix_ok_def tagged_affix_def by (rule exI [of _ 4]) simp

interpretation tagged: affixed_allocator "opnew_allocate bump_new" opnew_deallocate
    "\<lambda>bs h. h = bs \<and> apart bs" "\<lambda>n. True" Bad_alloc tagged_affix
  by unfold_locales (rule tagged_affix_ok)

interpretation lined: aligned_allocator "opnew_allocate bump_new" opnew_deallocate
    "\<lambda>bs h. h = bs \<and> apart bs" "\<lambda>n. True" Bad_alloc 6
  by unfold_locales simp

text \<open>An affix allocator over any documented \<open>operator new\<close>.\<close>

locale affixed_operator_new = operator_new sysnew for sysnew +
  fixes a :: affix
  assumes a_ok: "affix_ok a"

sublocale affixed_operator_new \<subseteq> tag: affixed_allocator "opnew_allocate sysnew" opnew_deallocate
    "\<lambda>bs h. h = bs \<and> apart bs" "\<lambda>n. True" Bad_alloc a
  by unfold_locales (rule a_ok)

context affixed_operator_new
begin

lemma affixed_run:
  assumes "list_all (op_fits (affix_fits (\<lambda>n. True) a)) ops"
  shows "mem_run (affix_allocate a (opnew_allocate sysnew)) (affix_deallocate a opnew_deallocate) ops [] [] =
      Inl Bad_alloc \<or>
    (\<exists>bs. mem_run (affix_allocate a (opnew_allocate sysnew)) (affix_deallocate a opnew_deallocate) ops [] [] =
      Inr (bs, map (get_outer a) bs) \<and> apart bs)"
proof -
  have "affix_holds a (\<lambda>bs h. h = bs \<and> apart bs) [] []" by (simp add: affix_holds_def apart_def)
  from tag.aff.mem_run_safe [OF this assms] show ?thesis
  proof (elim disjE exE conjE)
    fix bs h
    assume r: "mem_run (affix_allocate a (opnew_allocate sysnew)) (affix_deallocate a opnew_deallocate) ops [] [] =
        Inr (bs, h)" and h: "affix_holds a (\<lambda>bs h. h = bs \<and> apart bs) bs h"
    have "h = map (get_outer a) bs" using h by (simp add: affix_holds_def)
    then show ?thesis using r tag.aff.holds_apart [OF h] by blast
  qed blast
qed

end

interpretation tagged_new: affixed_operator_new bump_new tagged_affix
  by unfold_locales (rule tagged_affix_ok)

subsection \<open>Properties\<close>

text \<open>
  \<open>round_to_alignment\<close> returns the least multiple of the alignment, a power of two, that is
  not below the size, whenever that multiple is representable.
\<close>

theorem round_to_alignment_least:
  assumes "k < 64" and "unat n + 2 ^ k \<le> 2 ^ 64"
  shows "unat n \<le> unat (round_to_alignment (2 ^ k) n) \<and>
    unat (round_to_alignment (2 ^ k) n) < unat n + 2 ^ k \<and> 2 ^ k dvd unat (round_to_alignment (2 ^ k) n)"
  using round_bounds [OF assms] by blast

lemma round_to_alignment_least_witness:
  "910 \<le> unat (round_to_alignment (2 ^ 4) 910) \<and> unat (round_to_alignment (2 ^ 4) 910) < 926 \<and>
    16 dvd unat (round_to_alignment (2 ^ 4) 910)"
  using round_to_alignment_least [of 4 910] by simp

text \<open>
  C35. The inner and the outer block of an affix allocator determine each other: freeing a block
  with the size that was asked for, or with the size that \<open>allocate\<close> returned, gives back the
  very block the base allocator was asked for.
\<close>

theorem affix_blocks_inverse:
  assumes "affix_ok a" and "outer = blk p (affix_request a n)"
    and "unat (affix_request a n) + unat (max_alignment a) \<le> 2 ^ 64"
  shows "get_outer a (blk (mb_ptr (get_inner a outer)) n) = outer \<and> get_outer a (get_inner a outer) = outer"
proof
  show "get_outer a (blk (mb_ptr (get_inner a outer)) n) = outer"
    by (simp add: get_outer_eq get_inner_ptr assms(2))
  obtain k where k: "k < 64" "max_alignment a = 2 ^ k" using assms(1) by (auto simp: affix_ok_def)
  let ?r = "affix_request a n"
  have "?r = push_bit k (drop_bit k ((if has_suffix a then n + prefix_shift a + suffix_size a else n + prefix_shift a) + mask k))"
    unfolding affix_request_def Let_def k(2) round_to_alignment_def and_not_mask [symmetric]
    by (auto simp: prefix_shift_def mask_eq_exp_minus_1 algebra_simps)
  then have "2 ^ k dvd unat ?r" using unat_push_drop by simp
  moreover have "unat (2 ^ k :: u64) = 2 ^ k"
  proof -
    have "word_of_nat (2 ^ k) = (2 ^ k :: u64)" by simp
    moreover have "(2::nat) ^ k < 2 ^ 64" by (rule power_strict_increasing [OF k(1)]) simp
    ultimately show ?thesis using of_nat_inverse by fastforce
  qed
  ultimately have "round_to_alignment (2 ^ k) ?r = ?r" using assms(3) k by (intro round_fixed) auto
  then show "get_outer a (get_inner a outer) = outer"
    by (simp add: get_outer_def get_inner_def assms(2) Let_def k(2))
qed

lemma affix_blocks_inverse_witness:
  "get_outer tagged_affix (blk 1016 8192) = blk 1000 8208 \<and> get_outer tagged_affix (blk 1016 8192) = blk 1000 8208"
  using affix_blocks_inverse [OF tagged_affix_ok, of "blk 1000 8208" 1000 8190]
  by (simp add: affix_request_def tagged_affix_def round_to_alignment_def get_inner_def Let_def)

text \<open>
  C33. An affix allocator over \<open>operator new\<close>: whatever its clients allocate and free, in any
  order, \<open>operator delete\<close> is never called with a block that is not allocated or has another
  size, the clients' blocks never overlap, and the heap holds exactly the outer blocks of
  those that are not freed. A request that cannot be served is the only failure.
\<close>

theorem affix_heap_safe:
  assumes "operator_new sysnew" and "affix_ok a" and "list_all (op_fits (affix_fits (\<lambda>n. True) a)) ops"
  shows "mem_run (affix_allocate a (opnew_allocate sysnew)) (affix_deallocate a opnew_deallocate) ops [] [] =
      Inl Bad_alloc \<or>
    (\<exists>bs. mem_run (affix_allocate a (opnew_allocate sysnew)) (affix_deallocate a opnew_deallocate) ops [] [] =
      Inr (bs, map (get_outer a) bs) \<and> apart bs)"
  using affixed_operator_new.affixed_run [of sysnew a ops] assms
  by (simp add: affixed_operator_new_def affixed_operator_new_axioms_def)

lemma affix_heap_safe_witness:
  "\<exists>bs. mem_run (affix_allocate tagged_affix (opnew_allocate bump_new))
      (affix_deallocate tagged_affix opnew_deallocate) [Allocate 8192, Allocate 100, Free 1] [] [] =
      Inr (bs, map (get_outer tagged_affix) bs) \<and> apart bs"
proof -
  let ?r = "mem_run (affix_allocate tagged_affix (opnew_allocate bump_new))
      (affix_deallocate tagged_affix opnew_deallocate) [Allocate 8192, Allocate 100, Free 1] [] []"
  have "operator_new bump_new" by (rule bump.operator_new_axioms)
  moreover have "list_all (op_fits (affix_fits (\<lambda>n. True) tagged_affix)) [Allocate 8192, Allocate 100, Free 1]"
    by (simp add: affix_fits_def tagged_affix_def)
  moreover have "?r \<noteq> Inl Bad_alloc"
    by (simp add: opnew_allocate_def bump_new_def heap_end_def affix_allocate_def affix_request_def
        tagged_affix_def round_to_alignment_def get_inner_def affix_deallocate_def get_outer_def
        opnew_deallocate_def Let_def blk_def)
  ultimately show ?thesis
    using affix_heap_safe [of bump_new tagged_affix "[Allocate 8192, Allocate 100, Free 1]"] tagged_affix_ok
    by blast
qed

end
