(* ===== verification/Slab_Alloc.thy ===== *)
theory Slab_Alloc
  imports Mem_Block
begin

section \<open>The slab allocator of coroutine frames (alloc/SlabTLS.hpp, CoroAllocator.hpp)\<close>

text \<open>
  One thread's \<open>SlabTLSAllocator\<close> over a base allocator: blocks of \<open>cap\<close> chunks, cut off one
  after the other, each chunk behind a header of 16 bytes, each block behind a prefix that holds
  a counter of freed chunks. \<open>mem\<close> is the memory as \<open>size_t\<close> values by address; what it holds
  where nothing was written is arbitrary.
\<close>

record 's slab =
  user_ptr :: u64
  unused_idx :: u32
  mem :: "u64 \<Rightarrow> u64"
  base_state :: 's

definition chunk_header_size :: u64 where
  "chunk_header_size = max 8 16"

definition chunk_size :: "u64 \<Rightarrow> u64" where
  "chunk_size sz = round_to_alignment 16 (chunk_header_size + sz)"

definition block_size :: "u64 \<Rightarrow> u64 \<Rightarrow> u64" where
  "block_size sz cap = chunk_size sz * cap"

text \<open>\<open>PrefixAllocator<BaseAllocator, BlockMetaData>\<close>.\<close>

definition slab_affix :: affix where
  "slab_affix = \<lparr>has_prefix = True, has_suffix = False, prefix_size = round_to_alignment 16 8,
     suffix_size = round_to_alignment 16 1, max_alignment = max (max 8 4) 16\<rparr>"

definition allocate_new_block :: "('s, 'e) alloc_fun \<Rightarrow> u64 \<Rightarrow> u64 \<Rightarrow> 's slab \<Rightarrow> 'e + memblk \<times> 's slab" where
  "allocate_new_block base sz cap s =
     (case affix_allocate slab_affix base (block_size sz cap) (base_state s) of
        Inl e \<Rightarrow> Inl e
      | Inr (b, t) \<Rightarrow> Inr (b, s\<lparr>mem := (mem s)(prefix_of_inner slab_affix b := 0), base_state := t\<rparr>))"

definition allocate_and_set_active_block :: "('s, 'e) alloc_fun \<Rightarrow> u64 \<Rightarrow> u64 \<Rightarrow> 's slab \<Rightarrow> 'e + 's slab" where
  "allocate_and_set_active_block base sz cap s =
     (case allocate_new_block base sz cap s of
        Inl e \<Rightarrow> Inl e
      | Inr (b, s') \<Rightarrow> Inr (s'\<lparr>user_ptr := mb_ptr b + chunk_header_size\<rparr>))"

definition slab_allocate :: "('s, 'e) alloc_fun \<Rightarrow> u64 \<Rightarrow> u64 \<Rightarrow> ('s slab, 'e) alloc_fun" where
  "slab_allocate base sz cap n s =
     (case (if unused_idx s = 0 then allocate_and_set_active_block base sz cap s else Inr s) of
        Inl e \<Rightarrow> Inl e
      | Inr s1 \<Rightarrow>
          let p = user_ptr s1; idx = unused_idx s1 + 1
          in Inr (blk p n,
               if ucast idx = cap then s1\<lparr>unused_idx := 0, user_ptr := 0\<rparr>
               else s1\<lparr>unused_idx := idx, user_ptr := p + chunk_size sz\<rparr>))"

definition slab_deallocate :: "('s, 'e) dealloc_fun \<Rightarrow> u64 \<Rightarrow> u64 \<Rightarrow> ('s slab, 'e) dealloc_fun" where
  "slab_deallocate base sz cap b s =
     (let header = mb_ptr b - chunk_header_size;
          (old, new) = fetch_add (mem s header) 1;
          s1 = s\<lparr>mem := (mem s)(header := new)\<rparr>
      in if old = cap - 1
         then map_sum id (\<lambda>t. s1\<lparr>base_state := t\<rparr>)
                (affix_deallocate slab_affix base (blk (header + prefix_size slab_affix) (block_size sz cap))
                  (base_state s1))
         else Inr s1)"

text \<open>The destructor of the thread's current block.\<close>

definition slab_thread_exit :: "('s, 'e) dealloc_fun \<Rightarrow> u64 \<Rightarrow> u64 \<Rightarrow> 's slab \<Rightarrow> 'e + 's slab" where
  "slab_thread_exit base sz cap s =
     (if user_ptr s \<noteq> 0
      then let raw = user_ptr s - chunk_header_size - ucast (unused_idx s) * chunk_size sz
           in map_sum id (\<lambda>t. s\<lparr>base_state := t\<rparr>)
                (affix_deallocate slab_affix base (blk raw (block_size sz cap)) (base_state s))
      else Inr s)"

text \<open>The configuration of \<open>CoroAllocator\<close>: 894 bytes, 8 chunks.\<close>

definition coro_size :: u64 where
  "coro_size = 894"

definition coro_cap :: u64 where
  "coro_cap = 8"

subsection \<open>Cutting a block into chunks\<close>

fun slab_allocate_many :: "('s, 'e) alloc_fun \<Rightarrow> u64 \<Rightarrow> u64 \<Rightarrow> u64 list \<Rightarrow> 's slab \<Rightarrow> 'e + memblk list \<times> 's slab" where
  "slab_allocate_many base sz cap [] s = Inr ([], s)"
| "slab_allocate_many base sz cap (n # ns) s =
     (case slab_allocate base sz cap n s of
        Inl e \<Rightarrow> Inl e
      | Inr (b, s') \<Rightarrow> map_sum id (\<lambda>(bs, s''). (b # bs, s'')) (slab_allocate_many base sz cap ns s'))"

text \<open>Where chunk \<open>k\<close> of the block whose user memory starts at \<open>p\<close> begins.\<close>

definition chunk_ptr :: "u64 \<Rightarrow> u64 \<Rightarrow> nat \<Rightarrow> u64" where
  "chunk_ptr sz p k = p + chunk_header_size + of_nat k * chunk_size sz"

lemma idx_word: "j < 2 ^ 32 \<Longrightarrow> ucast (of_nat j :: u32) = (of_nat j :: u64)"
  by (simp add: unsigned_of_nat take_bit_nat_eq_self)

lemma of_nat_u64_eq: "x < 2 ^ 64 \<Longrightarrow> y < 2 ^ 64 \<Longrightarrow> ((of_nat x :: u64) = of_nat y) = (x = y)"
  using of_nat_inverse [of x "of_nat y :: u64"] of_nat_inverse [of y "of_nat y :: u64"] by auto

lemma of_nat_u32_zero: "0 < j \<Longrightarrow> j < 2 ^ 32 \<Longrightarrow> (of_nat j :: u32) \<noteq> 0"
  using of_nat_inverse [of j "0 :: u32"] by auto

text \<open>From the middle of a block: the chunks that are left.\<close>

lemma slab_rest:
  assumes "0 < j" and "j + length ns \<le> m" and "m < 2 ^ 32"
    and "unused_idx s = of_nat j" and "user_ptr s = chunk_ptr sz p j"
  shows "slab_allocate_many base sz (of_nat m) ns s =
    Inr (map (\<lambda>(k, n). blk (chunk_ptr sz p k) n) (zip [j..<j + length ns] ns),
      if ns = [] then s
      else if j + length ns = m then s\<lparr>unused_idx := 0, user_ptr := 0\<rparr>
      else s\<lparr>unused_idx := of_nat (j + length ns), user_ptr := chunk_ptr sz p (j + length ns)\<rparr>)"
  using assms
proof (induction ns arbitrary: j s)
  case (Cons n ns)
  let ?s = "if Suc j = m then s\<lparr>unused_idx := 0, user_ptr := 0\<rparr>
      else s\<lparr>unused_idx := of_nat (Suc j), user_ptr := chunk_ptr sz p (Suc j)\<rparr>"
  have j: "Suc j \<le> m" "Suc j < 2 ^ 32" using Cons.prems by auto
  have c: "(ucast (of_nat (Suc j) :: u32) = (of_nat m :: u64)) = (Suc j = m)"
    unfolding idx_word [OF j(2)] by (rule of_nat_u64_eq) (use j Cons.prems(3) in auto)
  have nz: "unused_idx s \<noteq> 0" unfolding Cons.prems(4) by (rule of_nat_u32_zero) (use Cons.prems j in auto)
  have one: "slab_allocate base sz (of_nat m) n s = Inr (blk (chunk_ptr sz p j) n, ?s)"
    using nz c Cons.prems(4,5)
    by (simp add: slab_allocate_def Let_def chunk_ptr_def algebra_simps)
  have upt: "[j..<j + length (n # ns)] = j # [Suc j..<Suc j + length ns]"
    using upt_conv_Cons [of j "j + length (n # ns)"] by (simp del: upt_Suc)
  show ?case
  proof (cases "Suc j = m")
    case True
    then have "ns = []" using Cons.prems(2) by auto
    then show ?thesis unfolding upt using one True by simp
  next
    case False
    then have "slab_allocate_many base sz (of_nat m) ns ?s =
      Inr (map (\<lambda>(k, n). blk (chunk_ptr sz p k) n) (zip [Suc j..<Suc j + length ns] ns),
        if ns = [] then ?s
        else if Suc j + length ns = m then ?s\<lparr>unused_idx := 0, user_ptr := 0\<rparr>
        else ?s\<lparr>unused_idx := of_nat (Suc j + length ns), user_ptr := chunk_ptr sz p (Suc j + length ns)\<rparr>)"
      by (intro Cons.IH) (use Cons.prems j in auto)
    then show ?thesis using one False unfolding upt by simp
  qed
qed simp


text \<open>From the start of a block.\<close>

lemma slab_from_start:
  assumes "unused_idx s = 0" and base: "affix_allocate slab_affix base (block_size sz (of_nat m)) (base_state s) = Inr (b, t)"
    and ns: "ns \<noteq> []" "length ns \<le> m" "m < 2 ^ 32"
  shows "\<exists>s'. slab_allocate_many base sz (of_nat m) ns s =
      Inr (map (\<lambda>(k, n). blk (chunk_ptr sz (mb_ptr b) k) n) (zip [0..<length ns] ns), s') \<and>
    mem s' = (mem s)(prefix_of_inner slab_affix b := 0) \<and> base_state s' = t \<and>
    unused_idx s' = (if length ns = m then 0 else of_nat (length ns)) \<and>
    user_ptr s' = (if length ns = m then 0 else chunk_ptr sz (mb_ptr b) (length ns))"
proof -
  let ?p = "mb_ptr b"
  obtain n ns' where ns': "ns = n # ns'" using ns(1) by (cases ns) auto
  let ?s0 = "s\<lparr>mem := (mem s)(prefix_of_inner slab_affix b := 0), base_state := t\<rparr>"
  let ?s1 = "if m = 1 then ?s0\<lparr>unused_idx := 0, user_ptr := 0\<rparr>
      else ?s0\<lparr>unused_idx := 1, user_ptr := chunk_ptr sz ?p 1\<rparr>"
  have c: "(ucast (1 :: u32) = (of_nat m :: u64)) = (m = 1)"
    using of_nat_u64_eq [of 1 m] ns(3) by auto
  have one: "slab_allocate base sz (of_nat m) n s = Inr (blk (chunk_ptr sz ?p 0) n, ?s1)"
    using assms(1) base c
    by (simp add: slab_allocate_def allocate_and_set_active_block_def allocate_new_block_def Let_def
        chunk_ptr_def algebra_simps)
  have upt: "[0..<length ns] = 0 # [Suc 0..<Suc 0 + length ns']"
    using upt_conv_Cons [of 0 "length ns"] ns' by (simp del: upt_Suc)
  show ?thesis
  proof (cases "m = 1")
    case True
    then have "ns' = []" using ns ns' by simp
    then show ?thesis using one True ns' by simp
  next
    case False
    then have r: "slab_allocate_many base sz (of_nat m) ns' ?s1 =
      Inr (map (\<lambda>(k, n). blk (chunk_ptr sz ?p k) n) (zip [Suc 0..<Suc 0 + length ns'] ns'),
        if ns' = [] then ?s1
        else if Suc 0 + length ns' = m then ?s1\<lparr>unused_idx := 0, user_ptr := 0\<rparr>
        else ?s1\<lparr>unused_idx := of_nat (Suc 0 + length ns'), user_ptr := chunk_ptr sz ?p (Suc 0 + length ns')\<rparr>)"
      using ns ns' by (intro slab_rest) auto
    show ?thesis unfolding upt using one r False ns' by (auto simp: of_nat_Suc)
  qed
qed

lemma chunk_size_ge: "unat sz + 32 \<le> 2 ^ 64 \<Longrightarrow> 16 + unat sz \<le> unat (chunk_size sz)"
proof -
  assume s: "unat sz + 32 \<le> 2 ^ 64"
  have h: "unat (16 + sz) = 16 + unat sz" using unat_add_small [of 16 sz] s by simp
  then show ?thesis
    using round_bounds(1) [of 4 "16 + sz"] s by (simp add: chunk_size_def chunk_header_size_def)
qed

lemma chunk_ptr_unat:
  assumes "unat p + unat (chunk_size sz) * m < 2 ^ 64" and "k < m" and "16 \<le> unat (chunk_size sz)"
  shows "unat (chunk_ptr sz p k) = unat p + 16 + k * unat (chunk_size sz)"
proof -
  let ?c = "unat (chunk_size sz)"
  have "Suc k * ?c \<le> m * ?c" using assms(2) by (intro mult_le_mono1) simp
  then have le: "unat p + ?c + k * ?c < 2 ^ 64" using assms(1) by (simp add: mult.commute)
  have "chunk_ptr sz p k = of_nat (unat p + 16 + k * ?c)"
    by (simp add: chunk_ptr_def chunk_header_size_def)
  moreover have "unat p + 16 + k * ?c < 2 ^ 64" using le assms(3) by linarith
  ultimately show ?thesis
    using of_nat_inverse [of "unat p + 16 + k * ?c" "chunk_ptr sz p k"] by simp
qed

lemma ranges_disjoint: "(b::nat) \<le> c \<or> d \<le> a \<Longrightarrow> {a..<b} \<inter> {c..<d} = {}"
  by auto

lemma range_within: "a' \<le> (a::nat) \<Longrightarrow> b \<le> b' \<Longrightarrow> {a..<b} \<subseteq> {a'..<b'}"
  by auto

lemma chunks_apart:
  assumes "unat p + unat (chunk_size sz) * m < 2 ^ 64" and "unat sz + 32 \<le> 2 ^ 64"
    and "length ns \<le> m" and "\<forall>n \<in> set ns. n \<le> sz"
  shows "apart (map (\<lambda>(k, n). blk (chunk_ptr sz p k) n) (zip [0..<length ns] ns)) \<and>
    (\<forall>b \<in> set (map (\<lambda>(k, n). blk (chunk_ptr sz p k) n) (zip [0..<length ns] ns)).
       region b \<subseteq> {unat p + 16..<unat p + unat (chunk_size sz) * m})"
proof -
  let ?c = "unat (chunk_size sz)" and ?bs = "map (\<lambda>(k, n). blk (chunk_ptr sz p k) n) (zip [0..<length ns] ns)"
  have c: "16 + unat sz \<le> ?c" by (rule chunk_size_ge [OF assms(2)])
  have ptr: "unat (chunk_ptr sz p k) = unat p + 16 + k * ?c" if "k < m" for k
    using chunk_ptr_unat [OF assms(1) that] c by simp
  have mem: "b \<in> set ?bs \<longleftrightarrow> (\<exists>k < length ns. b = blk (chunk_ptr sz p k) (ns ! k))" for b
  proof -
    have "length ?bs = length ns" by simp
    moreover have "?bs ! k = blk (chunk_ptr sz p k) (ns ! k)" if "k < length ns" for k using that by simp
    ultimately show ?thesis unfolding in_set_conv_nth by metis
  qed
  have reg: "region (blk (chunk_ptr sz p k) (ns ! k)) \<subseteq> {unat p + 16 + k * ?c..<unat p + Suc k * ?c}"
    if "k < length ns" for k
  proof -
    have "unat (ns ! k) \<le> unat sz" using assms(4) that by (simp add: word_le_nat_alt)
    then show ?thesis using ptr [of k] c that assms(3) by (auto simp: region_def)
  qed
  have top: "unat p + Suc k * ?c \<le> unat p + ?c * m" if "k < length ns" for k
    using that assms(3) mult_le_mono1 [of "Suc k" m ?c] by (simp add: mult.commute)
  have inj: "inj_on (chunk_ptr sz p) {0..<length ns}"
  proof (rule inj_onI)
    fix i j assume ij: "i \<in> {0..<length ns}" "j \<in> {0..<length ns}" "chunk_ptr sz p i = chunk_ptr sz p j"
    then have "i < m" "j < m" using assms(3) by auto
    then have "unat p + 16 + i * ?c = unat p + 16 + j * ?c" using ptr ij(3) by metis
    moreover have "?c \<noteq> 0" using c by linarith
    ultimately show "i = j" by simp
  qed
  have ptrs: "map mb_ptr ?bs = map (chunk_ptr sz p) [0..<length ns]"
    by (rule nth_equalityI) simp_all
  have "distinct (map mb_ptr ?bs)" unfolding ptrs using inj by (simp add: distinct_map)
  moreover have "region a \<inter> region b = {}" if ab: "a \<in> set ?bs" "b \<in> set ?bs" "a \<noteq> b" for a b
  proof -
    obtain i j where i: "i < length ns" "a = blk (chunk_ptr sz p i) (ns ! i)"
      and j: "j < length ns" "b = blk (chunk_ptr sz p j) (ns ! j)" using iffD1 [OF mem ab(1)] iffD1 [OF mem ab(2)] by blast
    have "i \<noteq> j" using i j ab(3) by auto
    then have "Suc i \<le> j \<or> Suc j \<le> i" by linarith
    then have "Suc i * ?c \<le> j * ?c \<or> Suc j * ?c \<le> i * ?c" using mult_le_mono1 by blast
    then have "unat p + Suc i * ?c \<le> unat p + 16 + j * ?c \<or> unat p + Suc j * ?c \<le> unat p + 16 + i * ?c"
      by linarith
    then have "{unat p + 16 + i * ?c..<unat p + Suc i * ?c} \<inter> {unat p + 16 + j * ?c..<unat p + Suc j * ?c} = {}"
      by (rule ranges_disjoint)
    then show ?thesis using reg [OF i(1)] reg [OF j(1)] unfolding i(2) j(2) by blast
  qed
  moreover have "unat (mb_ptr b) + unat (mb_n b) < 2 ^ 64 \<and> region b \<subseteq> {unat p + 16..<unat p + ?c * m}"
    if bs: "b \<in> set ?bs" for b
  proof -
    obtain k where k: "k < length ns" "b = blk (chunk_ptr sz p k) (ns ! k)" using iffD1 [OF mem bs] by blast
    have n: "unat (ns ! k) \<le> unat sz" using assms(4) k(1) by (simp add: word_le_nat_alt)
    have "k < m" using k(1) assms(3) by linarith
    then have "unat (mb_ptr b) = unat p + 16 + k * ?c" "unat (mb_n b) = unat (ns ! k)" using ptr k(2) by simp_all
    moreover have "Suc k * ?c = ?c + k * ?c" by simp
    ultimately have "unat (mb_ptr b) + unat (mb_n b) \<le> unat p + Suc k * ?c" using n c by linarith
    then have "unat (mb_ptr b) + unat (mb_n b) < 2 ^ 64" using top [OF k(1)] assms(1) by linarith
    moreover have "{unat p + 16 + k * ?c..<unat p + Suc k * ?c} \<subseteq> {unat p + 16..<unat p + ?c * m}"
      by (rule range_within [OF _ top [OF k(1)]]) simp
    ultimately show ?thesis using reg [OF k(1)] unfolding k(2) by blast
  qed
  ultimately show ?thesis unfolding apart_def by blast
qed


subsection \<open>Properties\<close>

text \<open>
  The first request on a thread takes one block from the base allocator and it serves \<open>cap\<close>
  requests of at most the chunk's size: their memory lies inside the block, behind the header
  of its chunk, and no two of them overlap; with the last one the block is used up.
\<close>

theorem slab_serves_block:
  assumes "unused_idx s = 0" and "0 < m" and "m < 2 ^ 32" and "unat sz + 32 \<le> 2 ^ 64"
    and "affix_allocate slab_affix base (block_size sz (of_nat m)) (base_state s) = Inr (b, t)"
    and "unat (mb_ptr b) + unat (chunk_size sz) * m < 2 ^ 64"
    and "length ns = m" and "list_all (\<lambda>n. n \<le> sz) ns"
  shows "\<exists>bs s'. slab_allocate_many base sz (of_nat m) ns s = Inr (bs, s') \<and> map mb_n bs = ns \<and> apart bs \<and>
    list_all (\<lambda>c. region c \<subseteq> {unat (mb_ptr b) + 16..<unat (mb_ptr b) + unat (chunk_size sz) * m}) bs \<and>
    unused_idx s' = 0 \<and> user_ptr s' = 0 \<and> base_state s' = t"
proof -
  have ne: "ns \<noteq> []" "length ns \<le> m" using assms(2,7) by auto
  let ?bs = "map (\<lambda>(k, n). blk (chunk_ptr sz (mb_ptr b) k) n) (zip [0..<length ns] ns)"
  obtain s' where s': "slab_allocate_many base sz (of_nat m) ns s = Inr (?bs, s')" "base_state s' = t"
      "unused_idx s' = 0" "user_ptr s' = 0"
    using slab_from_start [OF assms(1,5) ne assms(3)] assms(7) by auto
  have "map mb_n ?bs = ns" by (rule nth_equalityI) simp_all
  moreover have "apart ?bs" "\<forall>c \<in> set ?bs. region c \<subseteq> {unat (mb_ptr b) + 16..<unat (mb_ptr b) + unat (chunk_size sz) * m}"
    using chunks_apart [OF assms(6,4) ne(2)] assms(8) unfolding list_all_iff by blast+
  ultimately show ?thesis using s' unfolding list_all_iff by blast
qed

definition new_slab :: "heap slab" where
  "new_slab = \<lparr>user_ptr = 0, unused_idx = 0, mem = \<lambda>a. 0, base_state = []\<rparr>"

lemma coro_geometry: "chunk_size coro_size = 912" "block_size coro_size coro_cap = 7296"
  "affix_request slab_affix 7296 = 7312"
  by (simp_all add: chunk_size_def coro_size_def coro_cap_def chunk_header_size_def round_to_alignment_def
      block_size_def affix_request_def slab_affix_def Let_def)

lemma first_block:
  "affix_allocate slab_affix (opnew_allocate bump_new) 7296 [] = Inr (blk 32 7296, [blk 16 7312])"
  by (simp add: affix_allocate_def opnew_allocate_def bump_new_def heap_end_def coro_geometry
      get_inner_def Let_def)
    (simp add: slab_affix_def round_to_alignment_def blk_def)

lemma slab_serves_block_witness:
  "\<exists>bs s'. slab_allocate_many (opnew_allocate bump_new) 894 8 [894, 100, 200, 300, 400, 500, 600, 894] new_slab =
      Inr (bs, s') \<and> apart bs \<and> list_all (\<lambda>c. region c \<subseteq> {48..<7328}) bs \<and> base_state s' = [blk 16 7312]"
  using slab_serves_block [of new_slab 8 894 "opnew_allocate bump_new" "blk 32 7296" "[blk 16 7312]"
      "[894, 100, 200, 300, 400, 500, 600, 894]"] first_block coro_geometry
  by (simp add: new_slab_def coro_size_def coro_cap_def) blast

fun slab_deallocate_many :: "('s, 'e) dealloc_fun \<Rightarrow> u64 \<Rightarrow> u64 \<Rightarrow> memblk list \<Rightarrow> 's slab \<Rightarrow> 'e + 's slab" where
  "slab_deallocate_many base sz cap [] s = Inr s"
| "slab_deallocate_many base sz cap (b # bs) s =
     (case slab_deallocate base sz cap b s of
        Inl e \<Rightarrow> Inl e
      | Inr s' \<Rightarrow> slab_deallocate_many base sz cap bs s')"

lemma slab_deallocate_counts:
  "mem s (mb_ptr b - chunk_header_size) = 0 \<Longrightarrow> cap \<noteq> 1 \<Longrightarrow>
   slab_deallocate base sz cap b s = Inr (s\<lparr>mem := (mem s)(mb_ptr b - chunk_header_size := 1)\<rparr>)"
  by (simp add: slab_deallocate_def fetch_add_def Let_def)

text \<open>
  C38. \<open>deallocate\<close> counts in the header of the chunk and not in the prefix of the block, where
  the counter was set up. If the headers are zero, as in fresh memory from the system, and
  chunks are freed once each, every header counts to 1, the block's counter stays at 0, and
  nothing is ever given back to the base allocator: each block is leaked.
\<close>

theorem slab_blocks_leak:
  assumes "cap \<noteq> 1" and "distinct (map mb_ptr bs)"
    and "list_all (\<lambda>b. mem s (mb_ptr b - chunk_header_size) = 0) bs"
    and "p - prefix_size slab_affix \<notin> set (map (\<lambda>b. mb_ptr b - chunk_header_size) bs)"
  shows "\<exists>s'. slab_deallocate_many base sz cap bs s = Inr s' \<and> base_state s' = base_state s \<and>
    mem s' (p - prefix_size slab_affix) = mem s (p - prefix_size slab_affix) \<and>
    list_all (\<lambda>b. mem s' (mb_ptr b - chunk_header_size) = 1) bs"
proof -
  have "\<exists>s'. slab_deallocate_many base sz cap bs s = Inr s' \<and> base_state s' = base_state s \<and>
      mem s' = (\<lambda>a. if a \<in> (\<lambda>b. mb_ptr b - chunk_header_size) ` set bs then 1 else mem s a)"
    using assms(2,3)
  proof (induction bs arbitrary: s)
    case (Cons b bs)
    let ?h = "mb_ptr b - chunk_header_size"
    let ?s = "s\<lparr>mem := (mem s)(?h := 1)\<rparr>"
    have one: "slab_deallocate base sz cap b s = Inr ?s"
      using slab_deallocate_counts assms(1) Cons.prems(2) by auto
    have "mb_ptr c \<noteq> mb_ptr b" if "c \<in> set bs" for c
      using imageI [OF that, of mb_ptr] Cons.prems(1) by (metis distinct.simps(2) list.simps(9) list.set_map)
    then have "list_all (\<lambda>c. mem ?s (mb_ptr c - chunk_header_size) = 0) bs"
      using Cons.prems by (auto simp: list_all_iff)
    then obtain s' where "slab_deallocate_many base sz cap bs ?s = Inr s'" "base_state s' = base_state ?s"
        "mem s' = (\<lambda>a. if a \<in> (\<lambda>b. mb_ptr b - chunk_header_size) ` set bs then 1 else mem ?s a)"
      using Cons.IH [of ?s] Cons.prems(1) by auto
    with one show ?case by (auto simp: fun_eq_iff)
  qed (simp add: fun_eq_iff)
  then show ?thesis using assms(4) by (auto simp: list_all_iff)
qed

lemma slab_blocks_leak_witness:
  "\<exists>s'. slab_deallocate_many opnew_deallocate 894 8 (map (\<lambda>k. blk (chunk_ptr 894 32 k) 894) [0..<8])
      (new_slab\<lparr>base_state := [blk 16 7312]\<rparr>) = Inr s' \<and> base_state s' = [blk 16 7312] \<and> mem s' 16 = 0"
proof -
  let ?s = "new_slab\<lparr>base_state := [blk 16 7312]\<rparr>" and ?bs = "map (\<lambda>k. blk (chunk_ptr 894 32 k) 894) [0..<8]"
  have bs: "?bs = [blk 48 894, blk 960 894, blk 1872 894, blk 2784 894, blk 3696 894, blk 4608 894,
      blk 5520 894, blk 6432 894]"
    using coro_geometry(1) by (simp add: upt_rec chunk_ptr_def chunk_header_size_def coro_size_def)
  show ?thesis
    using slab_blocks_leak [of 8 ?bs ?s 32 opnew_deallocate 894]
    unfolding bs by (simp add: new_slab_def chunk_header_size_def slab_affix_def round_to_alignment_def) blast
qed

text \<open>
  When a thread ends in the middle of a block, the destructor of its current block gives
  that block back to the base allocator although the chunks that were cut from it may still
  be in use by coroutines that other threads run.
\<close>

theorem thread_exit_frees_used_block:
  assumes "unused_idx s = 0" and "1 < m" and "m < 2 ^ 32"
    and "affix_allocate slab_affix base (block_size sz (of_nat m)) (base_state s) = Inr (b, t)"
    and "ns \<noteq> []" and "length ns < m"
    and "mb_ptr b + chunk_header_size + of_nat (length ns) * chunk_size sz \<noteq> 0"
  shows "\<exists>bs s'. slab_allocate_many base sz (of_nat m) ns s = Inr (bs, s') \<and> length bs = length ns \<and>
    slab_thread_exit free sz (of_nat m) s' =
      map_sum id (\<lambda>u. s'\<lparr>base_state := u\<rparr>)
        (affix_deallocate slab_affix free (blk (mb_ptr b) (block_size sz (of_nat m))) t)"
proof -
  have ne: "ns \<noteq> []" "length ns \<le> m" using assms(5,6) by auto
  obtain bs s' where s': "slab_allocate_many base sz (of_nat m) ns s = Inr (bs, s')" "length bs = length ns"
      "base_state s' = t" "unused_idx s' = of_nat (length ns)" "user_ptr s' = chunk_ptr sz (mb_ptr b) (length ns)"
    using slab_from_start [OF assms(1,4) ne assms(3)] assms(6) by auto
  have "length ns < 2 ^ 32" using assms(3,6) by linarith
  then have "(ucast (unused_idx s') :: u64) = of_nat (length ns)" using idx_word s'(4) by simp
  then have "user_ptr s' - chunk_header_size - ucast (unused_idx s') * chunk_size sz = mb_ptr b"
    using s'(5) by (simp add: chunk_ptr_def)
  moreover have "user_ptr s' \<noteq> 0" using s'(5) assms(7) by (simp add: chunk_ptr_def)
  ultimately have "slab_thread_exit free sz (of_nat m) s' =
      map_sum id (\<lambda>u. s'\<lparr>base_state := u\<rparr>)
        (affix_deallocate slab_affix free (blk (mb_ptr b) (block_size sz (of_nat m))) t)"
    using s'(3) by (simp add: slab_thread_exit_def)
  then show ?thesis using s'(1,2) by blast
qed

lemma thread_exit_frees_used_block_witness:
  "\<exists>bs s'. slab_allocate_many (opnew_allocate bump_new) 894 8 [100, 200, 300] new_slab = Inr (bs, s') \<and>
    length bs = 3 \<and> map_sum id base_state (slab_thread_exit opnew_deallocate 894 8 s') = Inr []"
proof -
  have e: "affix_deallocate slab_affix opnew_deallocate (blk 32 7296) [blk 16 7312] = Inr []"
    by (simp add: affix_deallocate_def get_outer_eq coro_geometry opnew_deallocate_def)
      (simp add: prefix_shift_def slab_affix_def round_to_alignment_def)
  show ?thesis
    using thread_exit_frees_used_block [of new_slab 8 "opnew_allocate bump_new" 894 "blk 32 7296"
        "[blk 16 7312]" "[100, 200, 300]" opnew_deallocate] first_block coro_geometry e
    by (simp add: new_slab_def coro_size_def coro_cap_def chunk_header_size_def) force
qed

end
