(* ===== verification/Free_List.thy ===== *)
theory Free_List
  imports Mem_Block "HOL-Library.Multiset"
begin

section \<open>Free lists (alloc/FreeListTLS.hpp, alloc/FreeList.hpp)\<close>

text \<open>
  Caches of freed blocks, one per thread. The stack of blocks is
  \<open>boost::lockfree::stack<void*, fixed_sized<true>, capacity<PoolSize>>\<close>: its \<open>push\<close>, \<open>pop\<close> and
  \<open>consume_all\<close> are parameters, whose documented laws are the locale \<open>lockfree_stack\<close>. Operations are
  calls, one after the other, by any of the threads.
\<close>

subsection \<open>The stack and the state\<close>

type_synonym 'k push_fun = "u64 \<Rightarrow> 'k \<Rightarrow> 'k option"
type_synonym 'k pop_fun = "'k \<Rightarrow> (u64 \<times> 'k) option"
type_synonym 'k all_fun = "'k \<Rightarrow> u64 list"

text \<open>
  \<open>FreeListTLS\<close>: the stacks of the threads that have not ended, the memory in front of the blocks,
  which holds the owner of the stack the block came from, and the base allocator.
\<close>

record ('k, 's) free_list =
  fl_stacks :: "nat \<Rightarrow> 'k option"
  fl_tag :: "u64 \<Rightarrow> nat"
  fl_base :: 's

datatype 'e fl_error = Fl_base 'e | Dead_stack nat

subsection \<open>\<open>FreeListTLS\<close>\<close>

text \<open>Thread \<open>i\<close> allocates: from its stack, else from the tagged base allocator.\<close>

definition free_list_allocate ::
    "'k pop_fun \<Rightarrow> ('s, 'e) alloc_fun \<Rightarrow> u64 \<Rightarrow> nat \<Rightarrow> (('k, 's) free_list, 'e fl_error) alloc_fun" where
  "free_list_allocate pop base sz i n fl =
     (case fl_stacks fl i of
        None \<Rightarrow> Inl (Dead_stack i)
      | Some k \<Rightarrow>
          (case pop k of
             Some (p, k') \<Rightarrow> Inr (blk p sz, fl\<lparr>fl_stacks := (fl_stacks fl)(i := Some k')\<rparr>)
           | None \<Rightarrow>
               (case affix_allocate tagged_affix base sz (fl_base fl) of
                  Inl e \<Rightarrow> Inl (Fl_base e)
                | Inr (inner, s') \<Rightarrow>
                    Inr (blk (mb_ptr inner) n,
                      fl\<lparr>fl_tag := (fl_tag fl)(prefix_of_inner tagged_affix inner := i), fl_base := s'\<rparr>))))"

text \<open>Any thread frees: to the stack named by the prefix, which may be full, or gone.\<close>

definition free_list_deallocate ::
    "'k push_fun \<Rightarrow> ('s, 'e) dealloc_fun \<Rightarrow> u64 \<Rightarrow> (('k, 's) free_list, 'e fl_error) dealloc_fun" where
  "free_list_deallocate push base sz b fl =
     (let i = fl_tag fl (prefix_of_inner tagged_affix b)
      in case fl_stacks fl i of
           None \<Rightarrow> Inl (Dead_stack i)
         | Some k \<Rightarrow>
             (case push (mb_ptr b) k of
                Some k' \<Rightarrow> Inr (fl\<lparr>fl_stacks := (fl_stacks fl)(i := Some k')\<rparr>)
              | None \<Rightarrow>
                  (case affix_deallocate tagged_affix base (blk (mb_ptr b) sz) (fl_base fl) of
                     Inl e \<Rightarrow> Inl (Fl_base e)
                   | Inr s' \<Rightarrow> Inr (fl\<lparr>fl_base := s'\<rparr>))))"

text \<open>The destructor of a thread's \<open>Stack\<close>.\<close>

fun consume_blocks :: "('s, 'e) dealloc_fun \<Rightarrow> u64 \<Rightarrow> u64 list \<Rightarrow> 's \<Rightarrow> 'e + 's" where
  "consume_blocks base sz [] s = Inr s"
| "consume_blocks base sz (p # ps) s =
     (case affix_deallocate tagged_affix base (blk p sz) s of
        Inl e \<Rightarrow> Inl e
      | Inr s' \<Rightarrow> consume_blocks base sz ps s')"

definition free_list_thread_exit ::
    "'k all_fun \<Rightarrow> ('s, 'e) dealloc_fun \<Rightarrow> u64 \<Rightarrow> nat \<Rightarrow> ('k, 's) free_list \<Rightarrow> 'e fl_error + ('k, 's) free_list" where
  "free_list_thread_exit all base sz i fl =
     (case fl_stacks fl i of
        None \<Rightarrow> Inl (Dead_stack i)
      | Some k \<Rightarrow>
          (case consume_blocks base sz (all k) (fl_base fl) of
             Inl e \<Rightarrow> Inl (Fl_base e)
           | Inr s' \<Rightarrow> Inr (fl\<lparr>fl_stacks := (fl_stacks fl)(i := None), fl_base := s'\<rparr>)))"

subsection \<open>\<open>FreeList\<close>\<close>

text \<open>One thread's stack and the base allocator. The loop of the destructor pops to the end.\<close>

definition plain_list_allocate :: "'k pop_fun \<Rightarrow> ('s, 'e) alloc_fun \<Rightarrow> u64 \<Rightarrow> ('k \<times> 's, 'e) alloc_fun" where
  "plain_list_allocate pop base sz n ks =
     (case pop (fst ks) of
        Some (p, k') \<Rightarrow> Inr (blk p sz, k', snd ks)
      | None \<Rightarrow>
          (case base sz (snd ks) of
             Inl e \<Rightarrow> Inl e
           | Inr (b, s') \<Rightarrow> Inr (b, fst ks, s')))"

definition plain_list_deallocate :: "'k push_fun \<Rightarrow> ('s, 'e) dealloc_fun \<Rightarrow> ('k \<times> 's, 'e) dealloc_fun" where
  "plain_list_deallocate push base b ks =
     (case push (mb_ptr b) (fst ks) of
        Some k' \<Rightarrow> Inr (k', snd ks)
      | None \<Rightarrow> map_sum id (Pair (fst ks)) (base b (snd ks)))"

partial_function (option) plain_list_destroy ::
    "'k pop_fun \<Rightarrow> ('s, 'e) dealloc_fun \<Rightarrow> u64 \<Rightarrow> 'k \<Rightarrow> 's \<Rightarrow> ('e + 's) option" where
  "plain_list_destroy pop base sz k s =
     (case pop k of
        None \<Rightarrow> Some (Inr s)
      | Some pk \<Rightarrow>
          (case base (blk (fst pk) sz) s of
             Inl e \<Rightarrow> Some (Inl e)
           | Inr s' \<Rightarrow> plain_list_destroy pop base sz (snd pk) s'))"

subsection \<open>The contract of the stack\<close>

text \<open>
  As documented: a push that succeeds adds the element, a pop takes one out and fails only on an
  empty stack, \<open>consume_all\<close> visits every element once.
\<close>

locale lockfree_stack =
  fixes push :: "'k push_fun" and pop :: "'k pop_fun" and all :: "'k all_fun" and items :: "'k \<Rightarrow> u64 multiset"
  assumes push_law: "push p k = Some k' \<Longrightarrow> items k' = add_mset p (items k)"
    and pop_law: "pop k = Some (p, k') \<Longrightarrow> items k = add_mset p (items k')"
    and pop_empty: "pop k = None \<Longrightarrow> items k = {#}"
    and all_law: "mset (all k) = items k"
begin

lemma destroy_ends: "\<exists>r. plain_list_destroy pop base sz k s = Some r"
proof (induction "size (items k)" arbitrary: k s)
  case 0
  then have "pop k = None" using pop_law [of k] by (cases "pop k") auto
  then show ?case by (simp add: plain_list_destroy.simps)
next
  case (Suc n)
  then obtain p k' where k: "pop k = Some (p, k')" using pop_empty [of k] by (cases "pop k") auto
  then have "size (items k') = n" using Suc.hyps(2) pop_law [OF k] by simp
  then show ?case using Suc.hyps(1) [of k'] k
    by (cases "base (blk p sz) s") (simp_all add: plain_list_destroy.simps [of pop base sz k s])
qed

end

text \<open>A stack of limited length.\<close>

definition list_push :: "nat \<Rightarrow> u64 list push_fun" where
  "list_push cap p k = (if length k < cap then Some (p # k) else None)"

definition list_pop :: "u64 list pop_fun" where
  "list_pop k = (case k of [] \<Rightarrow> None | p # k' \<Rightarrow> Some (p, k'))"

interpretation pool16: lockfree_stack "list_push 16" list_pop id mset
  by unfold_locales (auto simp: list_push_def list_pop_def split: list.splits if_splits)

subsection \<open>The contract of \<open>FreeListTLS\<close>\<close>

text \<open>
  The blocks of the base allocator are those of the clients, at their full size, and those in the
  stacks. A block in a stack has that stack's owner in its prefix, a client's block the owner of
  a stack that exists.
\<close>

definition fl_cached :: "('k \<Rightarrow> u64 multiset) \<Rightarrow> ('k, 's) free_list \<Rightarrow> u64 multiset" where
  "fl_cached items fl = (\<Sum>i \<in> dom (fl_stacks fl). items (the (fl_stacks fl i)))"

definition tags_ok :: "('k \<Rightarrow> u64 multiset) \<Rightarrow> u64 \<Rightarrow> memblk list \<Rightarrow> ('k, 's) free_list \<Rightarrow> bool" where
  "tags_ok items sz bs fl \<longleftrightarrow>
     (\<forall>b \<in> set bs. mb_n b \<le> sz \<and> fl_tag fl (prefix_of_inner tagged_affix b) \<in> dom (fl_stacks fl)) \<and>
     (\<forall>i k p. fl_stacks fl i = Some k \<longrightarrow> p \<in># items k \<longrightarrow> fl_tag fl (p - prefix_size tagged_affix) = i)"

definition base_blocks :: "('k \<Rightarrow> u64 multiset) \<Rightarrow> u64 \<Rightarrow> memblk list \<Rightarrow> ('k, 's) free_list \<Rightarrow> memblk multiset" where
  "base_blocks items sz bs fl = image_mset (\<lambda>p. blk p sz) (image_mset mb_ptr (mset bs) + fl_cached items fl)"

definition fl_holds :: "(memblk list \<Rightarrow> 's \<Rightarrow> bool) \<Rightarrow> ('k \<Rightarrow> u64 multiset) \<Rightarrow> u64 \<Rightarrow> memblk list \<Rightarrow>
    ('k, 's) free_list \<Rightarrow> bool" where
  "fl_holds tholds items sz bs fl \<longleftrightarrow> finite (dom (fl_stacks fl)) \<and> tags_ok items sz bs fl \<and>
     (\<exists>L. tholds L (fl_base fl) \<and> mset L = base_blocks items sz bs fl)"

lemma fl_cached_split:
  assumes "finite (dom (fl_stacks fl))" and "fl_stacks fl i = Some k"
  shows "fl_cached items fl = items k + (\<Sum>j \<in> dom (fl_stacks fl) - {i}. items (the (fl_stacks fl j)))"
  using sum.remove [of "dom (fl_stacks fl)" i "\<lambda>j. items (the (fl_stacks fl j))"] assms
  by (auto simp: fl_cached_def)

lemma fl_cached_update:
  assumes "finite (dom (fl_stacks fl))" and "fl_stacks fl i = Some k"
  shows "fl_cached items (fl\<lparr>fl_stacks := (fl_stacks fl)(i := Some k')\<rparr>) + items k = fl_cached items fl + items k'"
proof -
  let ?fl = "fl\<lparr>fl_stacks := (fl_stacks fl)(i := Some k')\<rparr>"
  have d: "dom (fl_stacks ?fl) = dom (fl_stacks fl)" using assms(2) by auto
  have "fl_cached items ?fl = items k' + (\<Sum>j \<in> dom (fl_stacks ?fl) - {i}. items (the (fl_stacks ?fl j)))"
    by (rule fl_cached_split) (use assms in auto)
  also have "(\<Sum>j \<in> dom (fl_stacks ?fl) - {i}. items (the (fl_stacks ?fl j))) =
      (\<Sum>j \<in> dom (fl_stacks fl) - {i}. items (the (fl_stacks fl j)))"
    unfolding d by (rule sum.cong) auto
  finally have "fl_cached items ?fl = items k' + (\<Sum>j \<in> dom (fl_stacks fl) - {i}. items (the (fl_stacks fl j)))" .
  then show ?thesis unfolding fl_cached_split [OF assms, of items] by (simp only: ac_simps)
qed

lemma fl_cached_drop:
  assumes "finite (dom (fl_stacks fl))" and "fl_stacks fl i = Some k"
  shows "fl_cached items fl = fl_cached items (fl\<lparr>fl_stacks := (fl_stacks fl)(i := None), fl_base := s\<rparr>) + items k"
proof -
  let ?fl = "fl\<lparr>fl_stacks := (fl_stacks fl)(i := None), fl_base := s\<rparr>"
  have d: "dom (fl_stacks ?fl) = dom (fl_stacks fl) - {i}" by auto
  have "fl_cached items ?fl = (\<Sum>j \<in> dom (fl_stacks fl) - {i}. items (the (fl_stacks fl j)))"
    unfolding fl_cached_def d by (rule sum.cong) auto
  then show ?thesis using fl_cached_split [OF assms] by (simp add: ac_simps)
qed

lemma cached_member:
  assumes "finite (dom (fl_stacks fl))" and "fl_stacks fl i = Some k" and "p \<in># items k"
  shows "p \<in># fl_cached items fl"
  using fl_cached_split [OF assms(1,2)] assms(3) by simp

lemma in_base_blocks: "p \<in># fl_cached items fl \<Longrightarrow> blk p sz \<in># base_blocks items sz bs fl"
  by (auto simp: base_blocks_def)

lemma distinct_sub:
  assumes "mset xs \<subseteq># mset ys" and "distinct ys"
  shows "distinct xs"
proof -
  have "count (mset xs) a \<le> count (mset ys) a" for a using assms(1) by (rule mset_subset_eq_count)
  moreover have "count (mset ys) a \<le> 1" for a using assms(2) by (simp add: distinct_count_atmost_1)
  ultimately have le: "count (mset xs) a \<le> 1" for a using le_trans by blast
  have "count (mset xs) a = (if a \<in> set xs then 1 else 0)" for a
  proof (cases "a \<in> set xs")
    case True
    then have "1 \<le> count (mset xs) a" by (simp add: Suc_le_eq)
    from le_antisym [OF le this] show ?thesis using True by simp
  qed simp
  then show ?thesis by (simp add: distinct_count_atmost_1)
qed

text \<open>Blocks of full size that are apart, cut to the requested sizes.\<close>

lemma apart_cut:
  assumes ap: "apart L" and sub: "mset (map (\<lambda>b. blk (mb_ptr b) sz) bs) \<subseteq># mset L" and fit: "\<forall>b \<in> set bs. mb_n b \<le> sz"
  shows "apart bs"
proof -
  let ?c = "\<lambda>b. blk (mb_ptr b) sz"
  have in_L: "?c b \<in> set L" if "b \<in> set bs" for b
    using mset_subset_eqD [OF sub, of "?c b"] that by auto
  have "mset (map mb_ptr bs) = image_mset mb_ptr (mset (map ?c bs))" by (simp add: multiset.map_comp comp_def)
  also have "\<dots> \<subseteq># image_mset mb_ptr (mset L)" by (rule image_mset_subseteq_mono [OF sub])
  finally have "mset (map mb_ptr bs) \<subseteq># mset (map mb_ptr L)" by simp
  moreover have "distinct (map mb_ptr L)" using ap by (simp add: apart_def)
  ultimately have dist: "distinct (map mb_ptr bs)" by (rule distinct_sub)
  have reg: "region b \<subseteq> region (?c b) \<and> unat (mb_ptr b) + unat (mb_n b) < 2 ^ 64" if "b \<in> set bs" for b
  proof -
    have "unat (mb_n b) \<le> unat sz" using fit that by (simp add: word_le_nat_alt)
    moreover have "unat (mb_ptr b) + unat sz < 2 ^ 64" using ap in_L [OF that] by (fastforce simp: apart_def)
    ultimately show ?thesis by (auto simp: region_def)
  qed
  have "region b \<inter> region c = {}" if "b \<in> set bs" "c \<in> set bs" "b \<noteq> c" for b c
  proof -
    have "mb_ptr b \<noteq> mb_ptr c" using dist that by (auto simp: distinct_map inj_on_def)
    then have "region (?c b) \<inter> region (?c c) = {}" using ap in_L [OF that(1)] in_L [OF that(2)] by (auto simp: apart_def)
    then show ?thesis using reg [OF that(1)] reg [OF that(2)] by blast
  qed
  then show ?thesis using dist reg unfolding apart_def by blast
qed

locale tls_free_list = tag: affixed_allocator alloc dealloc holds fits exhausted tagged_affix +
    stk: lockfree_stack push pop all items
  for alloc :: "('s, 'e) alloc_fun" and dealloc :: "('s, 'e) dealloc_fun" and holds fits exhausted
    and push :: "'k push_fun" and pop :: "'k pop_fun" and all :: "'k all_fun" and items +
  fixes sz :: u64
  assumes sz_fits: "affix_fits fits tagged_affix sz"
begin

abbreviation "tholds \<equiv> affix_holds tagged_affix holds"

lemma alloc_keeps:
  assumes h: "fl_holds tholds items sz bs fl" and i: "fl_stacks fl i = Some k" and n: "n \<le> sz"
  shows "free_list_allocate pop alloc sz i n fl = Inl (Fl_base exhausted) \<or>
    (\<exists>b fl'. free_list_allocate pop alloc sz i n fl = Inr (b, fl') \<and> dom (fl_stacks fl') = dom (fl_stacks fl) \<and>
      fl_holds tholds items sz (blk (mb_ptr b) n # bs) fl')"
proof -
  obtain L where L: "tholds L (fl_base fl)" "mset L = base_blocks items sz bs fl"
    and fin: "finite (dom (fl_stacks fl))" and tags: "tags_ok items sz bs fl" using h by (auto simp: fl_holds_def)
  show ?thesis
  proof (cases "pop k")
    case None
    from tag.aff.alloc_law [OF L(1) sz_fits] show ?thesis
    proof (elim disjE exE conjE)
      fix b s' assume b: "affix_allocate tagged_affix alloc sz (fl_base fl) = Inr (b, s')" "tholds (blk (mb_ptr b) sz # L) s'"
      let ?fl = "fl\<lparr>fl_tag := (fl_tag fl)(mb_ptr b - prefix_size tagged_affix := i), fl_base := s'\<rparr>"
      have "apart (blk (mb_ptr b) sz # L)" by (rule tag.aff.holds_apart [OF b(2)])
      then have new: "mb_ptr b \<notin> mb_ptr ` set L" by (simp add: apart_def)
      have "set L = (\<lambda>p. blk p sz) ` (mb_ptr ` set bs \<union> set_mset (fl_cached items fl))"
        using arg_cong [OF L(2), of set_mset] by (simp add: base_blocks_def image_Un)
      then have ptrs: "mb_ptr ` set L = mb_ptr ` set bs \<union> set_mset (fl_cached items fl)" by (auto simp: image_iff)
      have "p \<noteq> mb_ptr b" if "fl_stacks fl j = Some k'" "p \<in># items k'" for j k' p
        using cached_member [of fl j k' p items] fin that new ptrs by auto
      moreover have "mb_ptr c \<noteq> mb_ptr b" if "c \<in> set bs" for c
        using new [unfolded ptrs] imageI [OF that, of mb_ptr] by auto
      ultimately have "tags_ok items sz (blk (mb_ptr b) n # bs) ?fl"
        using tags n i by (auto simp: tags_ok_def prefix_of_inner_def)
      moreover have "base_blocks items sz (blk (mb_ptr b) n # bs) ?fl = mset (blk (mb_ptr b) sz # L)"
        using L(2) by (simp add: base_blocks_def fl_cached_def)
      ultimately have "fl_holds tholds items sz (blk (mb_ptr b) n # bs) ?fl"
        using b(2) fin unfolding fl_holds_def by (metis free_list.select_convs(1,3) free_list.update_convs(2,3) free_list.surjective)
      then show ?thesis using i None b(1) by (simp add: free_list_allocate_def prefix_of_inner_def)
    qed (use i None in \<open>simp add: free_list_allocate_def\<close>)
  next
    case (Some pk)
    then obtain p k' where k: "pop k = Some (p, k')" by (cases pk) auto
    note pl = stk.pop_law [OF k]
    let ?fl = "fl\<lparr>fl_stacks := (fl_stacks fl)(i := Some k')\<rparr>"
    have "fl_cached items ?fl + add_mset p (items k') = fl_cached items fl + items k'"
      using fl_cached_update [OF fin i, of items k'] pl by simp
    then have c: "fl_cached items fl = add_mset p (fl_cached items ?fl)" by simp
    have "base_blocks items sz (blk p n # bs) ?fl = base_blocks items sz bs fl"
      unfolding base_blocks_def c by simp
    moreover have "tags_ok items sz (blk p n # bs) ?fl"
    proof -
      have "fl_tag fl (p - prefix_size tagged_affix) = i" using tags i pl by (auto simp: tags_ok_def)
      then show ?thesis using tags i n pl by (auto simp: tags_ok_def prefix_of_inner_def)
    qed
    ultimately have "fl_holds tholds items sz (blk p n # bs) ?fl" using L fin i by (auto simp: fl_holds_def)
    moreover have "dom (fl_stacks ?fl) = dom (fl_stacks fl)" using i by auto
    ultimately show ?thesis using i k by (simp add: free_list_allocate_def)
  qed
qed

lemma base_frees:
  assumes L: "tholds L s" "mset L = add_mset (blk p sz) M"
  shows "\<exists>s' L'. affix_deallocate tagged_affix dealloc (blk p sz) s = Inr s' \<and> tholds L' s' \<and> mset L' = M"
proof -
  have "blk p sz \<in># mset L" unfolding L(2) by simp
  then have "blk p sz \<in> set L" by simp
  from tag.aff.dealloc_law [OF L(1) this] obtain s' where
    "affix_deallocate tagged_affix dealloc (blk p sz) s = Inr s'" "tholds (remove1 (blk p sz) L) s'" by blast
  then show ?thesis using L(2) by (intro exI [of _ s'] exI [of _ "remove1 (blk p sz) L"]) simp
qed

lemma dealloc_keeps:
  assumes h: "fl_holds tholds items sz bs fl" and b: "b \<in> set bs"
  shows "\<exists>fl'. free_list_deallocate push dealloc sz b fl = Inr fl' \<and> dom (fl_stacks fl') = dom (fl_stacks fl) \<and>
    fl_holds tholds items sz (remove1 b bs) fl'"
proof -
  obtain L where L: "tholds L (fl_base fl)" "mset L = base_blocks items sz bs fl"
    and fin: "finite (dom (fl_stacks fl))" and tags: "tags_ok items sz bs fl" using h by (auto simp: fl_holds_def)
  let ?i = "fl_tag fl (prefix_of_inner tagged_affix b)"
  obtain k where k: "fl_stacks fl ?i = Some k" using tags b by (auto simp: tags_ok_def)
  have rest: "tags_ok items sz (remove1 b bs) fl"
    using tags set_remove1_subset [of b bs] unfolding tags_ok_def by blast
  have split: "mset bs = add_mset b (mset (remove1 b bs))" using b by simp
  have blocks: "base_blocks items sz bs fl = add_mset (blk (mb_ptr b) sz) (base_blocks items sz (remove1 b bs) fl)"
    unfolding base_blocks_def split by simp
  show ?thesis
  proof (cases "push (mb_ptr b) k")
    case None
    obtain s' L' where s': "affix_deallocate tagged_affix dealloc (blk (mb_ptr b) sz) (fl_base fl) = Inr s'"
        "tholds L' s'" "mset L' = base_blocks items sz (remove1 b bs) fl"
      using base_frees [OF L(1) L(2) [unfolded blocks]] by blast
    have "base_blocks items sz (remove1 b bs) (fl\<lparr>fl_base := s'\<rparr>) = base_blocks items sz (remove1 b bs) fl"
      by (simp add: base_blocks_def fl_cached_def)
    then have "fl_holds tholds items sz (remove1 b bs) (fl\<lparr>fl_base := s'\<rparr>)"
      using s'(2,3) rest fin by (auto simp: fl_holds_def tags_ok_def)
    then show ?thesis using k None s'(1) by (simp add: free_list_deallocate_def Let_def)
  next
    case (Some k')
    let ?fl = "fl\<lparr>fl_stacks := (fl_stacks fl)(?i := Some k')\<rparr>"
    note pl = stk.push_law [OF Some]
    have "fl_cached items ?fl + items k = add_mset (mb_ptr b) (fl_cached items fl) + items k"
      using fl_cached_update [OF fin k, of items k'] pl by simp
    then have "fl_cached items ?fl = add_mset (mb_ptr b) (fl_cached items fl)" by (simp only: add_right_cancel)
    then have "base_blocks items sz (remove1 b bs) ?fl = base_blocks items sz bs fl"
      unfolding blocks by (simp add: base_blocks_def)
    moreover have "tags_ok items sz (remove1 b bs) ?fl"
      using rest pl k by (auto simp: tags_ok_def prefix_of_inner_def)
    ultimately have "fl_holds tholds items sz (remove1 b bs) ?fl" using L fin k by (auto simp: fl_holds_def)
    moreover have "dom (fl_stacks ?fl) = dom (fl_stacks fl)" using k by auto
    ultimately show ?thesis using k Some by (simp add: free_list_deallocate_def Let_def)
  qed
qed

lemma fl_holds_apart: "fl_holds tholds items sz bs fl \<Longrightarrow> apart bs"
proof -
  assume h: "fl_holds tholds items sz bs fl"
  then obtain L where L: "tholds L (fl_base fl)" "mset L = base_blocks items sz bs fl" by (auto simp: fl_holds_def)
  have "mset (map (\<lambda>b. blk (mb_ptr b) sz) bs) \<subseteq># mset L"
    unfolding L(2) by (simp add: base_blocks_def multiset.map_comp comp_def)
  moreover have "\<forall>b \<in> set bs. mb_n b \<le> sz" using h unfolding fl_holds_def tags_ok_def by blast
  ultimately show ?thesis by (rule apart_cut [OF tag.aff.holds_apart [OF L(1)]])
qed

text \<open>A thread may end when no client has a block that it allocated.\<close>

lemma consume_frees:
  "tholds L s \<Longrightarrow> mset L = image_mset (\<lambda>p. blk p sz) (mset ps) + M \<Longrightarrow>
   \<exists>s' L'. consume_blocks dealloc sz ps s = Inr s' \<and> tholds L' s' \<and> mset L' = M"
proof (induction ps arbitrary: L s)
  case (Cons p ps)
  have L: "mset L = add_mset (blk p sz) (image_mset (\<lambda>p. blk p sz) (mset ps) + M)" using Cons.prems(2) by simp
  from base_frees [OF Cons.prems(1) L] obtain s' L' where s': "affix_deallocate tagged_affix dealloc (blk p sz) s = Inr s'" "tholds L' s'"
      "mset L' = image_mset (\<lambda>p. blk p sz) (mset ps) + M"
    by blast
  from Cons.IH [OF s'(2,3)] s'(1) show ?case by simp
qed auto

lemma thread_exit_keeps:
  assumes h: "fl_holds tholds items sz bs fl" and i: "fl_stacks fl i = Some k"
    and none: "\<forall>b \<in> set bs. fl_tag fl (prefix_of_inner tagged_affix b) \<noteq> i"
  shows "\<exists>fl'. free_list_thread_exit all dealloc sz i fl = Inr fl' \<and> dom (fl_stacks fl') = dom (fl_stacks fl) - {i} \<and>
    fl_holds tholds items sz bs fl'"
proof -
  obtain L where L: "tholds L (fl_base fl)" "mset L = base_blocks items sz bs fl"
    and fin: "finite (dom (fl_stacks fl))" and tags: "tags_ok items sz bs fl" using h by (auto simp: fl_holds_def)
  let ?fl = "\<lambda>s. fl\<lparr>fl_stacks := (fl_stacks fl)(i := None), fl_base := s\<rparr>"
  have blocks: "base_blocks items sz bs fl = image_mset (\<lambda>p. blk p sz) (mset (all k)) + base_blocks items sz bs (?fl s)" for s
    unfolding base_blocks_def fl_cached_drop [OF fin i, of items s] stk.all_law by simp
  obtain s' L' where s': "consume_blocks dealloc sz (all k) (fl_base fl) = Inr s'" "tholds L' s'"
      "mset L' = base_blocks items sz bs (?fl (fl_base fl))"
    using consume_frees [OF L(1) L(2) [unfolded blocks [of "fl_base fl"]]] by blast
  have "base_blocks items sz bs (?fl s') = base_blocks items sz bs (?fl (fl_base fl))"
    by (simp add: base_blocks_def fl_cached_def)
  moreover have "tags_ok items sz bs (?fl s')"
    using tags none by (auto simp: tags_ok_def)
  ultimately have "fl_holds tholds items sz bs (?fl s')" using s'(2,3) fin by (auto simp: fl_holds_def)
  moreover have "dom (fl_stacks (?fl s')) = dom (fl_stacks fl) - {i}" by auto
  ultimately show ?thesis using s'(1) i by (simp add: free_list_thread_exit_def)
qed

text \<open>Calls by the threads, and the end of all threads.\<close>

end

datatype fl_op = Fl_allocate nat u64 | Fl_free nat

fun fl_run :: "'k push_fun \<Rightarrow> 'k pop_fun \<Rightarrow> ('s, 'e) alloc_fun \<Rightarrow> ('s, 'e) dealloc_fun \<Rightarrow> u64 \<Rightarrow> fl_op list \<Rightarrow>
    memblk list \<Rightarrow> ('k, 's) free_list \<Rightarrow> 'e fl_error + memblk list \<times> ('k, 's) free_list" where
  "fl_run push pop al de sz [] bs fl = Inr (bs, fl)"
| "fl_run push pop al de sz (Fl_allocate i n # ops) bs fl =
     (case free_list_allocate pop al sz i n fl of
        Inl e \<Rightarrow> Inl e
      | Inr (b, fl') \<Rightarrow> fl_run push pop al de sz ops (blk (mb_ptr b) n # bs) fl')"
| "fl_run push pop al de sz (Fl_free j # ops) bs fl =
     (if length bs \<le> j then fl_run push pop al de sz ops bs fl
      else case free_list_deallocate push de sz (bs ! j) fl of
        Inl e \<Rightarrow> Inl e
      | Inr fl' \<Rightarrow> fl_run push pop al de sz ops (remove1 (bs ! j) bs) fl')"

fun fl_exits :: "'k all_fun \<Rightarrow> ('s, 'e) dealloc_fun \<Rightarrow> u64 \<Rightarrow> nat list \<Rightarrow> ('k, 's) free_list \<Rightarrow> 'e fl_error + ('k, 's) free_list" where
  "fl_exits all de sz [] fl = Inr fl"
| "fl_exits all de sz (i # is) fl =
     (case free_list_thread_exit all de sz i fl of Inl e \<Rightarrow> Inl e | Inr fl' \<Rightarrow> fl_exits all de sz is fl')"

fun fl_op_ok :: "nat \<Rightarrow> u64 \<Rightarrow> fl_op \<Rightarrow> bool" where
  "fl_op_ok threads sz (Fl_allocate i n) = (i < threads \<and> n \<le> sz)"
| "fl_op_ok threads sz (Fl_free j) = True"

text \<open>\<open>threads\<close> threads with empty stacks.\<close>

definition fl_start :: "nat \<Rightarrow> 'k \<Rightarrow> 's \<Rightarrow> ('k, 's) free_list" where
  "fl_start threads k s = \<lparr>fl_stacks = (\<lambda>i. if i < threads then Some k else None), fl_tag = (\<lambda>_. 0), fl_base = s\<rparr>"

lemma dom_fl_start [simp]: "dom (fl_stacks (fl_start threads k s)) = {..<threads}"
  by (auto simp: fl_start_def split: if_splits)

context tls_free_list
begin

lemma start_holds: "tholds [] s \<Longrightarrow> items k = {#} \<Longrightarrow> fl_holds tholds items sz [] (fl_start threads k s)"
proof -
  assume h: "tholds [] s" "items k = {#}"
  have c: "fl_cached items (fl_start threads k s) = {#}"
    unfolding fl_cached_def dom_fl_start by (rule sum.neutral) (simp add: fl_start_def h(2))
  have "tags_ok items sz [] (fl_start threads k s)"
    using h(2) by (auto simp: tags_ok_def fl_start_def split: if_splits)
  moreover have "tholds [] (fl_base (fl_start threads k s))" using h(1) by (simp add: fl_start_def)
  moreover have "mset [] = base_blocks items sz [] (fl_start threads k s)" by (simp add: base_blocks_def c)
  ultimately show ?thesis unfolding fl_holds_def dom_fl_start by blast
qed

lemma fl_run_safe:
  "fl_holds tholds items sz bs fl \<Longrightarrow> dom (fl_stacks fl) = {..<threads} \<Longrightarrow> list_all (fl_op_ok threads sz) ops \<Longrightarrow>
   fl_run push pop alloc dealloc sz ops bs fl = Inl (Fl_base exhausted) \<or>
   (\<exists>bs' fl'. fl_run push pop alloc dealloc sz ops bs fl = Inr (bs', fl') \<and> fl_holds tholds items sz bs' fl' \<and>
     dom (fl_stacks fl') = {..<threads})"
proof (induction ops arbitrary: bs fl)
  case (Cons op ops)
  have rest: "list_all (fl_op_ok threads sz) ops" using Cons.prems(3) by simp
  show ?case
  proof (cases op)
    case (Fl_allocate i n)
    then have ok: "i < threads" "n \<le> sz" using Cons.prems(3) by simp_all
    then obtain k where k: "fl_stacks fl i = Some k" using Cons.prems(2) by blast
    from alloc_keeps [OF Cons.prems(1) k ok(2)] show ?thesis
    proof (elim disjE exE conjE)
      assume "free_list_allocate pop alloc sz i n fl = Inl (Fl_base exhausted)"
      then show ?thesis using Fl_allocate by simp
    next
      fix b fl' assume "free_list_allocate pop alloc sz i n fl = Inr (b, fl')" "dom (fl_stacks fl') = dom (fl_stacks fl)"
        "fl_holds tholds items sz (blk (mb_ptr b) n # bs) fl'"
      then show ?thesis using Cons.IH rest Cons.prems(2) Fl_allocate by simp
    qed
  next
    case (Fl_free j)
    show ?thesis
    proof (cases "length bs \<le> j")
      case True
      then show ?thesis using Fl_free Cons rest by simp
    next
      case False
      then have "bs ! j \<in> set bs" by simp
      from dealloc_keeps [OF Cons.prems(1) this] obtain fl' where
        "free_list_deallocate push dealloc sz (bs ! j) fl = Inr fl'" "dom (fl_stacks fl') = dom (fl_stacks fl)"
        "fl_holds tholds items sz (remove1 (bs ! j) bs) fl'" by blast
      then show ?thesis using Fl_free False Cons.IH rest Cons.prems(2) by simp
    qed
  qed
qed simp

lemma fl_exits_empty:
  "fl_holds tholds items sz [] fl \<Longrightarrow> distinct is \<Longrightarrow> dom (fl_stacks fl) = set is \<Longrightarrow>
   \<exists>fl'. fl_exits all dealloc sz is fl = Inr fl' \<and> tholds [] (fl_base fl')"
proof (induction "is" arbitrary: fl)
  case Nil
  then show ?case by (auto simp: fl_holds_def base_blocks_def fl_cached_def)
next
  case (Cons i "is")
  then obtain k where k: "fl_stacks fl i = Some k" by (metis domD list.set_intros(1))
  from thread_exit_keeps [OF Cons.prems(1) k] obtain fl' where fl': "free_list_thread_exit all dealloc sz i fl = Inr fl'"
    "dom (fl_stacks fl') = dom (fl_stacks fl) - {i}" "fl_holds tholds items sz [] fl'" by auto
  moreover from this have "dom (fl_stacks fl') = set is" using Cons.prems(2,3) by auto
  ultimately show ?case using Cons.IH [of fl'] Cons.prems(2) by simp
qed

end

text \<open>Over a documented \<open>operator new\<close>.\<close>

locale tls_free_list_new = operator_new sysnew + stk: lockfree_stack push pop all items
  for sysnew and push :: "'k push_fun" and pop :: "'k pop_fun" and all :: "'k all_fun" and items +
  fixes sz :: u64
  assumes fits_sz: "affix_fits (\<lambda>n. True) tagged_affix sz"

sublocale tls_free_list_new \<subseteq> tls: tls_free_list "opnew_allocate sysnew" opnew_deallocate
    "\<lambda>bs h. h = bs \<and> apart bs" "\<lambda>n. True" Bad_alloc push pop all items sz
  by unfold_locales (rule tagged_affix_ok fits_sz)+

context tls_free_list_new
begin

lemma run_and_exit:
  assumes k: "items k = {#}" and ops: "list_all (fl_op_ok threads sz) ops"
  shows "fl_run push pop (opnew_allocate sysnew) opnew_deallocate sz ops [] (fl_start threads k []) = Inl (Fl_base Bad_alloc) \<or>
    (\<exists>bs fl. fl_run push pop (opnew_allocate sysnew) opnew_deallocate sz ops [] (fl_start threads k []) = Inr (bs, fl) \<and>
      apart bs \<and> mset (fl_base fl) = image_mset (get_outer tagged_affix) (base_blocks items sz bs fl) \<and>
      (bs = [] \<longrightarrow> (\<exists>fl'. fl_exits all opnew_deallocate sz [0..<threads] fl = Inr fl' \<and> fl_base fl' = [])))"
proof -
  have "tls.tholds [] []" by (simp add: affix_holds_def apart_def)
  note run = tls.fl_run_safe [OF tls.start_holds [OF this k] dom_fl_start ops]
  then show ?thesis
  proof (elim disjE exE conjE)
    fix bs fl assume r: "fl_run push pop (opnew_allocate sysnew) opnew_deallocate sz ops [] (fl_start threads k []) = Inr (bs, fl)"
      and h: "fl_holds tls.tholds items sz bs fl" and d: "dom (fl_stacks fl) = {..<threads}"
    obtain L where L: "tls.tholds L (fl_base fl)" "mset L = base_blocks items sz bs fl" using h by (auto simp: fl_holds_def)
    have base: "fl_base fl = map (get_outer tagged_affix) L" using L(1) by (simp add: affix_holds_def)
    have "mset (fl_base fl) = image_mset (get_outer tagged_affix) (base_blocks items sz bs fl)"
      unfolding base L(2) [symmetric] by simp
    moreover have "apart bs" using tls.fl_holds_apart [OF h] .
    moreover have "\<exists>fl'. fl_exits all opnew_deallocate sz [0..<threads] fl = Inr fl' \<and> fl_base fl' = []" if "bs = []"
      using tls.fl_exits_empty [of fl "[0..<threads]"] h d that by (auto simp: affix_holds_def atLeast0LessThan)
    ultimately show ?thesis using r by blast
  qed blast
qed

end

text \<open>The instance of \<open>CoroAllocator\<close>: blocks of 8192 bytes, stacks of 16.\<close>

definition coro_block :: u64 where
  "coro_block = 1024 * 8"

interpretation coro_list: tls_free_list_new bump_new "list_push 16" list_pop id mset coro_block
  by unfold_locales (simp add: affix_fits_def tagged_affix_def coro_block_def)

subsection \<open>Properties\<close>

text \<open>
  C34. Over any documented \<open>operator new\<close> and stack, whatever the threads allocate and free, in any
  order and on any thread: no stack is missed, \<open>operator delete\<close> is never called with a block that
  is not allocated or has another size, the clients' blocks never overlap, and the heap holds
  exactly their blocks and those in the stacks. When all are freed, the ends of the threads
  give everything back.
\<close>

theorem free_list_safe:
  assumes "operator_new sysnew" and "lockfree_stack push pop all items" and "affix_fits (\<lambda>n. True) tagged_affix sz"
    and "items k = {#}" and "list_all (fl_op_ok threads sz) ops"
  shows "fl_run push pop (opnew_allocate sysnew) opnew_deallocate sz ops [] (fl_start threads k []) = Inl (Fl_base Bad_alloc) \<or>
    (\<exists>bs fl. fl_run push pop (opnew_allocate sysnew) opnew_deallocate sz ops [] (fl_start threads k []) = Inr (bs, fl) \<and>
      apart bs \<and> mset (fl_base fl) = image_mset (get_outer tagged_affix) (base_blocks items sz bs fl) \<and>
      (bs = [] \<longrightarrow> (\<exists>fl'. fl_exits all opnew_deallocate sz [0..<threads] fl = Inr fl' \<and> fl_base fl' = [])))"
  using tls_free_list_new.run_and_exit [of sysnew push pop all items sz k threads ops] assms
  by (simp add: tls_free_list_new_def tls_free_list_new_axioms_def)

text \<open>Thread 0 allocates two blocks, one is freed, thread 0 takes it again, thread 1 allocates.\<close>

definition two_threads :: "fl_op list" where
  "two_threads = [Fl_allocate 0 7312, Fl_allocate 0 100, Fl_free 1, Fl_allocate 0 7312, Fl_allocate 1 8]"

lemmas fl_eval = free_list_allocate_def free_list_deallocate_def fl_start_def list_pop_def list_push_def
  affix_allocate_def affix_request_def affix_deallocate_def get_inner_def get_outer_def round_to_alignment_def
  opnew_allocate_def opnew_deallocate_def bump_new_def heap_end_def tagged_affix_def coro_block_def
  prefix_of_inner_def blk_def Let_def

lemma two_threads_run:
  "fl_run (list_push 16) list_pop (opnew_allocate bump_new) opnew_deallocate coro_block two_threads [] (fl_start 2 [] []) \<noteq>
    Inl (Fl_base Bad_alloc)"
  by (simp add: two_threads_def fl_eval)

theorem free_list_safe_witness:
  "\<exists>bs fl. fl_run (list_push 16) list_pop (opnew_allocate bump_new) opnew_deallocate coro_block two_threads []
      (fl_start 2 [] []) = Inr (bs, fl) \<and> apart bs \<and>
    mset (fl_base fl) = image_mset (get_outer tagged_affix) (base_blocks mset coro_block bs fl)"
proof -
  have "list_all (fl_op_ok 2 coro_block) two_threads" by (simp add: two_threads_def coro_block_def)
  from free_list_safe [OF bump.operator_new_axioms pool16.lockfree_stack_axioms coro_list.fits_sz _ this, of "[]"]
  show ?thesis using two_threads_run by auto
qed

text \<open>
  A block outlives the thread that allocated it, but the stack in its prefix does not: when the
  coroutine in the block is destroyed on another thread after that, the prefix leads to an
  object that is gone.
\<close>

theorem block_outlives_thread:
  assumes "fl_stacks fl i = Some k" and "pop k = None" and "free_list_allocate pop al sz i n fl = Inr (b, fl1)"
    and "free_list_thread_exit all de sz i fl1 = Inr fl2"
  shows "free_list_deallocate push de sz (blk (mb_ptr b) n) fl2 = Inl (Dead_stack i)"
proof -
  have "fl_tag fl1 (prefix_of_inner tagged_affix b) = i"
    using assms(1-3) by (auto simp: free_list_allocate_def prefix_of_inner_def split: sum.splits)
  moreover have "fl_tag fl2 = fl_tag fl1" "fl_stacks fl2 i = None"
    using assms(4) by (auto simp: free_list_thread_exit_def split: option.splits sum.splits)
  ultimately show ?thesis by (simp add: free_list_deallocate_def prefix_of_inner_def)
qed

theorem block_outlives_thread_witness:
  "\<exists>b fl1 fl2. free_list_allocate list_pop (opnew_allocate bump_new) coro_block 0 100 (fl_start 2 [] []) = Inr (b, fl1) \<and>
    free_list_thread_exit id opnew_deallocate coro_block 0 fl1 = Inr fl2 \<and>
    free_list_deallocate (list_push 16) opnew_deallocate coro_block (blk (mb_ptr b) 100) fl2 = Inl (Dead_stack 0)"
proof -
  obtain b fl1 where a: "free_list_allocate list_pop (opnew_allocate bump_new) coro_block 0 100 (fl_start 2 [] []) = Inr (b, fl1)"
    by (simp add: fl_eval)
  then have "fl_stacks fl1 0 = Some []" by (auto simp: fl_eval)
  then obtain fl2 where e: "free_list_thread_exit id opnew_deallocate coro_block 0 fl1 = Inr fl2"
    by (simp add: free_list_thread_exit_def)
  have "fl_stacks (fl_start 2 [] []) 0 = Some []" "list_pop [] = None" by (simp_all add: fl_start_def list_pop_def)
  from block_outlives_thread [OF this a e] a e show ?thesis by blast
qed

text \<open>
  \<open>FreeList\<close> asks its base for \<open>Size\<close> bytes but, when its stack is full, frees with the size of the
  block it is given: a client that frees with the size it asked for passes a wrong size to
  \<open>operator delete\<close>.
\<close>

theorem plain_list_frees_wrong_size:
  assumes "apart h" and "operator_new sysnew" and "pop k = None" and "n \<noteq> sz"
    and "plain_list_allocate pop (opnew_allocate sysnew) sz n (k, h) = Inr (b, ks)" and "push (mb_ptr b) k = None"
  shows "plain_list_deallocate push opnew_deallocate (blk (mb_ptr b) n) ks = Inl (Bad_delete (blk (mb_ptr b) n))"
proof -
  obtain p where p: "sysnew h sz = Some p" "b = blk p sz" "ks = (k, blk p sz # h)"
    using assms(3,5) by (auto simp: plain_list_allocate_def opnew_allocate_def split: option.splits)
  have "apart (blk p sz # h)" using operator_new.sysnew_law [OF assms(2,1) p(1)] .
  then have "p \<notin> mb_ptr ` set h" by (simp add: apart_def)
  then have "blk p n \<notin> set (blk p sz # h)" using assms(4) by (force simp: image_iff)
  then show ?thesis using assms(6) p by (simp add: plain_list_deallocate_def opnew_deallocate_def)
qed

theorem plain_list_frees_wrong_size_witness:
  "plain_list_deallocate (list_push 0) opnew_deallocate (blk 16 100) ([], [blk 16 8192]) = Inl (Bad_delete (blk 16 100))"
proof -
  have "plain_list_allocate list_pop (opnew_allocate bump_new) 8192 100 ([], []) = Inr (blk 16 8192, [], [blk 16 8192])"
    by (simp add: plain_list_allocate_def fl_eval)
  from plain_list_frees_wrong_size [OF _ bump.operator_new_axioms _ _ this, of "list_push 0"]
  show ?thesis by (simp add: apart_def list_pop_def list_push_def)
qed

end
