(* ===== verification/Coro_Frames.thy ===== *)
theory Coro_Frames
  imports Slab_Alloc Free_List
begin

section \<open>Memory of coroutine frames (CoroAllocator.hpp, Task.hpp)\<close>

text \<open>
  \<open>CoroAllocator\<close> as it is composed: frames of up to 894 bytes come from a slab of 8 chunks, whose
  blocks come from a free list of blocks of 8192 bytes over \<open>operator new\<close>; larger frames come from
  \<open>operator new\<close>. The state is that of one thread \<open>i\<close>; \<open>operator new\<close> and the stack are parameters.
\<close>

type_synonym 'k coro_state = "('k, heap) free_list slab"

definition coro_base :: "'k pop_fun \<Rightarrow> (heap \<Rightarrow> u64 \<Rightarrow> u64 option) \<Rightarrow> nat \<Rightarrow> (('k, heap) free_list, heap_error fl_error) alloc_fun" where
  "coro_base pop sysnew i = free_list_allocate pop (opnew_allocate sysnew) coro_block i"

text \<open>The large branch works on the heap that the free list works on.\<close>

definition large_allocate :: "(heap \<Rightarrow> u64 \<Rightarrow> u64 option) \<Rightarrow> ('k coro_state, heap_error fl_error) alloc_fun" where
  "large_allocate sysnew n s =
     (case opnew_allocate sysnew n (fl_base (base_state s)) of
        Inl e \<Rightarrow> Inl (Fl_base e)
      | Inr (b, h) \<Rightarrow> Inr (b, s\<lparr>base_state := (base_state s)\<lparr>fl_base := h\<rparr>\<rparr>))"

definition large_deallocate :: "('k coro_state, heap_error fl_error) dealloc_fun" where
  "large_deallocate b s =
     (case opnew_deallocate b (fl_base (base_state s)) of
        Inl e \<Rightarrow> Inl (Fl_base e)
      | Inr h \<Rightarrow> Inr (s\<lparr>base_state := (base_state s)\<lparr>fl_base := h\<rparr>\<rparr>))"

definition coro_allocate ::
    "'k pop_fun \<Rightarrow> (heap \<Rightarrow> u64 \<Rightarrow> u64 option) \<Rightarrow> nat \<Rightarrow> ('k coro_state, heap_error fl_error) alloc_fun" where
  "coro_allocate pop sysnew i =
     segregator_allocate 894 (slab_allocate (coro_base pop sysnew i) coro_size coro_cap) (large_allocate sysnew)"

definition coro_deallocate :: "'k push_fun \<Rightarrow> ('k coro_state, heap_error fl_error) dealloc_fun" where
  "coro_deallocate push =
     segregator_deallocate 894
       (slab_deallocate (free_list_deallocate push opnew_deallocate coro_block) coro_size coro_cap) large_deallocate"

text \<open>\<open>operator new\<close> and \<open>operator delete\<close> of the promise.\<close>

definition frame_new ::
    "'k pop_fun \<Rightarrow> (heap \<Rightarrow> u64 \<Rightarrow> u64 option) \<Rightarrow> nat \<Rightarrow> u64 \<Rightarrow> 'k coro_state \<Rightarrow> heap_error fl_error + u64 \<times> 'k coro_state" where
  "frame_new pop sysnew i n s = map_sum id (map_prod mb_ptr id) (coro_allocate pop sysnew i n s)"

definition frame_delete :: "'k push_fun \<Rightarrow> u64 \<Rightarrow> u64 \<Rightarrow> 'k coro_state \<Rightarrow> heap_error fl_error + 'k coro_state" where
  "frame_delete push ptr n = coro_deallocate push (blk ptr n)"

subsection \<open>Frames of one thread\<close>

fun frames_new :: "'k pop_fun \<Rightarrow> (heap \<Rightarrow> u64 \<Rightarrow> u64 option) \<Rightarrow> nat \<Rightarrow> u64 list \<Rightarrow> 'k coro_state \<Rightarrow>
    heap_error fl_error + u64 list \<times> 'k coro_state" where
  "frames_new pop sysnew i [] s = Inr ([], s)"
| "frames_new pop sysnew i (n # ns) s =
     (case frame_new pop sysnew i n s of
        Inl e \<Rightarrow> Inl e
      | Inr (p, s') \<Rightarrow> map_sum id (\<lambda>(ps, s''). (p # ps, s'')) (frames_new pop sysnew i ns s'))"

lemma small_frames_slab:
  "list_all (\<lambda>n. n \<le> 894) ns \<Longrightarrow>
   frames_new pop sysnew i ns s =
     map_sum id (\<lambda>(bs, s'). (map mb_ptr bs, s')) (slab_allocate_many (coro_base pop sysnew i) coro_size coro_cap ns s)"
  by (induction ns arbitrary: s)
    (auto simp: frame_new_def coro_allocate_def segregator_allocate_def map_sum.comp sum.map_comp comp_def
      case_prod_beta split: sum.splits)

text \<open>A large frame that is deleted with its size leaves the heap as it was.\<close>

lemma large_frame_roundtrip:
  assumes "894 < n" and "frame_new pop sysnew i n s = Inr (p, s')"
  shows "\<exists>s''. frame_delete push p n s' = Inr s'' \<and> base_state s'' = base_state s"
proof -
  have large: "\<not> n \<le> 894" using assms(1) by simp
  obtain q where "sysnew (fl_base (base_state s)) n = Some q" "p = q"
    "s' = s\<lparr>base_state := (base_state s)\<lparr>fl_base := blk q n # fl_base (base_state s)\<rparr>\<rparr>"
    using assms(2) large by (auto simp: frame_new_def coro_allocate_def segregator_allocate_def large_allocate_def
        opnew_allocate_def split: option.splits)
  then show ?thesis
    using large by (simp add: frame_delete_def coro_deallocate_def segregator_deallocate_def large_deallocate_def
        opnew_deallocate_def)
qed

text \<open>The block that the free list gives is large enough for the slab.\<close>

lemma slab_block_fits: "affix_request slab_affix (block_size coro_size coro_cap) \<le> coro_block"
  by (simp add: coro_geometry coro_block_def)

definition coro_start :: "'k \<Rightarrow> 'k coro_state" where
  "coro_start k = \<lparr>user_ptr = 0, unused_idx = 0, mem = \<lambda>a. 0, base_state = fl_start 1 k []\<rparr>"

lemma coro_first_block:
  assumes "lockfree_stack push pop all items" and "items k = {#}"
  shows "affix_allocate slab_affix (coro_base pop sysnew 0) (block_size coro_size (of_nat 8)) (fl_start 1 k []) =
    (case sysnew [] 8208 of
       None \<Rightarrow> Inl (Fl_base Bad_alloc)
     | Some q \<Rightarrow> Inr (blk (q + 32) 7296, (fl_start 1 k [])\<lparr>fl_tag := (\<lambda>_. 0)(q := 0), fl_base := [blk q 8208]\<rparr>))"
proof -
  have "pop k = None" using lockfree_stack.pop_law [OF assms(1), of k] assms(2) by (cases "pop k") auto
  moreover have "block_size coro_size (of_nat 8) = 7296" using coro_geometry(2) by (simp add: coro_cap_def)
  ultimately show ?thesis
    by (simp add: affix_allocate_def coro_geometry coro_base_def free_list_allocate_def fl_start_def opnew_allocate_def
        get_inner_def prefix_of_inner_def Let_def split: option.split)
      (simp add: slab_affix_def tagged_affix_def coro_block_def affix_request_def round_to_alignment_def Let_def blk_def)
qed

subsection \<open>Properties\<close>

text \<open>
  C36. The first eight coroutine frames of a thread, of any sizes up to 894 bytes, lie without overlap
  in one block of 8208 bytes from \<open>operator new\<close>, the only one asked for; memory exhaustion is the
  only failure.
\<close>

theorem coro_frames_share_block:
  assumes new: "operator_new sysnew" and stk: "lockfree_stack push pop all items" and k: "items k = {#}"
    and ns: "length ns = 8" "list_all (\<lambda>n. n \<le> 894) ns"
  shows "frames_new pop sysnew 0 ns (coro_start k) = Inl (Fl_base Bad_alloc) \<or>
    (\<exists>q ps s'. frames_new pop sysnew 0 ns (coro_start k) = Inr (ps, s') \<and> fl_base (base_state s') = [blk q 8208] \<and>
      apart (map2 blk ps ns) \<and> list_all (\<lambda>f. region f \<subseteq> region (blk q 8208)) (map2 blk ps ns))"
proof (cases "sysnew [] 8208")
  case None
  then obtain n ns' where "ns = n # ns'" "n \<le> 894" using ns by (cases ns) auto
  moreover have "coro_cap = of_nat 8" by (simp add: coro_cap_def)
  ultimately show ?thesis
    using None coro_first_block [OF stk k, of sysnew]
    by (simp add: frame_new_def coro_allocate_def segregator_allocate_def slab_allocate_def coro_start_def
        allocate_and_set_active_block_def allocate_new_block_def)
next
  case (Some q)
  let ?s = "coro_start k" and ?p = "q + 32"
  have first: "affix_allocate slab_affix (coro_base pop sysnew 0) (block_size coro_size (of_nat 8)) (base_state ?s) =
      Inr (blk ?p 7296, (fl_start 1 k [])\<lparr>fl_tag := (\<lambda>_. 0)(q := 0), fl_base := [blk q 8208]\<rparr>)"
    using coro_first_block [OF stk k, of sysnew] Some by (simp add: coro_start_def)
  have ne: "ns \<noteq> []" "length ns \<le> 8" "(8 :: nat) < 2 ^ 32" using ns(1) by auto
  have "unused_idx ?s = 0" by (simp add: coro_start_def)
  from slab_from_start [OF this first ne] obtain s' where
    s': "slab_allocate_many (coro_base pop sysnew 0) coro_size (of_nat 8) ns ?s =
      Inr (map (\<lambda>(k, n). blk (chunk_ptr coro_size ?p k) n) (zip [0..<length ns] ns), s')"
      "base_state s' = (fl_start 1 k [])\<lparr>fl_tag := (\<lambda>_. 0)(q := 0), fl_base := [blk q 8208]\<rparr>" by auto
  let ?bs = "map (\<lambda>(k, n). blk (chunk_ptr coro_size ?p k) n) (zip [0..<length ns] ns)"
  have "apart [blk q 8208]" using operator_new.sysnew_law [OF new _ Some] by (simp add: apart_def)
  then have q: "unat q + 8208 < 2 ^ 64" by (simp add: apart_def)
  then have up: "unat ?p = unat q + 32" by (subst unat_add_small) simp_all
  have size: "unat (chunk_size coro_size) = 912" "unat coro_size = 894"
    by (simp only: coro_geometry(1), simp) (simp add: coro_size_def)
  have "apart ?bs \<and> (\<forall>b \<in> set ?bs. region b \<subseteq> {unat ?p + 16..<unat ?p + unat (chunk_size coro_size) * 8})"
    by (rule chunks_apart) (use ns q up size in \<open>auto simp: list_all_iff coro_size_def\<close>)
  then have b: "apart ?bs" "\<forall>b \<in> set ?bs. region b \<subseteq> {unat ?p + 16..<unat ?p + unat (chunk_size coro_size) * 8}"
    by blast+
  have "{unat ?p + 16..<unat ?p + unat (chunk_size coro_size) * 8} \<subseteq> region (blk q 8208)"
    unfolding region_def up size by auto
  then have "list_all (\<lambda>f. region f \<subseteq> region (blk q 8208)) ?bs" using b(2) unfolding list_all_iff by blast
  moreover have "map2 blk (map mb_ptr ?bs) ns = ?bs"
    by (rule nth_equalityI) simp_all
  moreover have "coro_cap = of_nat 8" by (simp add: coro_cap_def)
  then have "frames_new pop sysnew 0 ns ?s = Inr (map mb_ptr ?bs, s')"
    using small_frames_slab [OF ns(2), of pop sysnew 0 ?s] s'(1) by simp
  ultimately show ?thesis using b(1) s'(2) by (intro disjI2 exI [of _ q] exI [of _ "map mb_ptr ?bs"] exI [of _ s']) simp
qed

theorem coro_frames_share_block_witness:
  "\<exists>q ps s'. frames_new list_pop bump_new 0 [894, 100, 200, 300, 400, 500, 600, 894] (coro_start []) = Inr (ps, s') \<and>
    fl_base (base_state s') = [blk q 8208] \<and> apart (map2 blk ps [894, 100, 200, 300, 400, 500, 600, 894])"
proof -
  let ?ns = "[894, 100, 200, 300, 400, 500, 600, 894] :: u64 list"
  have "frames_new list_pop bump_new 0 ?ns (coro_start []) \<noteq> Inl (Fl_base Bad_alloc)"
    by (simp add: frame_new_def coro_allocate_def segregator_allocate_def slab_allocate_def coro_start_def Let_def
        allocate_and_set_active_block_def allocate_new_block_def coro_base_def fl_eval coro_size_def coro_cap_def
        block_size_def chunk_size_def chunk_header_size_def slab_affix_def)
  then show ?thesis
    using coro_frames_share_block [OF bump.operator_new_axioms pool16.lockfree_stack_axioms, of "[]" ?ns] by auto
qed

end
