(* ===== verification/MPMC_Queue.thy ===== *)
theory MPMC_Queue
  imports Prelude
begin

section \<open>The bounded queue of many producers and consumers (MPMCQueue.hpp)\<close>

text \<open>
  \<open>rigtorp::mpmc::Queue\<close> with any number of threads, one step per access to \<open>head_\<close>, \<open>tail_\<close>, the
  turn of a slot or its storage. A producer draws a ticket from \<open>head_\<close>, a consumer one from
  \<open>tail_\<close>; the ticket names a slot and the turn at which it may use it. Waiting for the turn is a
  step that is not possible before. Tickets are natural numbers: the source's wrap after
  \<open>2 ^ 64\<close> of them. Constructing an object over another one, and moving or destroying one that is not
  there, end the thread in a state of its own.
\<close>

subsection \<open>State\<close>

datatype 'a mpc =
    M_idle
  | E_ticket 'a                \<comment> \<open>\<open>emplace\<close>: draw a ticket\<close>
  | E_wait 'a nat              \<comment> \<open>wait for the turn\<close>
  | E_construct 'a nat         \<comment> \<open>construct the object in the slot\<close>
  | E_publish 'a nat           \<comment> \<open>store the turn\<close>
  | TE_load 'a                 \<comment> \<open>\<open>try_emplace\<close>: load \<open>head_\<close>\<close>
  | TE_check 'a nat            \<comment> \<open>compare the turn of the slot\<close>
  | TE_cas 'a nat              \<comment> \<open>compare-exchange \<open>head_\<close>\<close>
  | TE_reload 'a nat           \<comment> \<open>load \<open>head_\<close> again, give up if it has not moved\<close>
  | P_ticket                   \<comment> \<open>\<open>pop\<close>\<close>
  | P_wait nat
  | P_move nat
  | P_destroy nat 'a
  | P_publish nat 'a
  | TP_load                    \<comment> \<open>\<open>try_pop\<close>\<close>
  | TP_check nat
  | TP_cas nat
  | TP_reload nat
  | M_crash

text \<open>
  The slots by index. Auxiliary: the elements of the producers by their tickets, and the
  tickets and elements of the consumers that are through.
\<close>

record 'a mpmc =
  mq_capacity :: nat
  mq_turn :: "nat \<Rightarrow> nat"
  mq_storage :: "nat \<Rightarrow> 'a option"
  mq_head :: nat
  mq_tail :: nat
  mq_pc :: "nat \<Rightarrow> 'a mpc"
  mq_sent :: "'a list"
  mq_got :: "(nat \<times> 'a) list"

definition mq_slot :: "'a mpmc \<Rightarrow> nat \<Rightarrow> nat" where
  "mq_slot s i = i mod mq_capacity s"

definition mq_round :: "'a mpmc \<Rightarrow> nat \<Rightarrow> nat" where
  "mq_round s i = i div mq_capacity s"

text \<open>
  Slots are allocated with \<open>posix_memalign\<close> or an aligned \<open>operator new\<close>, the parameter \<open>memalign\<close>,
  which returns an address or fails. The constructor throws for a capacity below 1, when there is
  no memory, and when the address is not aligned.
\<close>

datatype mpmc_error = Invalid_argument | Bad_array_new_length | No_memory

definition slots_allocate :: "(nat \<Rightarrow> nat \<Rightarrow> nat option) \<Rightarrow> nat \<Rightarrow> nat \<Rightarrow> nat \<Rightarrow> mpmc_error + nat" where
  "slots_allocate memalign align size0 n =
     (if n > (2 ^ 64 - 1) div size0 then Inl Bad_array_new_length
      else case memalign align (size0 * n) of None \<Rightarrow> Inl No_memory | Some p \<Rightarrow> Inr p)"

definition mpmc_new :: "(nat \<Rightarrow> nat \<Rightarrow> nat option) \<Rightarrow> nat \<Rightarrow> nat \<Rightarrow> nat \<Rightarrow> mpmc_error + 'a mpmc" where
  "mpmc_new memalign align size0 capacity =
     (if capacity < 1 then Inl Invalid_argument
      else case slots_allocate memalign align size0 (capacity + 1) of
        Inl e \<Rightarrow> Inl e
      | Inr slots \<Rightarrow>
          if slots mod align \<noteq> 0 then Inl No_memory
          else Inr \<lparr>mq_capacity = capacity, mq_turn = (\<lambda>_. 0), mq_storage = (\<lambda>_. None), mq_head = 0, mq_tail = 0,
            mq_pc = (\<lambda>_. M_idle), mq_sent = [], mq_got = []\<rparr>)"

definition mq_goto :: "nat \<Rightarrow> 'a mpc \<Rightarrow> 'a mpmc \<Rightarrow> 'a mpmc" where
  "mq_goto i pc s = s\<lparr>mq_pc := (mq_pc s)(i := pc)\<rparr>"

subsection \<open>Steps\<close>

text \<open>A producer that has its ticket.\<close>

definition construct_slot :: "nat \<Rightarrow> 'a \<Rightarrow> nat \<Rightarrow> 'a mpmc \<Rightarrow> 'a mpmc" where
  "construct_slot i x t s =
     (case mq_storage s (mq_slot s t) of
        None \<Rightarrow> mq_goto i (E_publish x t) (s\<lparr>mq_storage := (mq_storage s)(mq_slot s t := Some x)\<rparr>)
      | Some _ \<Rightarrow> mq_goto i M_crash s)"

definition publish_full :: "nat \<Rightarrow> nat \<Rightarrow> 'a mpmc \<Rightarrow> 'a mpmc" where
  "publish_full i t s = mq_goto i M_idle (s\<lparr>mq_turn := (mq_turn s)(mq_slot s t := mq_round s t * 2 + 1)\<rparr>)"

definition emplace_step :: "nat \<Rightarrow> 'a mpmc \<Rightarrow> 'a mpmc option" where
  "emplace_step i s =
     (case mq_pc s i of
        E_ticket x \<Rightarrow> Some (mq_goto i (E_wait x (mq_head s)) (s\<lparr>mq_head := mq_head s + 1, mq_sent := mq_sent s @ [x]\<rparr>))
      | E_wait x t \<Rightarrow>
          if mq_round s t * 2 = mq_turn s (mq_slot s t) then Some (mq_goto i (E_construct x t) s) else None
      | E_construct x t \<Rightarrow> Some (construct_slot i x t s)
      | E_publish x t \<Rightarrow> Some (publish_full i t s)
      | _ \<Rightarrow> None)"

definition try_emplace_step :: "nat \<Rightarrow> 'a mpmc \<Rightarrow> 'a mpmc option" where
  "try_emplace_step i s =
     (case mq_pc s i of
        TE_load x \<Rightarrow> Some (mq_goto i (TE_check x (mq_head s)) s)
      | TE_check x h \<Rightarrow>
          Some (mq_goto i (if mq_round s h * 2 = mq_turn s (mq_slot s h) then TE_cas x h else TE_reload x h) s)
      | TE_cas x h \<Rightarrow>
          (case compare_exchange (mq_head s) h (h + 1) of
             (True, head', _) \<Rightarrow> Some (mq_goto i (E_construct x h) (s\<lparr>mq_head := head', mq_sent := mq_sent s @ [x]\<rparr>))
           | (False, _, h') \<Rightarrow> Some (mq_goto i (TE_check x h') s))
      | TE_reload x h \<Rightarrow> Some (mq_goto i (if mq_head s = h then M_idle else TE_check x (mq_head s)) s)
      | _ \<Rightarrow> None)"

text \<open>A consumer that has its ticket.\<close>

definition move_slot :: "nat \<Rightarrow> nat \<Rightarrow> 'a mpmc \<Rightarrow> 'a mpmc" where
  "move_slot i t s =
     (case mq_storage s (mq_slot s t) of
        None \<Rightarrow> mq_goto i M_crash s
      | Some v \<Rightarrow> mq_goto i (P_destroy t v) s)"

definition destroy_slot :: "nat \<Rightarrow> nat \<Rightarrow> 'a \<Rightarrow> 'a mpmc \<Rightarrow> 'a mpmc" where
  "destroy_slot i t v s =
     (case mq_storage s (mq_slot s t) of
        None \<Rightarrow> mq_goto i M_crash s
      | Some _ \<Rightarrow> mq_goto i (P_publish t v) (s\<lparr>mq_storage := (mq_storage s)(mq_slot s t := None)\<rparr>))"

definition publish_empty :: "nat \<Rightarrow> nat \<Rightarrow> 'a \<Rightarrow> 'a mpmc \<Rightarrow> 'a mpmc" where
  "publish_empty i t v s =
     mq_goto i M_idle (s\<lparr>mq_turn := (mq_turn s)(mq_slot s t := mq_round s t * 2 + 2), mq_got := mq_got s @ [(t, v)]\<rparr>)"

definition pop_step :: "nat \<Rightarrow> 'a mpmc \<Rightarrow> 'a mpmc option" where
  "pop_step i s =
     (case mq_pc s i of
        P_ticket \<Rightarrow> Some (mq_goto i (P_wait (mq_tail s)) (s\<lparr>mq_tail := mq_tail s + 1\<rparr>))
      | P_wait t \<Rightarrow>
          if mq_round s t * 2 + 1 = mq_turn s (mq_slot s t) then Some (mq_goto i (P_move t) s) else None
      | P_move t \<Rightarrow> Some (move_slot i t s)
      | P_destroy t v \<Rightarrow> Some (destroy_slot i t v s)
      | P_publish t v \<Rightarrow> Some (publish_empty i t v s)
      | _ \<Rightarrow> None)"

definition try_pop_step :: "nat \<Rightarrow> 'a mpmc \<Rightarrow> 'a mpmc option" where
  "try_pop_step i s =
     (case mq_pc s i of
        TP_load \<Rightarrow> Some (mq_goto i (TP_check (mq_tail s)) s)
      | TP_check h \<Rightarrow>
          Some (mq_goto i (if mq_round s h * 2 + 1 = mq_turn s (mq_slot s h) then TP_cas h else TP_reload h) s)
      | TP_cas h \<Rightarrow>
          (case compare_exchange (mq_tail s) h (h + 1) of
             (True, tail', _) \<Rightarrow> Some (mq_goto i (P_move h) (s\<lparr>mq_tail := tail'\<rparr>))
           | (False, _, h') \<Rightarrow> Some (mq_goto i (TP_check h') s))
      | TP_reload h \<Rightarrow> Some (mq_goto i (if mq_tail s = h then M_idle else TP_check (mq_tail s)) s)
      | _ \<Rightarrow> None)"

definition first_some :: "'b option \<Rightarrow> 'b option \<Rightarrow> 'b option" where
  "first_some a b = (case a of None \<Rightarrow> b | Some _ \<Rightarrow> a)"

definition mpmc_step :: "nat \<Rightarrow> 'a mpmc \<Rightarrow> 'a mpmc option" where
  "mpmc_step i s = first_some (emplace_step i s) (first_some (try_emplace_step i s)
     (first_some (pop_step i s) (try_pop_step i s)))"

text \<open>\<open>push\<close> and \<open>try_push\<close>, of a copied or a forwarded value, are \<open>emplace\<close> and \<open>try_emplace\<close> of it.\<close>

definition push_call :: "'a \<Rightarrow> 'a mpc" where
  "push_call v = E_ticket v"

definition try_push_call :: "'a \<Rightarrow> 'a mpc" where
  "try_push_call v = TE_load v"

text \<open>A thread that does nothing calls one of the operations.\<close>

fun mpmc_entry :: "'a mpc \<Rightarrow> bool" where
  "mpmc_entry (E_ticket x) = True" | "mpmc_entry (TE_load x) = True"
| "mpmc_entry P_ticket = True" | "mpmc_entry TP_load = True" | "mpmc_entry pc = False"

inductive mpmc_move :: "'a mpmc \<Rightarrow> 'a mpmc \<Rightarrow> bool" where
  mpmc_call: "mq_pc s i = M_idle \<Longrightarrow> mpmc_entry pc \<Longrightarrow> mpmc_move s (mq_goto i pc s)"
| mpmc_moves: "mpmc_step i s = Some t \<Longrightarrow> mpmc_move s t"

inductive_cases mpmc_moveE: "mpmc_move s t"

definition mpmc_start :: "'a mpmc \<Rightarrow> bool" where
  "mpmc_start s \<longleftrightarrow> (\<exists>memalign align size0 capacity. mpmc_new memalign align size0 capacity = Inr s)"

text \<open>
  \<open>size\<close> and \<open>empty\<close>: the difference of the two counters, read as signed. The destructor destroys the
  object of every slot whose turn is odd; the result is what it destroys, or nothing when it
  destroys an object that is not there.
\<close>

definition mpmc_size :: "'a mpmc \<Rightarrow> int" where
  "mpmc_size s = sint (of_nat (mq_head s) - of_nat (mq_tail s) :: u64)"

definition mpmc_empty :: "'a mpmc \<Rightarrow> bool" where
  "mpmc_empty s \<longleftrightarrow> mpmc_size s \<le> 0"

definition slot_destroyed :: "'a mpmc \<Rightarrow> nat \<Rightarrow> 'a list option" where
  "slot_destroyed s k = (if odd (mq_turn s k) then map_option (\<lambda>x. [x]) (mq_storage s k) else Some [])"

definition mpmc_destroy :: "'a mpmc \<Rightarrow> 'a list option" where
  "mpmc_destroy s = map_option concat (those (map (slot_destroyed s) [0..<mq_capacity s]))"

end
