(* ===== verification/MPMC_Inv.thy ===== *)
theory MPMC_Inv
  imports MPMC_Queue
begin

section \<open>The bounded queue: invariant\<close>

text \<open>
  The ticket of a thread says at which slot and at which turn it is due. No two threads are due at
  the same slot and turn, the turn of a slot does not pass a thread that is due there, and a thread
  whose turn it is has the slot to itself. A slot holds an object exactly at odd turns, but for a
  thread between the storage and the turn.
\<close>

subsection \<open>Tickets, slots and turns\<close>

fun due :: "nat \<Rightarrow> 'a mpc \<Rightarrow> (nat \<times> nat) option" where
  "due n (E_wait x t) = Some (t mod n, 2 * (t div n))"
| "due n (E_construct x t) = Some (t mod n, 2 * (t div n))"
| "due n (E_publish x t) = Some (t mod n, 2 * (t div n))"
| "due n (P_wait t) = Some (t mod n, 2 * (t div n) + 1)"
| "due n (P_move t) = Some (t mod n, 2 * (t div n) + 1)"
| "due n (P_destroy t v) = Some (t mod n, 2 * (t div n) + 1)"
| "due n (P_publish t v) = Some (t mod n, 2 * (t div n) + 1)"
| "due n pc = None"

fun holding :: "'a mpc \<Rightarrow> bool" where
  "holding (E_construct x t) = True" | "holding (E_publish x t) = True" | "holding (P_move t) = True"
| "holding (P_destroy t v) = True" | "holding (P_publish t v) = True" | "holding pc = False"

fun flipped :: "'a mpc \<Rightarrow> bool" where
  "flipped (E_publish x t) = True" | "flipped (P_publish t v) = True" | "flipped pc = False"

text \<open>The ticket that is due at a slot and a turn was drawn.\<close>

definition issued :: "'a mpmc \<Rightarrow> nat \<Rightarrow> nat \<Rightarrow> bool" where
  "issued s k c \<longleftrightarrow> c div 2 * mq_capacity s + k < (if even c then mq_head s else mq_tail s)"

lemma issued_ticket [simp]:
  "issued s (t mod mq_capacity s) (2 * (t div mq_capacity s)) \<longleftrightarrow> t < mq_head s"
  "issued s (t mod mq_capacity s) (Suc (2 * (t div mq_capacity s))) \<longleftrightarrow> t < mq_tail s"
  by (simp_all add: issued_def)

lemma even_ticket: "k < n \<Longrightarrow> even c \<Longrightarrow> k = t mod n \<and> c = 2 * (t div n) \<longleftrightarrow> c div 2 * n + k = (t :: nat)"
  by auto

lemma odd_ticket: "k < n \<Longrightarrow> odd c \<Longrightarrow> k = t mod n \<and> c = Suc (2 * (t div n)) \<longleftrightarrow> c div 2 * n + k = (t :: nat)"
  by (auto elim!: oddE)

fun value_ok :: "'a mpmc \<Rightarrow> 'a mpc \<Rightarrow> bool" where
  "value_ok s (E_wait x t) = (t < length (mq_sent s) \<and> mq_sent s ! t = x)"
| "value_ok s (E_construct x t) = (t < length (mq_sent s) \<and> mq_sent s ! t = x)"
| "value_ok s (E_publish x t) = (t < length (mq_sent s) \<and> mq_sent s ! t = x)"
| "value_ok s (P_destroy t v) = (t < length (mq_sent s) \<and> mq_sent s ! t = v)"
| "value_ok s (P_publish t v) = (t < length (mq_sent s) \<and> mq_sent s ! t = v)"
| "value_ok s (TE_check x h) = (h \<le> mq_head s)"
| "value_ok s (TE_reload x h) = (h \<le> mq_head s)"
| "value_ok s (TE_cas x h) = (h \<le> mq_head s \<and> 2 * (h div mq_capacity s) \<le> mq_turn s (h mod mq_capacity s))"
| "value_ok s (TP_check h) = (h \<le> mq_tail s)"
| "value_ok s (TP_reload h) = (h \<le> mq_tail s)"
| "value_ok s (TP_cas h) = (h \<le> mq_tail s \<and> 2 * (h div mq_capacity s) + 1 \<le> mq_turn s (h mod mq_capacity s))"
| "value_ok s M_crash = False"
| "value_ok s pc = True"

definition at_ok :: "'a mpmc \<Rightarrow> 'a mpc \<Rightarrow> bool" where
  "at_ok s pc \<longleftrightarrow> value_ok s pc \<and> (\<forall>k c. due (mq_capacity s) pc = Some (k, c) \<longrightarrow>
     k < mq_capacity s \<and> mq_turn s k \<le> c \<and> issued s k c \<and> (holding pc \<longrightarrow> mq_turn s k = c))"

definition flips :: "'a mpmc \<Rightarrow> nat \<Rightarrow> bool" where
  "flips s k \<longleftrightarrow> (\<exists>i c. flipped (mq_pc s i) \<and> due (mq_capacity s) (mq_pc s i) = Some (k, c))"

definition expected :: "'a mpmc \<Rightarrow> nat \<Rightarrow> 'a option" where
  "expected s k = (if odd (mq_turn s k) \<noteq> flips s k
     then Some (mq_sent s ! (mq_turn s k div 2 * mq_capacity s + k)) else None)"

definition shape_ok :: "'a mpmc \<Rightarrow> bool" where
  "shape_ok s \<longleftrightarrow> 0 < mq_capacity s \<and> length (mq_sent s) = mq_head s"

definition due_distinct :: "'a mpmc \<Rightarrow> bool" where
  "due_distinct s \<longleftrightarrow> (\<forall>i j d. i \<noteq> j \<and> due (mq_capacity s) (mq_pc s i) = Some d \<longrightarrow>
     due (mq_capacity s) (mq_pc s j) \<noteq> Some d)"

definition turns_ok :: "'a mpmc \<Rightarrow> bool" where
  "turns_ok s \<longleftrightarrow> (\<forall>k < mq_capacity s. \<forall>c < mq_turn s k. issued s k c)"

definition tickets_kept :: "'a mpmc \<Rightarrow> bool" where
  "tickets_kept s \<longleftrightarrow> (\<forall>k < mq_capacity s. \<forall>c. issued s k c \<longrightarrow>
     c < mq_turn s k \<or> (\<exists>i. due (mq_capacity s) (mq_pc s i) = Some (k, c)))"

definition got_ok :: "'a mpmc \<Rightarrow> bool" where
  "got_ok s \<longleftrightarrow> distinct (map fst (mq_got s)) \<and>
     (\<forall>(t, v) \<in> set (mq_got s). t < length (mq_sent s) \<and> mq_sent s ! t = v) \<and>
     (\<forall>t. t \<in> fst ` set (mq_got s) \<longleftrightarrow> 2 * (t div mq_capacity s) + 1 < mq_turn s (t mod mq_capacity s))"

definition mpmc_inv :: "'a mpmc \<Rightarrow> bool" where
  "mpmc_inv s \<longleftrightarrow> shape_ok s \<and> (\<forall>i. at_ok s (mq_pc s i)) \<and> due_distinct s \<and>
     (\<forall>k < mq_capacity s. mq_storage s k = expected s k) \<and> turns_ok s \<and> tickets_kept s \<and> got_ok s"

lemma mpmc_inv_init: "mpmc_start s \<Longrightarrow> mpmc_inv s"
  by (auto simp: mpmc_start_def mpmc_new_def mpmc_inv_def shape_ok_def at_ok_def due_distinct_def expected_def
      flips_def turns_ok_def tickets_kept_def issued_def got_ok_def split: if_splits sum.splits)

lemma mpmc_inv_parts:
  assumes "mpmc_inv s"
  shows "0 < mq_capacity s" "length (mq_sent s) = mq_head s" "at_ok s (mq_pc s i)" "due_distinct s"
    "k < mq_capacity s \<Longrightarrow> mq_storage s k = expected s k" "turns_ok s" "tickets_kept s" "got_ok s"
  using assms by (simp_all add: mpmc_inv_def shape_ok_def)

lemma mq_goto_simps [simp]:
  "mq_capacity (mq_goto i pc s) = mq_capacity s" "mq_turn (mq_goto i pc s) = mq_turn s"
  "mq_storage (mq_goto i pc s) = mq_storage s" "mq_head (mq_goto i pc s) = mq_head s"
  "mq_tail (mq_goto i pc s) = mq_tail s" "mq_pc (mq_goto i pc s) = (mq_pc s)(i := pc)"
  "mq_sent (mq_goto i pc s) = mq_sent s" "mq_got (mq_goto i pc s) = mq_got s"
  by (simp_all add: mq_goto_def)

text \<open>A thread that has the slot to itself.\<close>

lemma holder_alone:
  assumes inv: "mpmc_inv s" and i: "due (mq_capacity s) (mq_pc s i) = Some (k, c)" "holding (mq_pc s i)"
    and j: "j \<noteq> i" "due (mq_capacity s) (mq_pc s j) = Some (k, d)"
  shows "c < d" "\<not> holding (mq_pc s j)"
proof -
  have "mq_turn s k = c" using mpmc_inv_parts(3) [OF inv, of i] i by (simp add: at_ok_def)
  moreover have "mq_turn s k \<le> d" "holding (mq_pc s j) \<Longrightarrow> mq_turn s k = d"
    using mpmc_inv_parts(3) [OF inv, of j] j(2) by (simp_all add: at_ok_def)
  moreover have "c \<noteq> d" using mpmc_inv_parts(4) [OF inv] i(1) j unfolding due_distinct_def by blast
  ultimately show "c < d" "\<not> holding (mq_pc s j)" by auto
qed

lemma flipped_holds: "flipped pc \<Longrightarrow> holding pc"
  by (cases pc) simp_all

lemma holder_flips:
  assumes inv: "mpmc_inv s" and i: "due (mq_capacity s) (mq_pc s i) = Some (k, c)" "holding (mq_pc s i)"
  shows "flips s k \<longleftrightarrow> flipped (mq_pc s i)"
proof
  assume "flips s k"
  then obtain j d where j: "flipped (mq_pc s j)" "due (mq_capacity s) (mq_pc s j) = Some (k, d)"
    by (auto simp: flips_def)
  then show "flipped (mq_pc s i)" using holder_alone(2) [OF inv i _ j(2)] flipped_holds by (cases "j = i") auto
qed (use i in \<open>auto simp: flips_def\<close>)

subsection \<open>Steps that change the program counter only\<close>

lemma local_mpmc_inv:
  assumes inv: "mpmc_inv s" and d: "due (mq_capacity s) pc' = due (mq_capacity s) (mq_pc s i)"
    and f: "flipped pc' = flipped (mq_pc s i)" and ok: "at_ok s pc'"
  shows "mpmc_inv (mq_goto i pc' s)" (is "mpmc_inv ?s'")
proof -
  have due: "due (mq_capacity s) (mq_pc ?s' j) = due (mq_capacity s) (mq_pc s j)" for j using d by simp
  have fl: "flipped (mq_pc ?s' j) = flipped (mq_pc s j)" for j using f by simp
  have "at_ok ?s' pc = at_ok s pc" for pc by (cases pc) (simp_all add: at_ok_def issued_def)
  then have "at_ok ?s' (mq_pc ?s' j)" for j using ok mpmc_inv_parts(3) [OF inv, of j] by simp
  moreover have "due_distinct ?s'" using mpmc_inv_parts(4) [OF inv] unfolding due_distinct_def mq_goto_simps(1) due .
  moreover have "flips ?s' k = flips s k" for k unfolding flips_def mq_goto_simps(1) due fl by (rule refl)
  then have "expected ?s' = expected s" by (simp add: fun_eq_iff expected_def)
  moreover have iss: "issued ?s' = issued s" by (simp add: issued_def fun_eq_iff)
  then have "turns_ok ?s'" using mpmc_inv_parts(6) [OF inv] by (simp add: turns_ok_def)
  moreover have "tickets_kept ?s'"
    using mpmc_inv_parts(7) [OF inv] unfolding tickets_kept_def mq_goto_simps(1) due iss by simp
  moreover have "got_ok ?s'" using mpmc_inv_parts(8) [OF inv] by (simp add: got_ok_def)
  ultimately show ?thesis using mpmc_inv_parts(1,2,5) [OF inv] by (simp add: mpmc_inv_def shape_ok_def)
qed

subsection \<open>Drawing a ticket\<close>

text \<open>The turn of a slot has not reached a ticket that was not drawn.\<close>

lemma turn_before_ticket:
  assumes "mpmc_inv s"
  shows "mq_turn s (mq_head s mod mq_capacity s) \<le> 2 * (mq_head s div mq_capacity s)"
    "mq_turn s (mq_tail s mod mq_capacity s) \<le> 2 * (mq_tail s div mq_capacity s) + 1"
proof -
  have n: "mq_head s mod mq_capacity s < mq_capacity s" "mq_tail s mod mq_capacity s < mq_capacity s"
    using mpmc_inv_parts(1) [OF assms] by simp_all
  have t: "\<And>k c. k < mq_capacity s \<Longrightarrow> c < mq_turn s k \<Longrightarrow> issued s k c"
    using mpmc_inv_parts(6) [OF assms] by (simp add: turns_ok_def)
  have "\<not> issued s (mq_head s mod mq_capacity s) (2 * (mq_head s div mq_capacity s))"
    "\<not> issued s (mq_tail s mod mq_capacity s) (2 * (mq_tail s div mq_capacity s) + 1)"
    by simp_all
  with t [OF n(1)] t [OF n(2)]
  show "mq_turn s (mq_head s mod mq_capacity s) \<le> 2 * (mq_head s div mq_capacity s)"
    "mq_turn s (mq_tail s mod mq_capacity s) \<le> 2 * (mq_tail s div mq_capacity s) + 1"
    by (meson not_le)+
qed

text \<open>A thread that draws the ticket that is due at slot \<open>k\<close> and turn \<open>c\<close>.\<close>

lemma draw_mpmc_inv:
  assumes inv: "mpmc_inv s" and idle: "due (mq_capacity s) (mq_pc s i) = None"
    and d: "due (mq_capacity s) pc' = Some (k, c)" and f: "\<not> flipped pc'"
    and old: "\<not> issued s k c"
    and frame: "mq_capacity u = mq_capacity s" "mq_turn u = mq_turn s" "mq_storage u = mq_storage s"
      "mq_pc u = (mq_pc s)(i := pc')" "mq_got u = mq_got s"
    and sent: "length (mq_sent u) = mq_head u" "\<And>t. t < length (mq_sent s) \<Longrightarrow> mq_sent u ! t = mq_sent s ! t"
    and more: "mq_head s \<le> mq_head u" "mq_tail s \<le> mq_tail u"
    and new: "\<And>k' c'. k' < mq_capacity s \<Longrightarrow> issued u k' c' \<longleftrightarrow> issued s k' c' \<or> (k' = k \<and> c' = c)"
    and ok: "at_ok u pc'"
  shows "mpmc_inv u"
proof -
  note parts = mpmc_inv_parts [OF inv]
  have fi: "\<not> flipped (mq_pc s i)" using idle by (cases "mq_pc s i") simp_all
  have flips: "flips u k' = flips s k'" for k'
    using f fi by (auto simp: flips_def frame split: if_splits)
  have mono: "issued u k' c'" if "k' < mq_capacity s" "issued s k' c'" for k' c' using new that by blast
  have other: "at_ok u (mq_pc s j)" for j
  proof -
    have "value_ok u (mq_pc s j)"
      using parts(3) [of j] parts(2) sent more by (cases "mq_pc s j") (auto simp: at_ok_def frame)
    then show ?thesis using parts(3) [of j] mono by (auto simp: at_ok_def frame)
  qed
  have "at_ok u (mq_pc u j)" for j using other ok by (simp add: frame)
  moreover have "due_distinct u"
  proof -
    have "due (mq_capacity s) (mq_pc s j) \<noteq> Some (k, c)" for j using parts(3) [of j] old by (auto simp: at_ok_def)
    then show ?thesis using parts(4) d by (auto simp: due_distinct_def frame)
  qed
  moreover have "mq_storage u k' = expected u k'" if k': "k' < mq_capacity u" for k'
  proof (cases "odd (mq_turn s k') \<noteq> flips s k'")
    case True
    have "mq_turn s k' div 2 * mq_capacity s + k' < mq_head s"
    proof (cases "flips s k'")
      case fl: True
      then obtain j e where j: "flipped (mq_pc s j)" "due (mq_capacity s) (mq_pc s j) = Some (k', e)"
        by (auto simp: flips_def)
      then have "mq_turn s k' = e" "issued s k' e" using parts(3) [of j] flipped_holds by (auto simp: at_ok_def)
      then show ?thesis using True fl by (simp add: issued_def)
    next
      case False
      then have "odd (mq_turn s k')" using True by simp
      then have "mq_turn s k' - 1 < mq_turn s k'" "even (mq_turn s k' - 1)" "(mq_turn s k' - 1) div 2 = mq_turn s k' div 2"
        by (auto elim!: oddE)
      moreover from this(1) have "issued s k' (mq_turn s k' - 1)"
        using parts(6) k' by (simp add: turns_ok_def frame)
      ultimately show ?thesis by (simp add: issued_def)
    qed
    then show ?thesis using True parts(2) parts(5) [of k'] k' sent(2) by (simp add: expected_def flips frame)
  next
    case False
    then show ?thesis using parts(5) [of k'] k' by (simp add: expected_def flips frame)
  qed
  moreover have "turns_ok u" using parts(6) mono by (simp add: turns_ok_def frame)
  moreover have "tickets_kept u"
    unfolding tickets_kept_def frame
  proof (intro allI impI)
    fix k' c' assume k': "k' < mq_capacity s" "issued u k' c'"
    then consider "issued s k' c'" | "k' = k" "c' = c" using new by blast
    then show "c' < mq_turn s k' \<or> (\<exists>j. due (mq_capacity s) (((mq_pc s)(i := pc')) j) = Some (k', c'))"
    proof cases
      case 1
      then consider "c' < mq_turn s k'" | j where "due (mq_capacity s) (mq_pc s j) = Some (k', c')"
        using parts(7) k'(1) by (auto simp: tickets_kept_def)
      then show ?thesis
      proof cases
        case (2 j)
        then have "j \<noteq> i" using idle by auto
        then show ?thesis using 2 by (intro disjI2 exI [of _ j]) simp
      qed simp
    next
      case 2
      then show ?thesis using d by (intro disjI2 exI [of _ i]) simp
    qed
  qed
  moreover have "got_ok u"
    using parts(8) sent(2) more(1) sent(1) parts(2) by (fastforce simp: got_ok_def frame)
  ultimately show ?thesis using parts(1) sent(1) by (simp add: mpmc_inv_def shape_ok_def frame)
qed

lemma draw_producer_inv:
  assumes inv: "mpmc_inv s" and idle: "due (mq_capacity s) (mq_pc s i) = None" and t: "t = mq_head s"
    and pc': "pc' = E_wait x t \<or> pc' = E_construct x t \<and> 2 * (t div mq_capacity s) \<le> mq_turn s (t mod mq_capacity s)"
  shows "mpmc_inv (mq_goto i pc' (s\<lparr>mq_head := mq_head s + 1, mq_sent := mq_sent s @ [x]\<rparr>))" (is "mpmc_inv ?u")
proof (rule draw_mpmc_inv [OF inv idle, where u = ?u and pc' = pc' and k = "t mod mq_capacity s" and c = "2 * (t div mq_capacity s)"])
  note parts = mpmc_inv_parts [OF inv]
  show "issued ?u k c \<longleftrightarrow> issued s k c \<or> (k = t mod mq_capacity s \<and> c = 2 * (t div mq_capacity s))"
    if "k < mq_capacity s" for k c
  proof (cases "even c")
    case True
    then show ?thesis using even_ticket [OF that True, of t] by (auto simp: issued_def t less_Suc_eq)
  next
    case False
    then show ?thesis by (auto simp: issued_def)
  qed
  have "mq_turn s (t mod mq_capacity s) \<le> 2 * (t div mq_capacity s)" using turn_before_ticket(1) [OF inv] t by simp
  with pc' consider "pc' = E_wait x t" "mq_turn s (t mod mq_capacity s) \<le> 2 * (t div mq_capacity s)"
    | "pc' = E_construct x t" "mq_turn s (t mod mq_capacity s) = 2 * (t div mq_capacity s)"
    by fastforce
  then show "at_ok ?u pc'"
    by cases (simp_all add: at_ok_def issued_def parts(1,2) t nth_append)
qed (use pc' mpmc_inv_parts(2) [OF inv] in \<open>auto simp: t nth_append\<close>)

lemma draw_consumer_inv:
  assumes inv: "mpmc_inv s" and idle: "due (mq_capacity s) (mq_pc s i) = None" and t: "t = mq_tail s"
    and pc': "pc' = P_wait t \<or> pc' = P_move t \<and> 2 * (t div mq_capacity s) + 1 \<le> mq_turn s (t mod mq_capacity s)"
  shows "mpmc_inv (mq_goto i pc' (s\<lparr>mq_tail := mq_tail s + 1\<rparr>))" (is "mpmc_inv ?u")
proof (rule draw_mpmc_inv [OF inv idle, where u = ?u and pc' = pc' and k = "t mod mq_capacity s" and c = "Suc (2 * (t div mq_capacity s))"])
  note parts = mpmc_inv_parts [OF inv]
  show "issued ?u k c \<longleftrightarrow> issued s k c \<or> (k = t mod mq_capacity s \<and> c = Suc (2 * (t div mq_capacity s)))"
    if "k < mq_capacity s" for k c
  proof (cases "even c")
    case True
    then show ?thesis by (auto simp: issued_def)
  next
    case False
    then show ?thesis using odd_ticket [OF that False, of t] by (auto simp: issued_def t less_Suc_eq)
  qed
  have "mq_turn s (t mod mq_capacity s) \<le> Suc (2 * (t div mq_capacity s))" using turn_before_ticket(2) [OF inv] t by simp
  with pc' consider "pc' = P_wait t" "mq_turn s (t mod mq_capacity s) \<le> Suc (2 * (t div mq_capacity s))"
    | "pc' = P_move t" "mq_turn s (t mod mq_capacity s) = Suc (2 * (t div mq_capacity s))"
    by fastforce
  then show "at_ok ?u pc'"
    by cases (simp_all add: at_ok_def issued_def parts(1) t)
qed (use pc' mpmc_inv_parts(2) [OF inv] in \<open>auto simp: t\<close>)

subsection \<open>Using the slot\<close>

lemma expected_holder:
  assumes inv: "mpmc_inv s" and i: "due (mq_capacity s) (mq_pc s i) = Some (k, c)" "holding (mq_pc s i)"
  shows "expected s k = (if odd c \<noteq> flipped (mq_pc s i) then Some (mq_sent s ! (c div 2 * mq_capacity s + k)) else None)"
    "k < mq_capacity s" "mq_turn s k = c" "issued s k c"
  using mpmc_inv_parts(3) [OF inv, of i] i holder_flips [OF inv i] by (simp_all add: expected_def at_ok_def)

text \<open>The thread constructs or destroys the object.\<close>

lemma flip_mpmc_inv:
  assumes inv: "mpmc_inv s" and i: "due (mq_capacity s) (mq_pc s i) = Some (k, c)" "holding (mq_pc s i)" "\<not> flipped (mq_pc s i)"
    and pc': "due (mq_capacity s) pc' = Some (k, c)" "flipped pc'" "value_ok s pc'"
    and st: "st = (if odd c then None else Some (mq_sent s ! (c div 2 * mq_capacity s + k)))"
  shows "mpmc_inv (mq_goto i pc' (s\<lparr>mq_storage := (mq_storage s)(k := st)\<rparr>))" (is "mpmc_inv ?u")
proof -
  note parts = mpmc_inv_parts [OF inv]
  note e = expected_holder [OF inv i(1,2)]
  have due: "due (mq_capacity s) (mq_pc ?u j) = due (mq_capacity s) (mq_pc s j)" for j using pc'(1) i(1) by simp
  have iss: "issued ?u = issued s" by (simp add: issued_def fun_eq_iff)
  have same: "at_ok ?u pc = at_ok s pc" for pc by (cases pc) (simp_all add: at_ok_def iss)
  have "at_ok s pc'" using e pc' by (simp add: at_ok_def)
  then have "at_ok ?u (mq_pc ?u j)" for j using parts(3) [of j] same by simp
  moreover have cap: "mq_capacity ?u = mq_capacity s" by simp
  have "due_distinct ?u" using parts(4) unfolding due_distinct_def cap due .
  moreover have "mq_storage ?u k' = expected ?u k'" if k': "k' < mq_capacity ?u" for k'
  proof (cases "k' = k")
    case True
    have "flips ?u k" using pc' by (auto simp: flips_def)
    then show ?thesis using True st e(3) by (simp add: expected_def)
  next
    case False
    have "flips ?u k' = flips s k'" using i pc' False by (auto simp: flips_def)
    then show ?thesis using False parts(5) [of k'] k' by (simp add: expected_def)
  qed
  moreover have "turns_ok ?u" using parts(6) by (simp add: turns_ok_def iss)
  moreover have "tickets_kept ?u" using parts(7) unfolding tickets_kept_def cap due iss by simp
  moreover have "got_ok ?u" using parts(8) by (simp add: got_ok_def)
  ultimately show ?thesis using parts(1,2) by (simp add: mpmc_inv_def shape_ok_def)
qed

text \<open>The thread passes the slot on.\<close>

lemma publish_mpmc_inv:
  assumes inv: "mpmc_inv s" and i: "due (mq_capacity s) (mq_pc s i) = Some (k, c)" "flipped (mq_pc s i)"
    and got: "got_ok (mq_goto i M_idle (s\<lparr>mq_turn := (mq_turn s)(k := c + 1), mq_got := g\<rparr>))"
  shows "mpmc_inv (mq_goto i M_idle (s\<lparr>mq_turn := (mq_turn s)(k := c + 1), mq_got := g\<rparr>))" (is "mpmc_inv ?u")
proof -
  note parts = mpmc_inv_parts [OF inv]
  have hold: "holding (mq_pc s i)" by (rule flipped_holds [OF i(2)])
  note e = expected_holder [OF inv i(1) hold]
  have iss: "issued ?u = issued s" by (simp add: issued_def fun_eq_iff)
  have "at_ok ?u (mq_pc s j)" if "j \<noteq> i" for j
  proof -
    have v: "value_ok ?u (mq_pc s j)" using parts(3) [of j] e(3) by (cases "mq_pc s j") (auto simp: at_ok_def)
    show ?thesis
      unfolding at_ok_def iss
    proof (intro conjI allI impI)
      fix k' c' assume d: "due (mq_capacity ?u) (mq_pc s j) = Some (k', c')"
      then have old: "k' < mq_capacity s" "mq_turn s k' \<le> c'" "issued s k' c'" "holding (mq_pc s j) \<longrightarrow> mq_turn s k' = c'"
        using parts(3) [of j] by (simp_all add: at_ok_def)
      show "k' < mq_capacity ?u" "issued s k' c'" using old by simp_all
      show "mq_turn ?u k' \<le> c'" "holding (mq_pc s j) \<Longrightarrow> mq_turn ?u k' = c'"
        using holder_alone [OF inv i(1) hold that, of c'] d old by (cases "k' = k"; auto)+
    qed (rule v)
  qed
  then have "at_ok ?u (mq_pc ?u j)" for j by (cases "j = i") (simp_all add: at_ok_def)
  moreover have "due_distinct ?u" using parts(4) by (auto simp: due_distinct_def)
  moreover have "mq_storage ?u k' = expected ?u k'" if k': "k' < mq_capacity ?u" for k'
  proof (cases "k' = k")
    case True
    have "\<not> flips ?u k"
    proof
      assume "flips ?u k"
      then obtain j d where j: "j \<noteq> i" "flipped (mq_pc s j)" "due (mq_capacity s) (mq_pc s j) = Some (k, d)"
        by (auto simp: flips_def split: if_splits)
      then show False using holder_alone(2) [OF inv i(1) hold j(1,3)] flipped_holds by blast
    qed
    then have "expected ?u k = (if even c then Some (mq_sent s ! (Suc c div 2 * mq_capacity s + k)) else None)"
      by (simp add: expected_def)
    moreover have "even c \<Longrightarrow> Suc c div 2 = c div 2" by (auto elim!: evenE)
    moreover have "mq_storage s k = (if even c then Some (mq_sent s ! (c div 2 * mq_capacity s + k)) else None)"
      using e(1) i(2) parts(5) [of k] k' True by simp
    ultimately show ?thesis using True by simp
  next
    case False
    have "flips ?u k' = flips s k'"
    proof
      assume "flips s k'"
      then obtain j d where j: "flipped (mq_pc s j)" "due (mq_capacity s) (mq_pc s j) = Some (k', d)"
        by (auto simp: flips_def)
      moreover from this have "j \<noteq> i" using i(1) False by auto
      ultimately show "flips ?u k'" by (auto simp: flips_def)
    qed (auto simp: flips_def split: if_splits)
    then show ?thesis using False parts(5) [of k'] k' by (simp add: expected_def)
  qed
  moreover have "turns_ok ?u"
    unfolding turns_ok_def iss
  proof (intro allI impI)
    fix k' c' assume "k' < mq_capacity ?u" "c' < mq_turn ?u k'"
    then show "issued s k' c'" using parts(6) e(3,4) by (cases "k' = k") (auto simp: turns_ok_def less_Suc_eq)
  qed
  moreover have "tickets_kept ?u"
    unfolding tickets_kept_def iss
  proof (intro allI impI)
    fix k' c' assume k': "k' < mq_capacity ?u" "issued s k' c'"
    then consider "c' < mq_turn s k'" | j where "due (mq_capacity s) (mq_pc s j) = Some (k', c')"
      using parts(7) by (auto simp: tickets_kept_def)
    then show "c' < mq_turn ?u k' \<or> (\<exists>j. due (mq_capacity ?u) (mq_pc ?u j) = Some (k', c'))"
    proof cases
      case 1
      then show ?thesis using e(3) by auto
    next
      case (2 j)
      show ?thesis
      proof (cases "j = i")
        case True
        then show ?thesis using 2 i(1) by simp
      next
        case False
        then show ?thesis using 2 by (intro disjI2 exI [of _ j]) simp
      qed
    qed
  qed
  ultimately show ?thesis using parts(1,2) got by (simp add: mpmc_inv_def shape_ok_def)
qed

lemma double_less:
  "2 * a + 1 < 2 * b + 1 \<longleftrightarrow> a < b" "2 * a + 1 < 2 * b \<longleftrightarrow> a < b" "2 * a + 1 < Suc (2 * b) \<longleftrightarrow> a < b"
  "2 * a + 1 < Suc (2 * b) + 1 \<longleftrightarrow> a \<le> b" for a b :: nat
  by presburger+

lemma publish_full_inv:
  assumes inv: "mpmc_inv s" and pc: "mq_pc s i = E_publish x t"
  shows "mpmc_inv (publish_full i t s)"
proof -
  note parts = mpmc_inv_parts [OF inv]
  have i: "due (mq_capacity s) (mq_pc s i) = Some (t mod mq_capacity s, 2 * (t div mq_capacity s))" "flipped (mq_pc s i)"
    using pc by simp_all
  have turn: "mq_turn s (t mod mq_capacity s) = 2 * (t div mq_capacity s)"
    using expected_holder(3) [OF inv i(1)] pc by simp
  have "2 * (u div mq_capacity s) + 1 < 2 * (t div mq_capacity s) + 1 \<longleftrightarrow>
      2 * (u div mq_capacity s) + 1 < 2 * (t div mq_capacity s)" for u :: nat
    by (simp only: double_less)
  then have "got_ok (mq_goto i M_idle (s\<lparr>mq_turn := (mq_turn s)(t mod mq_capacity s := 2 * (t div mq_capacity s) + 1),
      mq_got := mq_got s\<rparr>))"
    using parts(8) turn by (simp add: got_ok_def)
  from publish_mpmc_inv [OF inv i this] show ?thesis
    by (simp add: publish_full_def mq_slot_def mq_round_def mult.commute)
qed

lemma publish_empty_inv:
  assumes inv: "mpmc_inv s" and pc: "mq_pc s i = P_publish t v"
  shows "mpmc_inv (publish_empty i t v s)"
proof -
  note parts = mpmc_inv_parts [OF inv]
  let ?n = "mq_capacity s"
  have i: "due ?n (mq_pc s i) = Some (t mod ?n, Suc (2 * (t div ?n)))" "flipped (mq_pc s i)"
    using pc by simp_all
  have turn: "mq_turn s (t mod ?n) = Suc (2 * (t div ?n))" using expected_holder(3) [OF inv i(1)] pc by simp
  have v: "t < length (mq_sent s)" "mq_sent s ! t = v" using parts(3) [of i] pc by (simp_all add: at_ok_def)
  have new: "t \<notin> fst ` set (mq_got s)" using parts(8) turn by (simp add: got_ok_def)
  have got: "u \<in> fst ` set (mq_got s) \<longleftrightarrow> 2 * (u div ?n) + 1 < mq_turn s (u mod ?n)" for u
    using parts(8) by (simp add: got_ok_def)
  have "u = t \<or> u \<in> fst ` set (mq_got s) \<longleftrightarrow>
      2 * (u div ?n) + 1 < ((mq_turn s)(t mod ?n := Suc (2 * (t div ?n)) + 1)) (u mod ?n)" for u
  proof (cases "u mod ?n = t mod ?n")
    case True
    then have "u = t \<longleftrightarrow> u div ?n = t div ?n" by (metis mult_div_mod_eq)
    then have "u = t \<or> u div ?n < t div ?n \<longleftrightarrow> u div ?n \<le> t div ?n" by auto
    then show ?thesis by (simp only: got True turn double_less fun_upd_same)
  next
    case False
    then have "u \<noteq> t" by auto
    then show ?thesis using False got by simp
  qed
  then have "got_ok (mq_goto i M_idle (s\<lparr>mq_turn := (mq_turn s)(t mod ?n := Suc (2 * (t div ?n)) + 1),
      mq_got := mq_got s @ [(t, v)]\<rparr>))"
    using parts(8) v new by (auto simp: got_ok_def)
  from publish_mpmc_inv [OF inv i this] show ?thesis
    by (simp add: publish_empty_def mq_slot_def mq_round_def mult.commute)
qed

subsection \<open>Every step keeps the invariant\<close>

lemma storage_of_holder:
  assumes inv: "mpmc_inv s" and i: "due (mq_capacity s) (mq_pc s i) = Some (t mod mq_capacity s, c)"
    and h: "holding (mq_pc s i)" "\<not> flipped (mq_pc s i)" and c: "c = 2 * (t div mq_capacity s) \<or> c = Suc (2 * (t div mq_capacity s))"
  shows "mq_storage s (mq_slot s t) = (if odd c then Some (mq_sent s ! t) else None)"
    "c div 2 * mq_capacity s + t mod mq_capacity s = t"
proof -
  show e: "c div 2 * mq_capacity s + t mod mq_capacity s = t" using c by auto
  show "mq_storage s (mq_slot s t) = (if odd c then Some (mq_sent s ! t) else None)"
    using mpmc_inv_parts(5) [OF inv] expected_holder(1,2) [OF inv i h(1)] h(2) e by (simp add: mq_slot_def)
qed

lemma emplace_step_inv:
  assumes inv: "mpmc_inv s" and step: "emplace_step i s = Some u"
  shows "mpmc_inv u"
proof (cases "mq_pc s i")
  case (E_ticket x)
  then show ?thesis using step draw_producer_inv [OF inv, of i "mq_head s" "E_wait x (mq_head s)" x]
    by (simp add: emplace_step_def)
next
  case (E_wait x t)
  then have "u = mq_goto i (E_construct x t) s" "2 * (t div mq_capacity s) = mq_turn s (t mod mq_capacity s)"
    using step by (simp_all add: emplace_step_def mq_slot_def mq_round_def mult.commute split: if_splits)
  moreover from this have "at_ok s (E_construct x t)" using mpmc_inv_parts(3) [OF inv, of i] E_wait by (simp add: at_ok_def)
  ultimately show ?thesis using local_mpmc_inv [OF inv, of "E_construct x t" i] E_wait by simp
next
  case (E_construct x t)
  let ?c = "2 * (t div mq_capacity s)"
  have i: "due (mq_capacity s) (mq_pc s i) = Some (t mod mq_capacity s, ?c)" "holding (mq_pc s i)" "\<not> flipped (mq_pc s i)"
    using E_construct by simp_all
  have v: "value_ok s (E_publish x t)" using mpmc_inv_parts(3) [OF inv, of i] E_construct by (simp add: at_ok_def)
  then have "Some x = (if odd ?c then None else Some (mq_sent s ! (?c div 2 * mq_capacity s + t mod mq_capacity s)))"
    by simp
  from flip_mpmc_inv [OF inv i _ _ v this] show ?thesis
    using step E_construct storage_of_holder(1) [OF inv i]
    by (simp add: emplace_step_def construct_slot_def mq_slot_def)
next
  case (E_publish x t)
  then show ?thesis using step publish_full_inv [OF inv E_publish] by (simp add: emplace_step_def)
qed (use step in \<open>simp_all add: emplace_step_def\<close>)

lemma try_emplace_step_inv:
  assumes inv: "mpmc_inv s" and step: "try_emplace_step i s = Some u"
  shows "mpmc_inv u"
proof (cases "mq_pc s i")
  case (TE_load x)
  then show ?thesis using step local_mpmc_inv [OF inv, of "TE_check x (mq_head s)" i]
    by (simp add: try_emplace_step_def at_ok_def)
next
  case (TE_check x h)
  let ?pc = "if mq_round s h * 2 = mq_turn s (mq_slot s h) then TE_cas x h else TE_reload x h"
  have "at_ok s ?pc" using mpmc_inv_parts(3) [OF inv, of i] TE_check by (auto simp: at_ok_def mq_round_def mq_slot_def)
  then show ?thesis using step TE_check local_mpmc_inv [OF inv, of ?pc i] by (simp add: try_emplace_step_def)
next
  case (TE_cas x h)
  then have ok: "h \<le> mq_head s" "2 * (h div mq_capacity s) \<le> mq_turn s (h mod mq_capacity s)"
    using mpmc_inv_parts(3) [OF inv, of i] by (simp_all add: at_ok_def)
  show ?thesis
  proof (cases "mq_head s = h")
    case True
    then show ?thesis using step TE_cas ok draw_producer_inv [OF inv, of i "mq_head s" "E_construct x (mq_head s)" x]
      by (simp add: try_emplace_step_def)
  next
    case False
    then show ?thesis using step TE_cas local_mpmc_inv [OF inv, of "TE_check x (mq_head s)" i]
      by (simp add: try_emplace_step_def at_ok_def)
  qed
next
  case (TE_reload x h)
  then show ?thesis
    using step local_mpmc_inv [OF inv, of "if mq_head s = h then M_idle else TE_check x (mq_head s)" i]
    by (simp add: try_emplace_step_def at_ok_def)
qed (use step in \<open>simp_all add: try_emplace_step_def\<close>)

lemma pop_step_inv:
  assumes inv: "mpmc_inv s" and step: "pop_step i s = Some u"
  shows "mpmc_inv u"
proof (cases "mq_pc s i")
  case P_ticket
  then show ?thesis using step draw_consumer_inv [OF inv, of i "mq_tail s" "P_wait (mq_tail s)"]
    by (simp add: pop_step_def)
next
  case (P_wait t)
  then have "u = mq_goto i (P_move t) s" "Suc (2 * (t div mq_capacity s)) = mq_turn s (t mod mq_capacity s)"
    using step by (simp_all add: pop_step_def mq_slot_def mq_round_def mult.commute split: if_splits)
  moreover from this have "at_ok s (P_move t)" using mpmc_inv_parts(3) [OF inv, of i] P_wait by (simp add: at_ok_def)
  ultimately show ?thesis using local_mpmc_inv [OF inv, of "P_move t" i] P_wait by simp
next
  case (P_move t)
  let ?c = "Suc (2 * (t div mq_capacity s))"
  have i: "due (mq_capacity s) (mq_pc s i) = Some (t mod mq_capacity s, ?c)" "holding (mq_pc s i)" "\<not> flipped (mq_pc s i)"
    using P_move by simp_all
  note e = expected_holder [OF inv i(1,2)]
  have "2 * (t div mq_capacity s) < mq_turn s (t mod mq_capacity s)" using e(3) by simp
  then have "issued s (t mod mq_capacity s) (2 * (t div mq_capacity s))"
    using mpmc_inv_parts(6) [OF inv] e(2) unfolding turns_ok_def by blast
  then have t: "t < length (mq_sent s)" using mpmc_inv_parts(2) [OF inv] by simp
  then have "at_ok s (P_destroy t (mq_sent s ! t))" using mpmc_inv_parts(3) [OF inv, of i] P_move by (simp add: at_ok_def)
  then show ?thesis
    using step P_move storage_of_holder(1) [OF inv i] local_mpmc_inv [OF inv, of "P_destroy t (mq_sent s ! t)" i]
    by (simp add: pop_step_def move_slot_def)
next
  case (P_destroy t v)
  let ?c = "Suc (2 * (t div mq_capacity s))"
  have i: "due (mq_capacity s) (mq_pc s i) = Some (t mod mq_capacity s, ?c)" "holding (mq_pc s i)" "\<not> flipped (mq_pc s i)"
    using P_destroy by simp_all
  have v: "value_ok s (P_publish t v)" using mpmc_inv_parts(3) [OF inv, of i] P_destroy by (simp add: at_ok_def)
  have "None = (if odd ?c then None else Some (mq_sent s ! (?c div 2 * mq_capacity s + t mod mq_capacity s)))" by simp
  from flip_mpmc_inv [OF inv i _ _ v this] show ?thesis
    using step P_destroy storage_of_holder(1) [OF inv i]
    by (simp add: pop_step_def destroy_slot_def mq_slot_def)
next
  case (P_publish t v)
  then show ?thesis using step publish_empty_inv [OF inv P_publish] by (simp add: pop_step_def)
qed (use step in \<open>simp_all add: pop_step_def\<close>)

lemma try_pop_step_inv:
  assumes inv: "mpmc_inv s" and step: "try_pop_step i s = Some u"
  shows "mpmc_inv u"
proof (cases "mq_pc s i")
  case TP_load
  then show ?thesis using step local_mpmc_inv [OF inv, of "TP_check (mq_tail s)" i]
    by (simp add: try_pop_step_def at_ok_def)
next
  case (TP_check h)
  let ?pc = "if mq_round s h * 2 + 1 = mq_turn s (mq_slot s h) then TP_cas h else TP_reload h"
  have "at_ok s ?pc" using mpmc_inv_parts(3) [OF inv, of i] TP_check by (auto simp: at_ok_def mq_round_def mq_slot_def)
  then show ?thesis using step TP_check local_mpmc_inv [OF inv, of ?pc i] by (simp add: try_pop_step_def)
next
  case (TP_cas h)
  then have ok: "h \<le> mq_tail s" "2 * (h div mq_capacity s) + 1 \<le> mq_turn s (h mod mq_capacity s)"
    using mpmc_inv_parts(3) [OF inv, of i] by (simp_all add: at_ok_def)
  show ?thesis
  proof (cases "mq_tail s = h")
    case True
    then show ?thesis using step TP_cas ok draw_consumer_inv [OF inv, of i "mq_tail s" "P_move (mq_tail s)"]
      by (simp add: try_pop_step_def)
  next
    case False
    then show ?thesis using step TP_cas local_mpmc_inv [OF inv, of "TP_check (mq_tail s)" i]
      by (simp add: try_pop_step_def at_ok_def)
  qed
next
  case (TP_reload h)
  then show ?thesis
    using step local_mpmc_inv [OF inv, of "if mq_tail s = h then M_idle else TP_check (mq_tail s)" i]
    by (simp add: try_pop_step_def at_ok_def)
qed (use step in \<open>simp_all add: try_pop_step_def\<close>)

lemma mpmc_step_inv: "mpmc_inv s \<Longrightarrow> mpmc_step i s = Some u \<Longrightarrow> mpmc_inv u"
  by (auto simp: mpmc_step_def first_some_def split: option.splits
      intro: emplace_step_inv try_emplace_step_inv pop_step_inv try_pop_step_inv)

lemma mpmc_call_inv: "mpmc_inv s \<Longrightarrow> mq_pc s i = M_idle \<Longrightarrow> mpmc_entry pc \<Longrightarrow> mpmc_inv (mq_goto i pc s)"
  by (rule local_mpmc_inv) (cases pc; simp add: at_ok_def)+

lemma mpmc_move_inv: "mpmc_inv s \<Longrightarrow> mpmc_move s t \<Longrightarrow> mpmc_inv t"
  by (erule mpmc_moveE) (blast intro: mpmc_call_inv mpmc_step_inv)+

interpretation mpq: invariant_system mpmc_start mpmc_move mpmc_inv
  by unfold_locales (blast intro: mpmc_inv_init mpmc_move_inv)+

end
