(* ===== verification/MPMC_Props.thy ===== *)
theory MPMC_Props
  imports MPMC_Inv
begin

section \<open>The bounded queue: properties\<close>

text \<open>
  First in, first out by tickets, each element once; slots hold objects exactly when the destructor
  expects them; a thread waits only for room or for an element; the operations that do not
  wait give up only for want of them.
\<close>

subsection \<open>Runs of a schedule\<close>

datatype 'a mq_act = Mq_call nat "'a mpc" | Mq_step nat

fun mq_act_step :: "'a mq_act \<Rightarrow> 'a mpmc \<Rightarrow> 'a mpmc option" where
  "mq_act_step (Mq_call i pc) s = (case mq_pc s i of M_idle \<Rightarrow> if mpmc_entry pc then Some (mq_goto i pc s) else None | _ \<Rightarrow> None)"
| "mq_act_step (Mq_step i) s = mpmc_step i s"

fun mq_run :: "'a mq_act list \<Rightarrow> 'a mpmc \<Rightarrow> 'a mpmc option" where
  "mq_run [] s = Some s"
| "mq_run (a # as) s = (case mq_act_step a s of None \<Rightarrow> None | Some t \<Rightarrow> mq_run as t)"

lemma mq_act_move: "mq_act_step a s = Some t \<Longrightarrow> mpmc_move s t"
  by (cases a) (auto intro: mpmc_move.intros split: mpc.splits if_splits)

lemma mq_run_reach: "mq_run as s = Some t \<Longrightarrow> reach mpmc_start mpmc_move s \<Longrightarrow> reach mpmc_start mpmc_move t"
proof (induction as arbitrary: s)
  case (Cons a as)
  then obtain u where u: "mq_act_step a s = Some u" "mq_run as u = Some t" by (auto split: option.splits)
  from reach_step [OF Cons.prems(2) mq_act_move [OF u(1)]] Cons.IH [OF u(2)] show ?case by simp
qed simp

text \<open>One slot: 5 goes in, the producer of 6 has to wait, a consumer is about to move 5 out.\<close>

definition one_slot :: "nat mpmc" where
  "one_slot = \<lparr>mq_capacity = 1, mq_turn = (\<lambda>_. 0), mq_storage = (\<lambda>_. None), mq_head = 0, mq_tail = 0,
     mq_pc = (\<lambda>_. M_idle), mq_sent = [], mq_got = []\<rparr>"

lemma one_slot_reach: "reach mpmc_start mpmc_move one_slot"
proof (rule reach_init)
  have "mpmc_new (\<lambda>a n. Some 64) 64 64 1 = Inr one_slot" by (simp add: mpmc_new_def slots_allocate_def one_slot_def)
  then show "mpmc_start one_slot" unfolding mpmc_start_def by blast
qed

lemmas mq_eval = mpmc_step_def emplace_step_def try_emplace_step_def pop_step_def try_pop_step_def first_some_def
  construct_slot_def publish_full_def move_slot_def destroy_slot_def publish_empty_def mq_slot_def mq_round_def
  mq_goto_def one_slot_def push_call_def try_push_call_def

definition push_both :: "nat mq_act list" where
  "push_both = [Mq_call 0 (push_call 5), Mq_step 0, Mq_step 0, Mq_step 0, Mq_step 0, Mq_call 1 (push_call 6), Mq_step 1]"

definition one_blocked :: "nat mpmc" where
  "one_blocked = one_slot\<lparr>mq_turn := (\<lambda>_. 0)(0 := 1), mq_storage := (\<lambda>_. None)(0 := Some 5), mq_head := 2,
     mq_pc := (mq_pc one_slot)(0 := M_idle, 1 := E_wait 6 1), mq_sent := [5, 6]\<rparr>"

lemma one_blocked_run: "mq_run push_both one_slot = Some one_blocked"
  by (simp add: push_both_def one_blocked_def mq_eval fun_upd_def fun_eq_iff)

lemmas one_blocked_reach = mq_run_reach [OF one_blocked_run one_slot_reach]

definition pop_both :: "nat mq_act list" where
  "pop_both = [Mq_call 2 P_ticket] @ replicate 5 (Mq_step 2) @ replicate 3 (Mq_step 1)"

definition one_left :: "nat mpmc" where
  "one_left = one_slot\<lparr>mq_turn := (\<lambda>_. 0)(0 := 3), mq_storage := (\<lambda>_. None)(0 := Some 6), mq_head := 2, mq_tail := 1,
     mq_sent := [5, 6], mq_got := [(0, 5)]\<rparr>"

lemma one_left_run: "mq_run pop_both one_blocked = Some one_left"
  by (simp add: pop_both_def one_blocked_def one_left_def mq_eval eval_nat_numeral) (auto simp: fun_eq_iff)

lemmas one_left_reach = mq_run_reach [OF one_left_run one_blocked_reach]

text \<open>From there, thread 3 tries to put 7 in. And in an empty queue, thread 0 tries to take.\<close>

definition one_full :: "nat mpmc" where
  "one_full = mq_goto 3 (TE_check 7 2) one_blocked"

lemma one_full_reach: "reach mpmc_start mpmc_move one_full"
  by (rule mq_run_reach [of "[Mq_call 3 (try_push_call 7), Mq_step 3]", OF _ one_blocked_reach])
    (simp add: one_full_def one_blocked_def mq_eval)

definition one_empty :: "nat mpmc" where
  "one_empty = mq_goto 0 (TP_check 0) one_slot"

lemma one_empty_reach: "reach mpmc_start mpmc_move one_empty"
  by (rule mq_run_reach [of "[Mq_call 0 TP_load, Mq_step 0]", OF _ one_slot_reach])
    (simp add: one_empty_def mq_eval)

subsection \<open>Tickets of threads that are through\<close>

lemma ticket_done:
  assumes inv: "mpmc_inv s" and idle: "mq_pc s = (\<lambda>_. M_idle)" and k: "k < mq_capacity s"
  shows "issued s k c \<longleftrightarrow> c < mq_turn s k"
  using mpmc_inv_parts(6,7) [OF inv] k by (auto simp: turns_ok_def tickets_kept_def idle)

lemma idle_tickets:
  assumes inv: "mpmc_inv s" and idle: "mq_pc s = (\<lambda>_. M_idle)"
  shows "t < mq_head s \<longleftrightarrow> 2 * (t div mq_capacity s) < mq_turn s (t mod mq_capacity s)"
    "t < mq_tail s \<longleftrightarrow> 2 * (t div mq_capacity s) + 1 < mq_turn s (t mod mq_capacity s)"
  using ticket_done [OF inv idle, of "t mod mq_capacity s" "2 * (t div mq_capacity s)"]
    ticket_done [OF inv idle, of "t mod mq_capacity s" "Suc (2 * (t div mq_capacity s))"] mpmc_inv_parts(1) [OF inv]
  by simp_all

lemma idle_got:
  assumes inv: "mpmc_inv s" and idle: "mq_pc s = (\<lambda>_. M_idle)"
  shows "fst ` set (mq_got s) = {..<mq_tail s}" "mq_tail s \<le> mq_head s"
proof -
  show "fst ` set (mq_got s) = {..<mq_tail s}"
    using mpmc_inv_parts(8) [OF inv] idle_tickets(2) [OF inv idle] by (auto simp: got_ok_def)
  have "t < mq_head s" if "t < mq_tail s" for t using that idle_tickets [OF inv idle, of t] by simp
  then show "mq_tail s \<le> mq_head s" by (meson not_le less_irrefl)
qed

text \<open>The objects in the slots are the elements that were not taken.\<close>

lemma idle_storage:
  assumes inv: "mpmc_inv s" and idle: "mq_pc s = (\<lambda>_. M_idle)" and k: "k < mq_capacity s"
  shows "mq_storage s k = (if odd (mq_turn s k) then Some (mq_sent s ! (mq_turn s k div 2 * mq_capacity s + k)) else None)"
  using mpmc_inv_parts(5) [OF inv k] by (simp add: expected_def flips_def idle)

lemma odd_slots:
  assumes inv: "mpmc_inv s" and idle: "mq_pc s = (\<lambda>_. M_idle)"
  shows "bij_betw (\<lambda>k. mq_turn s k div 2 * mq_capacity s + k) {k. k < mq_capacity s \<and> odd (mq_turn s k)} {mq_tail s..<mq_head s}"
    (is "bij_betw ?f ?K ?T")
proof (rule bij_betw_byWitness [where f' = "\<lambda>t. t mod mq_capacity s"])
  note n = mpmc_inv_parts(1) [OF inv]
  have t: "?f k mod mq_capacity s = k" "?f k div mq_capacity s = mq_turn s k div 2" if "k < mq_capacity s" for k
    using that by simp_all
  show "?f ` ?K \<subseteq> ?T"
    using t idle_tickets [OF inv idle] by (auto simp: not_less [symmetric] elim!: oddE)
  have turn: "mq_turn s (u mod mq_capacity s) = Suc (2 * (u div mq_capacity s))" if "u \<in> ?T" for u
    using that idle_tickets [OF inv idle, of u] by simp
  show "(\<lambda>t. t mod mq_capacity s) ` ?T \<subseteq> ?K" using n turn by auto
  show "\<forall>k \<in> ?K. ?f k mod mq_capacity s = k" using t by simp
  show "\<forall>u \<in> ?T. ?f (u mod mq_capacity s) = u" using turn by simp
qed

lemma those_map_Some: "those (map (\<lambda>k. Some (g k)) ks) = Some (map g ks)"
  by (induction ks) simp_all

lemma mset_filter_concat: "mset (concat (map (\<lambda>k. if P k then [f k] else []) ks)) = image_mset f (filter_mset P (mset ks))"
  by (induction ks) simp_all

lemma mset_drop_sent:
  "mset (drop n xs) = image_mset ((!) xs) (mset_set {n..<length xs})"
proof -
  have "drop n xs = map ((!) xs) [n..<length xs]" by (metis drop_map drop_upt add_0 map_nth)
  then show ?thesis by (simp add: mset_map [symmetric])
qed

lemma destroy_idle:
  assumes inv: "mpmc_inv s" and idle: "mq_pc s = (\<lambda>_. M_idle)"
  shows "\<exists>xs. mpmc_destroy s = Some xs \<and> mset xs = mset (drop (mq_tail s) (mq_sent s))"
proof -
  let ?f = "\<lambda>k. mq_turn s k div 2 * mq_capacity s + k"
  let ?g = "\<lambda>k. if odd (mq_turn s k) then [mq_sent s ! ?f k] else []"
  have slots: "map (slot_destroyed s) [0..<mq_capacity s] = map (\<lambda>k. Some (?g k)) [0..<mq_capacity s]"
    using idle_storage [OF inv idle] by (simp add: slot_destroyed_def)
  have d: "mpmc_destroy s = Some (concat (map ?g [0..<mq_capacity s]))"
    unfolding mpmc_destroy_def slots those_map_Some by simp
  have b: "bij_betw ?f {k. k < mq_capacity s \<and> odd (mq_turn s k)} {mq_tail s..<mq_head s}" by (rule odd_slots [OF inv idle])
  have "mset (concat (map ?g [0..<mq_capacity s])) =
      image_mset (\<lambda>k. mq_sent s ! ?f k) (mset_set {k. k < mq_capacity s \<and> odd (mq_turn s k)})"
    by (simp add: mset_filter_concat filter_mset_mset_set)
  also have "\<dots> = image_mset ((!) (mq_sent s)) (image_mset ?f (mset_set {k. k < mq_capacity s \<and> odd (mq_turn s k)}))"
    by (simp add: image_mset.compositionality comp_def)
  also have "image_mset ?f (mset_set {k. k < mq_capacity s \<and> odd (mq_turn s k)}) = mset_set {mq_tail s..<mq_head s}"
    using image_mset_mset_set [of ?f] b by (simp add: bij_betw_def)
  also have "image_mset ((!) (mq_sent s)) (mset_set {mq_tail s..<mq_head s}) = mset (drop (mq_tail s) (mq_sent s))"
    by (simp add: mset_drop_sent mpmc_inv_parts(2) [OF inv])
  finally show ?thesis using d by blast
qed

subsection \<open>Threads that cannot move\<close>

text \<open>A ticket that is due at the turn of its slot has a thread that can move.\<close>

lemma due_moves:
  assumes "due (mq_capacity s) (mq_pc s j) = Some (k, mq_turn s k)"
  shows "mpmc_step j s \<noteq> None"
  using assms
  by (cases "mq_pc s j") (auto simp: mpmc_step_def first_some_def emplace_step_def try_emplace_step_def pop_step_def
      mq_slot_def mq_round_def mult.commute)

lemma stuck_slot:
  assumes inv: "mpmc_inv s" and stuck: "\<forall>i. mpmc_step i s = None" and k: "k < mq_capacity s"
  shows "\<not> issued s k (mq_turn s k)"
proof
  assume "issued s k (mq_turn s k)"
  then obtain j where "due (mq_capacity s) (mq_pc s j) = Some (k, mq_turn s k)"
    using mpmc_inv_parts(7) [OF inv] k unfolding tickets_kept_def by blast
  then show False using due_moves stuck by blast
qed

lemma slot_ticket_le: "r \<le> t div n \<Longrightarrow> r * n + t mod n \<le> (t :: nat)"
  using add_right_mono [OF mult_right_mono [of r "t div n" n], of "t mod n"] by (simp only: div_mult_mod_eq)

text \<open>The ticket of a turn before, and of the producer at a slot.\<close>

lemma ticket_before:
  fixes t n :: nat
  assumes "0 < t div n"
  shows "(2 * (t div n) - 1) div 2 * n + t mod n = t - n" "n \<le> t"
proof -
  from assms obtain r where r: "t div n = Suc r" by (cases "t div n") auto
  have "t div n * n + t mod n = t" by (rule div_mult_mod_eq)
  then have "n + (r * n + t mod n) = t" by (simp add: r)
  moreover have "(2 * (t div n) - 1) div 2 = r" by (simp add: r)
  ultimately show "(2 * (t div n) - 1) div 2 * n + t mod n = t - n" "n \<le> t" by simp_all
qed

lemma stuck_producer:
  assumes inv: "mpmc_inv s" and stuck: "\<forall>i. mpmc_step i s = None" and pc: "mq_pc s i = E_wait x t"
  shows "mq_tail s + mq_capacity s \<le> t"
proof (rule ccontr)
  assume less: "\<not> ?thesis"
  let ?n = "mq_capacity s" and ?k = "t mod mq_capacity s"
  note n = mpmc_inv_parts(1) [OF inv]
  have at: "at_ok s (E_wait x t)" using mpmc_inv_parts(3) [OF inv, of i] pc by simp
  then have le: "mq_turn s ?k \<le> 2 * (t div ?n)" and t: "t < mq_head s" by (simp_all add: at_ok_def)
  have "mq_turn s ?k \<noteq> 2 * (t div ?n)"
    using stuck due_moves [of s i ?k] pc by force
  then have c: "mq_turn s ?k \<le> 2 * (t div ?n) - 1" "0 < t div ?n" using le by auto
  have b: "(2 * (t div ?n) - 1) div 2 * ?n + ?k = t - ?n" "?n \<le> t" by (rule ticket_before [OF c(2)])+
  have "issued s ?k (mq_turn s ?k)"
  proof (cases "even (mq_turn s ?k)")
    case True
    have "mq_turn s ?k div 2 * ?n + ?k \<le> t" using le by (intro slot_ticket_le) simp
    then show ?thesis using t True by (simp add: issued_def)
  next
    case False
    have "mq_turn s ?k div 2 \<le> (2 * (t div ?n) - 1) div 2" using c by (intro div_le_mono)
    from add_right_mono [OF mult_right_mono [OF this, of ?n], of ?k]
    have "mq_turn s ?k div 2 * ?n + ?k \<le> t - ?n" by (simp only: b(1))
    also have "\<dots> < mq_tail s" using less b(2) n by simp
    finally show ?thesis using False by (simp add: issued_def)
  qed
  then show False using stuck_slot [OF inv stuck] n by simp
qed

lemma stuck_consumer:
  assumes inv: "mpmc_inv s" and stuck: "\<forall>i. mpmc_step i s = None" and pc: "mq_pc s i = P_wait t"
  shows "mq_head s \<le> t"
proof (rule ccontr)
  assume less: "\<not> ?thesis"
  let ?n = "mq_capacity s" and ?k = "t mod mq_capacity s"
  note n = mpmc_inv_parts(1) [OF inv]
  have at: "at_ok s (P_wait t)" using mpmc_inv_parts(3) [OF inv, of i] pc by simp
  then have le: "mq_turn s ?k \<le> 2 * (t div ?n) + 1" and t: "t < mq_tail s" by (simp_all add: at_ok_def)
  have "mq_turn s ?k \<noteq> 2 * (t div ?n) + 1" using stuck due_moves [of s i ?k] pc by force
  then have "mq_turn s ?k div 2 * ?n + ?k \<le> t" using le by (intro slot_ticket_le) simp
  then have "issued s ?k (mq_turn s ?k)" using less t by (simp add: issued_def)
  then show False using stuck_slot [OF inv stuck] n by simp
qed

subsection \<open>Giving up\<close>

lemma counters_grow: "mpmc_move s t \<Longrightarrow> mq_head s \<le> mq_head t \<and> mq_tail s \<le> mq_tail t"
  by (erule mpmc_moveE) (auto simp: mpmc_step_def first_some_def emplace_step_def try_emplace_step_def pop_step_def
      try_pop_step_def construct_slot_def publish_full_def move_slot_def destroy_slot_def publish_empty_def
      split: mpc.splits option.splits if_splits prod.splits bool.splits
      simp add: compare_exchange_def)

lemma counters_grow_all: "mpmc_move\<^sup>*\<^sup>* s t \<Longrightarrow> mq_head s \<le> mq_head t \<and> mq_tail s \<le> mq_tail t"
  by (induction rule: rtranclp_induct) (use counters_grow le_trans in blast)+

text \<open>The threads that hold a ticket.\<close>

definition producing :: "'a mpmc \<Rightarrow> nat \<Rightarrow> bool" where
  "producing s t \<longleftrightarrow> (\<exists>i x. mq_pc s i \<in> {E_wait x t, E_construct x t, E_publish x t})"

definition consuming :: "'a mpmc \<Rightarrow> nat \<Rightarrow> bool" where
  "consuming s t \<longleftrightarrow> (\<exists>i v. mq_pc s i \<in> {P_wait t, P_move t, P_destroy t v, P_publish t v})"

lemma same_ticket: "a mod n = b mod n \<Longrightarrow> a div n = b div n \<Longrightarrow> a = (b :: nat)"
  by (metis div_mult_mod_eq)

lemma due_producing:
  assumes "due n (mq_pc s i) = Some (t mod n, 2 * (t div n))"
  shows "producing s t"
proof -
  have "2 * a \<noteq> Suc (2 * b)" for a b :: nat by presburger
  then have "\<exists>x. mq_pc s i \<in> {E_wait x t, E_construct x t, E_publish x t}"
    using assms by (cases "mq_pc s i") (auto dest: same_ticket)
  then show ?thesis by (auto simp: producing_def)
qed

lemma due_consuming:
  assumes "due n (mq_pc s i) = Some (t mod n, 2 * (t div n) + 1)"
  shows "consuming s t"
proof -
  have "2 * a \<noteq> Suc (2 * b)" for a b :: nat by presburger
  then have "\<exists>v. mq_pc s i \<in> {P_wait t, P_move t, P_destroy t v, P_publish t v}"
    using assms by (cases "mq_pc s i") (auto dest: same_ticket)
  then show ?thesis by (auto simp: consuming_def)
qed

lemma not_yet_full:
  assumes inv: "mpmc_inv s" and turn: "mq_turn s (t mod mq_capacity s) \<le> 2 * (t div mq_capacity s)" and t: "t < mq_head s"
  shows "producing s t"
proof -
  have "issued s (t mod mq_capacity s) (2 * (t div mq_capacity s))" using t by simp
  then obtain i where "due (mq_capacity s) (mq_pc s i) = Some (t mod mq_capacity s, 2 * (t div mq_capacity s))"
    using mpmc_inv_parts(1,7) [OF inv] turn unfolding tickets_kept_def by (meson mod_less_divisor not_less)
  then show ?thesis by (rule due_producing)
qed

lemma not_yet_empty:
  assumes inv: "mpmc_inv s" and turn: "mq_turn s (t mod mq_capacity s) \<le> 2 * (t div mq_capacity s) + 1" and t: "t < mq_tail s"
  shows "consuming s t"
proof -
  have "issued s (t mod mq_capacity s) (2 * (t div mq_capacity s) + 1)" using t by simp
  then obtain i where "due (mq_capacity s) (mq_pc s i) = Some (t mod mq_capacity s, 2 * (t div mq_capacity s) + 1)"
    using mpmc_inv_parts(1,7) [OF inv] turn unfolding tickets_kept_def by (meson mod_less_divisor not_less)
  then show ?thesis by (rule due_consuming)
qed

lemma turn_not_past:
  assumes inv: "mpmc_inv s"
  shows "mq_turn s (t mod mq_capacity s) > 2 * (t div mq_capacity s) \<Longrightarrow> t < mq_head s"
    "mq_turn s (t mod mq_capacity s) > 2 * (t div mq_capacity s) + 1 \<Longrightarrow> t < mq_tail s"
  using mpmc_inv_parts(1,6) [OF inv] unfolding turns_ok_def
  by (metis issued_ticket(1) mod_less_divisor, metis issued_ticket(2) mod_less_divisor Suc_eq_plus1)

lemma try_emplace_check:
  assumes inv: "mpmc_inv s" and full: "mq_turn s (mq_slot s h) \<noteq> mq_round s h * 2" and h: "mq_head s \<le> h"
  shows "mq_capacity s \<le> h" "mq_tail s \<le> h - mq_capacity s \<or> consuming s (h - mq_capacity s)"
proof -
  let ?n = "mq_capacity s"
  have "\<not> mq_turn s (h mod ?n) > 2 * (h div ?n)" using turn_not_past(1) [OF inv] h by (meson not_le)
  then have less: "mq_turn s (h mod ?n) < 2 * (h div ?n)" using full by (simp add: mq_slot_def mq_round_def mult.commute)
  then have pos: "0 < h div ?n" by (cases "h div ?n") simp_all
  then show n: "?n \<le> h" by (rule ticket_before(2))
  have "(h - ?n) mod ?n = h mod ?n" "Suc ((h - ?n) div ?n) = h div ?n"
    using n mpmc_inv_parts(1) [OF inv] by (simp_all add: le_mod_geq [symmetric] le_div_geq)
  then have "mq_turn s ((h - ?n) mod ?n) \<le> 2 * ((h - ?n) div ?n) + 1" using less by simp
  then show "mq_tail s \<le> h - ?n \<or> consuming s (h - ?n)" using not_yet_empty [OF inv] by (meson not_le)
qed

lemma try_pop_check:
  assumes inv: "mpmc_inv s" and "mq_turn s (mq_slot s h) \<noteq> mq_round s h * 2 + 1" and h: "mq_tail s \<le> h"
  shows "mq_head s \<le> h \<or> producing s h"
proof -
  have "\<not> mq_turn s (h mod mq_capacity s) > 2 * (h div mq_capacity s) + 1"
    using turn_not_past(2) [OF inv] h by (meson not_le)
  then have "mq_turn s (h mod mq_capacity s) \<le> 2 * (h div mq_capacity s)"
    using assms(2) by (simp add: mq_slot_def mq_round_def mult.commute)
  then show ?thesis using not_yet_full [OF inv] by (meson not_le)
qed

subsection \<open>What the queue promises\<close>

text \<open>
  C11. First in, first out: the consumer with the t-th ticket gets the element of the producer with the
  t-th ticket, and no ticket is served twice. When no operation is under way, exactly the tickets
  that were drawn by consumers are served, and these are the oldest elements.
\<close>

theorem mpmc_fifo:
  assumes "reach mpmc_start mpmc_move s"
  shows "distinct (map fst (mq_got s)) \<and>
    (\<forall>(t, v) \<in> set (mq_got s). t < length (mq_sent s) \<and> v = mq_sent s ! t) \<and>
    (mq_pc s = (\<lambda>_. M_idle) \<longrightarrow> fst ` set (mq_got s) = {..<mq_tail s} \<and> mq_tail s \<le> mq_head s)"
proof -
  note inv = mpq.reach_inv [OF assms]
  show ?thesis using mpmc_inv_parts(8) [OF inv] idle_got [OF inv] by (auto simp: got_ok_def)
qed

theorem mpmc_fifo_witness: "distinct (map fst (mq_got one_left)) \<and> mq_got one_left = [(0, 5)] \<and> mq_sent one_left ! 0 = 5"
  using mpmc_fifo [OF one_left_reach] by (simp add: one_left_def one_slot_def)

text \<open>
  C12. The turn of a slot is the type of its storage: no thread constructs an object over another one,
  or moves or destroys one that is not there, and the destructor of a queue that nobody uses
  destroys exactly the elements that were not taken.
\<close>

theorem mpmc_typestate:
  assumes "reach mpmc_start mpmc_move s"
  shows "mq_pc s i \<noteq> M_crash \<and>
    (mq_pc s = (\<lambda>_. M_idle) \<longrightarrow>
      (\<exists>xs. mpmc_destroy s = Some xs \<and> mset xs = mset (drop (mq_tail s) (mq_sent s))))"
proof -
  note inv = mpq.reach_inv [OF assms]
  show ?thesis using mpmc_inv_parts(3) [OF inv, of i] destroy_idle [OF inv] by (auto simp: at_ok_def)
qed

theorem mpmc_typestate_witness: "mq_pc one_blocked 1 \<noteq> M_crash \<and> mpmc_destroy one_left = Some [6]"
proof -
  have "mq_pc one_left = (\<lambda>_. M_idle)" by (simp add: one_left_def one_slot_def)
  then obtain xs where "mpmc_destroy one_left = Some xs" "mset xs = mset (drop 1 [5, 6])"
    using mpmc_typestate [OF one_left_reach] by (auto simp: one_left_def one_slot_def)
  then show ?thesis using mpmc_typestate [OF one_blocked_reach, of 1] by simp
qed

text \<open>
  C13. When no thread that is inside an operation can move, a producer that waits has its slot filled
  with an element for which no consumer came, and a consumer that waits has no producer.
\<close>

theorem mpmc_waits_for_counterpart:
  assumes "reach mpmc_start mpmc_move s" and "\<forall>i. mpmc_step i s = None"
  shows "(\<forall>i x t. mq_pc s i = E_wait x t \<longrightarrow> mq_tail s + mq_capacity s \<le> t) \<and>
    (\<forall>i t. mq_pc s i = P_wait t \<longrightarrow> mq_head s \<le> t)"
  using stuck_producer [OF mpq.reach_inv [OF assms(1)] assms(2)] stuck_consumer [OF mpq.reach_inv [OF assms(1)] assms(2)]
  by blast

theorem mpmc_waits_for_counterpart_witness: "mq_tail one_blocked + mq_capacity one_blocked \<le> 1"
proof -
  have "\<forall>i. mpmc_step i one_blocked = None" by (simp add: one_blocked_def mq_eval)
  moreover have "mq_pc one_blocked 1 = E_wait 6 1" by (simp add: one_blocked_def)
  ultimately show ?thesis using mpmc_waits_for_counterpart [OF one_blocked_reach] by blast
qed

text \<open>
  \<open>try_emplace\<close> gives up, after a check and a second load of \<open>head_\<close>, only if at the check the
  slot was still held by the element one round before: no consumer had come for it, or one was
  under way.
\<close>

theorem try_emplace_gives_up:
  assumes "reach mpmc_start mpmc_move s" and pc: "mq_pc s i = TE_check x h" and step: "mpmc_step i s = Some u"
    and u: "mq_pc u i = TE_reload x h" and later: "mpmc_move\<^sup>*\<^sup>* u v" and same: "mq_head v = h"
  shows "mq_capacity s \<le> h \<and> (mq_tail s \<le> h - mq_capacity s \<or> consuming s (h - mq_capacity s))"
proof -
  have "mq_head s \<le> h"
    using counters_grow [OF mpmc_moves [OF step]] counters_grow_all [OF later] same by simp
  moreover have "mq_turn s (mq_slot s h) \<noteq> mq_round s h * 2"
    using step u pc by (auto simp: mpmc_step_def first_some_def emplace_step_def try_emplace_step_def)
  ultimately show ?thesis using try_emplace_check [OF mpq.reach_inv [OF assms(1)]] by blast
qed

theorem try_emplace_gives_up_witness: "mq_tail one_full \<le> 1 \<or> consuming one_full 1"
proof -
  let ?u = "mq_goto 3 (TE_reload 7 2) one_full"
  have "mpmc_step 3 one_full = Some ?u" by (simp add: one_full_def one_blocked_def mq_eval)
  moreover have "mq_pc one_full 3 = TE_check 7 2" "mq_pc ?u 3 = TE_reload 7 2" "mq_head ?u = 2" "mq_capacity one_full = 1"
    by (simp_all add: one_full_def one_blocked_def one_slot_def)
  ultimately show ?thesis using try_emplace_gives_up [OF one_full_reach] by fastforce
qed

text \<open>
  \<open>try_pop\<close> gives up only if at its check no producer had come for the next element, or one was
  still under way.
\<close>

theorem try_pop_gives_up:
  assumes "reach mpmc_start mpmc_move s" and pc: "mq_pc s i = TP_check h" and step: "mpmc_step i s = Some u"
    and u: "mq_pc u i = TP_reload h" and later: "mpmc_move\<^sup>*\<^sup>* u v" and same: "mq_tail v = h"
  shows "mq_head s \<le> h \<or> producing s h"
proof -
  have "mq_tail s \<le> h"
    using counters_grow [OF mpmc_moves [OF step]] counters_grow_all [OF later] same by simp
  moreover have "mq_turn s (mq_slot s h) \<noteq> mq_round s h * 2 + 1"
    using step u pc by (auto simp: mpmc_step_def first_some_def emplace_step_def try_emplace_step_def pop_step_def
        try_pop_step_def)
  ultimately show ?thesis using try_pop_check [OF mpq.reach_inv [OF assms(1)]] by blast
qed

theorem try_pop_gives_up_witness: "mq_head one_empty \<le> 0 \<or> producing one_empty 0"
proof -
  let ?u = "mq_goto 0 (TP_reload 0) one_empty"
  have "mpmc_step 0 one_empty = Some ?u" by (simp add: one_empty_def mq_eval)
  moreover have "mq_pc one_empty 0 = TP_check 0" "mq_pc ?u 0 = TP_reload 0" "mq_tail ?u = 0"
    by (simp_all add: one_empty_def one_slot_def)
  ultimately show ?thesis using try_pop_gives_up [OF one_empty_reach] by fastforce
qed

end
