(* ===== verification/Pool_Life.thy ===== *)
theory Pool_Life
  imports Thread_Pool
begin

section \<open>The life of a thread pool (ThreadPool.hpp)\<close>

text \<open>
  The workers of a pool from their start to the pool's destruction: rounds of any workers in any
  order, tasks added by any thread, coroutines that wait in a barrier, \<open>finalize\<close>, and the destructor, which destroys the threads one
  after the other; \<open>~jthread\<close> requests the stop of its own thread and joins it. A round of a
  worker is one step. The cores of \<open>hwloc\<close> and its calls are parameters.
\<close>

subsection \<open>Pinning\<close>

datatype pin_error = No_core | Bind_failed

text \<open>
  \<open>get_core\<close> is \<open>hwloc_get_obj_by_type\<close> with the cpuset of the core, \<open>bind\<close> whether
  \<open>hwloc_set_cpubind\<close> succeeds. The second result is the number of bitmaps that are allocated.
\<close>

definition pin_thread_to_core ::
    "(nat \<Rightarrow> 'c option) \<Rightarrow> ('c \<Rightarrow> 'c) \<Rightarrow> ('c \<Rightarrow> bool) \<Rightarrow> nat \<Rightarrow> nat \<Rightarrow> (pin_error + 'c) \<times> nat" where
  "pin_thread_to_core get_core singlify bind core_index bitmaps =
     (case get_core core_index of
        None \<Rightarrow> (Inl No_core, bitmaps)
      | Some cpuset \<Rightarrow>
          let bitmaps1 = bitmaps + 1; single = singlify cpuset
          in if \<not> bind single then (Inl Bind_failed, bitmaps1 - 1) else (Inr single, bitmaps1 - 1))"

lemma pin_frees_bitmap: "snd (pin_thread_to_core get_core singlify bind i n) = n"
  by (simp add: pin_thread_to_core_def Let_def split: option.splits)

text \<open>The core of worker \<open>idx\<close>.\<close>

definition worker_core :: "nat \<Rightarrow> nat \<Rightarrow> nat" where
  "worker_core num_cores idx = idx mod num_cores"

lemma workers_on_own_cores:
  "pool_new num_cores n = Inr p \<Longrightarrow> inj_on (worker_core num_cores) {..<n}"
  by (auto simp: pool_new_def worker_core_def inj_on_def split: if_splits)

subsection \<open>State\<close>

text \<open>
  The start of the threads: thread \<open>i\<close> gets the 16-bit counter \<open>idx\<close> and pins itself before it enters
  \<open>worker\<close>. An exception that leaves the thread ends the program.
\<close>

fun start_threads ::
    "(nat \<Rightarrow> 'c option) \<Rightarrow> ('c \<Rightarrow> 'c) \<Rightarrow> ('c \<Rightarrow> bool) \<Rightarrow> nat \<Rightarrow> nat \<Rightarrow> u16 \<Rightarrow> nat \<Rightarrow> pin_error + 'c list \<times> nat" where
  "start_threads get_core singlify bind num_cores 0 i bitmaps = Inr ([], bitmaps)"
| "start_threads get_core singlify bind num_cores (Suc n) i bitmaps =
     (case pin_thread_to_core get_core singlify bind (worker_core num_cores (unat i)) bitmaps of
        (Inl e, _) \<Rightarrow> Inl e
      | (Inr c, b) \<Rightarrow> map_sum id (map_prod ((#) c) id) (start_threads get_core singlify bind num_cores n (i + 1) b))"

text \<open>
  With the cores that \<open>hwloc\<close> counts, and binding that succeeds, each thread gets the core of its own
  number and no bitmap is left.
\<close>

lemma threads_on_cores:
  "i + n \<le> num_cores \<Longrightarrow> i + n \<le> 2 ^ 16 \<Longrightarrow> \<forall>k < num_cores. get_core k = Some (core k) \<Longrightarrow>
   \<forall>k < num_cores. bind (singlify (core k)) \<Longrightarrow>
   start_threads get_core singlify bind num_cores n (of_nat i) b = Inr (map (\<lambda>k. singlify (core k)) [i..<i + n], b)"
proof (induction n arbitrary: i)
  case (Suc n)
  have "unat (of_nat i :: u16) = i" using Suc.prems(2) by (simp add: unsigned_of_nat take_bit_nat_eq_self)
  then have "worker_core num_cores (unat (of_nat i :: u16)) = i" using Suc.prems(1) by (simp add: worker_core_def)
  then have pin: "pin_thread_to_core get_core singlify bind (worker_core num_cores (unat (of_nat i :: u16))) b =
      (Inr (singlify (core i)), b)"
    using Suc.prems by (simp add: pin_thread_to_core_def)
  have "start_threads get_core singlify bind num_cores n (of_nat (Suc i)) b = Inr (map (\<lambda>k. singlify (core k)) [Suc i..<Suc i + n], b)"
    by (rule Suc.IH) (use Suc.prems in simp_all)
  moreover have "[i..<i + Suc n] = i # [Suc i..<Suc i + n]" by (simp add: upt_conv_Cons del: upt_Suc)
  moreover have "(of_nat (Suc i) :: u16) = of_nat i + 1" by simp
  ultimately show ?case using pin by (simp only: start_threads.simps prod.case sum.case map_sum.simps map_prod_simp list.map id_apply)
qed simp

text \<open>
  \<open>HwlocTopology\<close>: the topology is initialised once; \<open>init\<close> and \<open>load\<close> are the calls of \<open>hwloc\<close>. The
  second result is the number of topologies that were not destroyed.
\<close>

datatype topology_error = Init_failed | Load_failed

definition initialize_topology :: "'t option \<Rightarrow> ('t \<Rightarrow> bool) \<Rightarrow> nat \<Rightarrow> (topology_error + 't) \<times> nat" where
  "initialize_topology init load k =
     (case init of
        None \<Rightarrow> (Inl Init_failed, k)
      | Some tp \<Rightarrow> let held = k + 1 in if \<not> load tp then (Inl Load_failed, held - 1) else (Inr tp, held))"

definition topology_instance ::
    "'t option \<Rightarrow> ('t \<Rightarrow> bool) \<Rightarrow> 't option \<times> nat \<Rightarrow> (topology_error + 't) \<times> 't option \<times> nat" where
  "topology_instance init load s =
     (case s of
        (Some tp, k) \<Rightarrow> (Inr tp, s)
      | (None, k) \<Rightarrow>
          (case initialize_topology init load k of
             (Inl e, k') \<Rightarrow> (Inl e, None, k')
           | (Inr tp, k') \<Rightarrow> (Inr tp, Some tp, k')))"

text \<open>Each later call gives the first topology, whatever \<open>hwloc\<close> would answer; a failed call leaves nothing.\<close>

lemma topology_once:
  assumes "topology_instance init load (None, 0) = (r, s)"
  shows "case r of Inl e \<Rightarrow> s = (None, 0) | Inr tp \<Rightarrow> s = (Some tp, 1) \<and> topology_instance init' load' s = (Inr tp, s)"
  using assms by (auto simp: topology_instance_def initialize_topology_def Let_def split: option.splits if_splits)

text \<open>
  \<open>pl_stop\<close>: the threads whose stop token says stop; \<open>pl_left\<close>: the workers that have left their
  loop; \<open>pl_source\<close>: whether the pool's own \<open>stop_source\<close> was asked to stop; \<open>pl_joining\<close>: the
  thread the destructor is at. Auxiliary: what was resumed, in order, and what was added.
\<close>

record pool_life =
  pl_pool :: pool
  pl_stop :: "nat set"
  pl_left :: "nat set"
  pl_source :: bool
  pl_joining :: "nat option"
  pl_resumed :: "nat list"
  pl_added :: "nat multiset"

definition pool_life_start :: "pool_life \<Rightarrow> bool" where
  "pool_life_start s \<longleftrightarrow> (\<exists>num_cores k. pool_new num_cores k = Inr (pl_pool s)) \<and> pl_stop s = {} \<and> pl_left s = {} \<and>
     \<not> pl_source s \<and> pl_joining s = None \<and> pl_resumed s = [] \<and> pl_added s = {#}"

definition worker_count :: "pool_life \<Rightarrow> nat" where
  "worker_count s = length (thread_queues (pl_pool s))"

subsection \<open>Steps\<close>

text \<open>The loop of \<open>worker\<close>: it looks at its stop token, then does a round, or leaves.\<close>

definition worker_loop_step ::
    "nat \<Rightarrow> (nat \<Rightarrow> nat) \<Rightarrow> (nat \<Rightarrow> u32) \<Rightarrow> (nat \<Rightarrow> bool) \<Rightarrow> pool_life \<Rightarrow> pool_life option" where
  "worker_loop_step index dist cnt flag s =
     (if index \<in> pl_stop s then Some (s\<lparr>pl_left := insert index (pl_left s)\<rparr>)
      else case worker_iteration index dist cnt flag (pl_pool s) of
        None \<Rightarrow> None
      | Some (Some (Some h), p) \<Rightarrow> Some (s\<lparr>pl_pool := p, pl_resumed := pl_resumed s @ [h]\<rparr>)
      | Some (Some None, p) \<Rightarrow> None
      | Some (None, p) \<Rightarrow> Some (s\<lparr>pl_pool := p\<rparr>))"

definition add_step :: "nat option \<Rightarrow> nat \<Rightarrow> pool_life \<Rightarrow> pool_life option" where
  "add_step me h s = map_option (\<lambda>p. s\<lparr>pl_pool := p, pl_added := add_mset h (pl_added s)\<rparr>) (pool_add_task me h (pl_pool s))"

text \<open>A coroutine that a worker runs waits in a barrier: its handle \<open>self\<close> enters the barrier queue.\<close>

definition enter_barrier_step :: "shandle \<Rightarrow> nat \<Rightarrow> pool_life \<Rightarrow> pool_life" where
  "enter_barrier_step self flag s =
     s\<lparr>pl_pool := (pl_pool s)\<lparr>barrier_q := barrier_emplace_back self flag (barrier_q (pl_pool s))\<rparr>,
       pl_added := add_mset (sh_addr self) (pl_added s)\<rparr>"

definition finalize_step :: "pool_life \<Rightarrow> pool_life" where
  "finalize_step s = s\<lparr>pl_source := True\<rparr>"

text \<open>The destructor: a stop request to the pool's own source, then thread by thread.\<close>

definition destroy_step :: "pool_life \<Rightarrow> pool_life option" where
  "destroy_step s =
     (case pl_joining s of
        None \<Rightarrow> Some (s\<lparr>pl_source := True, pl_joining := Some 0\<rparr>)
      | Some k \<Rightarrow>
          if k < worker_count s
          then if k \<notin> pl_stop s then Some (s\<lparr>pl_stop := insert k (pl_stop s)\<rparr>)
               else if k \<in> pl_left s then Some (s\<lparr>pl_joining := Some (k + 1)\<rparr>)
               else None
          else None)"

text \<open>
  Draws are in range; a worker is a thread of the pool; a task is added by a worker that has not
  left, from inside the coroutine it runs, or by the thread that owns the pool. Counts and flags
  are what they are when a worker looks at them.
\<close>

inductive pool_life_step :: "pool_life \<Rightarrow> pool_life \<Rightarrow> bool" where
  pool_worker: "i < worker_count s \<Longrightarrow> i \<notin> pl_left s \<Longrightarrow> draws_ok (worker_count s) dist \<Longrightarrow>
     worker_loop_step i dist cnt flag s = Some t \<Longrightarrow> pool_life_step s t"
| pool_adds: "(case me of None \<Rightarrow> True | Some i \<Rightarrow> i < worker_count s \<and> i \<notin> pl_left s) \<Longrightarrow>
     add_step me h s = Some t \<Longrightarrow> pool_life_step s t"
| pool_barrier: "i < worker_count s \<Longrightarrow> i \<notin> pl_left s \<Longrightarrow> pool_life_step s (enter_barrier_step self flag s)"
| pool_finalize: "pool_life_step s (finalize_step s)"
| pool_destroy: "destroy_step s = Some t \<Longrightarrow> pool_life_step s t"

inductive_cases pool_life_stepE: "pool_life_step s t"

subsection \<open>The invariant\<close>

definition joining_ok :: "nat option \<Rightarrow> nat \<Rightarrow> nat set \<Rightarrow> nat set \<Rightarrow> bool" where
  "joining_ok j n left stop \<longleftrightarrow> left \<subseteq> stop \<and>
     (case j of None \<Rightarrow> stop = {} | Some k \<Rightarrow> k \<le> n \<and> {..<k} \<subseteq> left \<and> stop \<subseteq> {..k})"

definition pool_life_inv :: "pool_life \<Rightarrow> bool" where
  "pool_life_inv s \<longleftrightarrow> pool_ok (pl_pool s) \<and> pl_added s = waiting_tasks (pl_pool s) + mset (pl_resumed s) \<and>
     joining_ok (pl_joining s) (length (thread_queues (pl_pool s))) (pl_left s) (pl_stop s)"

lemma joining_leave: "joining_ok j n left stop \<Longrightarrow> i \<in> stop \<Longrightarrow> joining_ok j n (insert i left) stop"
  by (auto simp: joining_ok_def split: option.splits)

lemma new_pool_empty:
  assumes "pool_new c n = Inr p"
  shows "pool_ok p" "waiting_tasks p = {#}"
proof -
  have "deque_ok (deque_new 64 :: nat deque)" "deque_items (deque_new 64 :: nat deque) = []"
    using deque_new_ok [of 6] by (simp_all add: deque_new_items)
  moreover have "sum_list (replicate m {#}) = ({#} :: nat multiset)" for m by (induction m) simp_all
  ultimately show "pool_ok p" "waiting_tasks p = {#}"
    using assms by (auto simp: pool_new_def thread_pool_stack_size_def pool_ok_def waiting_tasks_def queue_tasks_def
        map_replicate_const split: if_splits)
qed

lemma pool_life_inv_init: "pool_life_start s \<Longrightarrow> pool_life_inv s"
  using new_pool_empty by (auto simp: pool_life_start_def pool_life_inv_def joining_ok_def)

lemma worker_loop_inv:
  assumes inv: "pool_life_inv s" and i: "i < worker_count s" and d: "draws_ok (worker_count s) dist"
    and step: "worker_loop_step i dist cnt flag s = Some t"
  shows "pool_life_inv t \<and> worker_count t = worker_count s"
proof (cases "i \<in> pl_stop s")
  case True
  then show ?thesis using inv step
    by (auto simp: worker_loop_step_def pool_life_inv_def worker_count_def joining_leave)
next
  case False
  obtain r p where w: "worker_iteration i dist cnt flag (pl_pool s) = Some (r, p)" "pool_ok p"
    "length (thread_queues p) = length (thread_queues (pl_pool s))"
    "case r of None \<Rightarrow> waiting_tasks p = waiting_tasks (pl_pool s) \<and> deque_items (thread_queues (pl_pool s) ! i) = [] \<and>
         (\<forall>v \<in> set (draws dist). victim_items i v (pl_pool s) = [])
     | Some c \<Rightarrow> \<exists>h. c = Some h \<and> waiting_tasks (pl_pool s) = add_mset h (waiting_tasks p)"
    using worker_iteration_correct [of "pl_pool s" i dist cnt flag] inv i d
    by (auto simp: pool_life_inv_def worker_count_def)
  show ?thesis
  proof (cases r)
    case None
    then show ?thesis using False w inv step by (auto simp: worker_loop_step_def pool_life_inv_def worker_count_def)
  next
    case (Some c)
    then show ?thesis using False w inv step by (auto simp: worker_loop_step_def pool_life_inv_def worker_count_def)
  qed
qed

lemma add_step_inv:
  assumes inv: "pool_life_inv s" and me: "case me of None \<Rightarrow> True | Some i \<Rightarrow> i < worker_count s \<and> i \<notin> pl_left s"
    and step: "add_step me h s = Some t"
  shows "pool_life_inv t \<and> worker_count t = worker_count s"
proof -
  obtain p where p: "pool_add_task me h (pl_pool s) = Some p" "pool_ok p"
    "length (thread_queues p) = length (thread_queues (pl_pool s))"
    "waiting_tasks p = add_mset h (waiting_tasks (pl_pool s))"
    using pool_add_task_adds [of "pl_pool s" me h] inv me by (auto simp: pool_life_inv_def worker_count_def split: option.splits)
  then show ?thesis using inv step by (auto simp: add_step_def pool_life_inv_def worker_count_def)
qed

lemma enter_barrier_inv: "pool_life_inv s \<Longrightarrow> pool_life_inv (enter_barrier_step self flag s) \<and>
    worker_count (enter_barrier_step self flag s) = worker_count s"
  by (simp add: enter_barrier_step_def barrier_emplace_back_def pool_life_inv_def pool_ok_def waiting_tasks_def worker_count_def)

lemma destroy_step_inv: "pool_life_inv s \<Longrightarrow> destroy_step s = Some t \<Longrightarrow> pool_life_inv t \<and> worker_count t = worker_count s"
  by (auto simp: destroy_step_def pool_life_inv_def joining_ok_def worker_count_def less_Suc_eq subset_iff split: option.splits if_splits)

lemma pool_life_step_inv: "pool_life_inv s \<Longrightarrow> pool_life_step s t \<Longrightarrow> pool_life_inv t \<and> worker_count t = worker_count s"
proof (erule pool_life_stepE)
  fix i dist cnt flag assume "pool_life_inv s" "i < worker_count s" "draws_ok (worker_count s) dist"
    "worker_loop_step i dist cnt flag s = Some t"
  then show ?thesis by (rule worker_loop_inv)
next
  fix me h assume "pool_life_inv s" "case me of None \<Rightarrow> True | Some i \<Rightarrow> i < worker_count s \<and> i \<notin> pl_left s" "add_step me h s = Some t"
  then show ?thesis by (rule add_step_inv)
next
  fix self flag assume "pool_life_inv s" "t = enter_barrier_step self flag s"
  then show ?thesis using enter_barrier_inv by simp
next
  assume "pool_life_inv s" "t = finalize_step s"
  then show ?thesis by (simp add: finalize_step_def pool_life_inv_def worker_count_def)
next
  assume "pool_life_inv s" "destroy_step s = Some t"
  then show ?thesis by (rule destroy_step_inv)
qed

interpretation pool_runs: invariant_system pool_life_start pool_life_step pool_life_inv
  by unfold_locales (use pool_life_inv_init pool_life_step_inv in blast)+

text \<open>Nobody resumes a task when all workers have left.\<close>

lemma left_step: "pool_life_step s t \<Longrightarrow> {..<worker_count s} \<subseteq> pl_left s \<Longrightarrow> pool_life_inv s \<Longrightarrow>
    pl_resumed t = pl_resumed s \<and> {..<worker_count t} \<subseteq> pl_left t"
proof -
  assume step: "pool_life_step s t" and left: "{..<worker_count s} \<subseteq> pl_left s" and inv: "pool_life_inv s"
  have n: "worker_count t = worker_count s" using pool_life_step_inv [OF inv step] by simp
  from step have "pl_resumed t = pl_resumed s \<and> pl_left s \<subseteq> pl_left t"
  proof (rule pool_life_stepE)
    fix i assume "i < worker_count s" "i \<notin> pl_left s"
    then show ?thesis using left by auto
  qed (auto simp: add_step_def enter_barrier_step_def finalize_step_def destroy_step_def split: option.splits if_splits)
  then show ?thesis using left n by auto
qed

lemma left_steps: "pool_life_step\<^sup>*\<^sup>* s t \<Longrightarrow> {..<worker_count s} \<subseteq> pl_left s \<Longrightarrow> pool_life_inv s \<Longrightarrow>
    pl_resumed t = pl_resumed s \<and> {..<worker_count t} \<subseteq> pl_left t \<and> pool_life_inv t"
proof (induction rule: rtranclp_induct)
  case (step u v)
  then have u: "pl_resumed u = pl_resumed s" "{..<worker_count u} \<subseteq> pl_left u" "pool_life_inv u" by simp_all
  from left_step [OF step(2) u(2,3)] u(1) pool_life_step_inv [OF u(3) step(2)] show ?case by simp
qed simp

subsection \<open>The destructor returns\<close>

lemma destructor_goes_on:
  assumes inv: "pool_life_inv s" and k: "pl_joining s = Some k" and lt: "k < worker_count s"
  shows "\<exists>t. pool_life_step\<^sup>*\<^sup>* s t \<and> pl_joining t = Some (k + 1)"
proof -
  have none: "k \<notin> pl_left s" if "k \<notin> pl_stop s" using inv that by (auto simp: pool_life_inv_def joining_ok_def)
  have one: "\<exists>t. pool_life_step\<^sup>*\<^sup>* u t \<and> pl_joining t = Some (k + 1)"
    if u: "pl_joining u = Some k" "worker_count u = worker_count s" "k \<in> pl_stop u" "k \<in> pl_left u" for u
  proof -
    have "pool_life_step u (u\<lparr>pl_joining := Some (k + 1)\<rparr>)"
      by (rule pool_destroy) (use u lt in \<open>simp add: destroy_step_def\<close>)
    then show ?thesis by (intro exI [of _ "u\<lparr>pl_joining := Some (k + 1)\<rparr>"]) auto
  qed
  have two: "\<exists>t. pool_life_step\<^sup>*\<^sup>* u t \<and> pl_joining t = Some (k + 1)"
    if u: "pl_joining u = Some k" "worker_count u = worker_count s" "k \<in> pl_stop u" for u
  proof (cases "k \<in> pl_left u")
    case False
    let ?v = "u\<lparr>pl_left := insert k (pl_left u)\<rparr>"
    have "pool_life_step u ?v"
    proof (rule pool_worker [where i = k and dist = "\<lambda>_. 0"])
      show "worker_loop_step k (\<lambda>_. 0) cnt flag u = Some ?v" for cnt flag using u by (simp add: worker_loop_step_def)
    qed (use u lt False in \<open>auto simp: draws_ok_def\<close>)
    moreover have "\<exists>t. pool_life_step\<^sup>*\<^sup>* ?v t \<and> pl_joining t = Some (k + 1)"
      by (rule one) (use u in \<open>simp_all add: worker_count_def\<close>)
    ultimately show ?thesis by (meson converse_rtranclp_into_rtranclp)
  qed (use one u in blast)
  show ?thesis
  proof (cases "k \<in> pl_stop s")
    case False
    let ?v = "s\<lparr>pl_stop := insert k (pl_stop s)\<rparr>"
    have "pool_life_step s ?v" by (rule pool_destroy) (use k lt False in \<open>simp add: destroy_step_def\<close>)
    moreover have "\<exists>t. pool_life_step\<^sup>*\<^sup>* ?v t \<and> pl_joining t = Some (k + 1)"
      by (rule two) (use k in \<open>simp_all add: worker_count_def\<close>)
    ultimately show ?thesis by (meson converse_rtranclp_into_rtranclp)
  qed (use two k in blast)
qed

lemma destructor_ends:
  "pool_life_inv s \<Longrightarrow> pl_joining s = Some k \<Longrightarrow> \<exists>t. pool_life_step\<^sup>*\<^sup>* s t \<and> pl_joining t = Some (worker_count s)"
proof (induction "worker_count s - k" arbitrary: s k)
  case 0
  then have "k = worker_count s" by (simp add: pool_life_inv_def joining_ok_def worker_count_def)
  then show ?case using 0 by blast
next
  case (Suc d)
  then have lt: "k < worker_count s" by simp
  obtain u where u: "pool_life_step\<^sup>*\<^sup>* s u" "pl_joining u = Some (k + 1)"
    using destructor_goes_on [OF Suc.prems lt] by blast
  have keep: "pool_life_inv u \<and> worker_count u = worker_count s"
    using u(1) by (induction rule: rtranclp_induct) (use Suc.prems(1) pool_life_step_inv in \<open>auto dest: pool_life_step_inv\<close>)
  then have "d = worker_count u - (k + 1)" using Suc.hyps(2) by simp
  from Suc.hyps(1) [OF this _ u(2)] keep obtain t where "pool_life_step\<^sup>*\<^sup>* u t" "pl_joining t = Some (worker_count s)" by auto
  then show ?case using u(1) rtranclp_trans by fastforce
qed

subsection \<open>Properties\<close>

text \<open>
  C28. Over the whole life of the pool no task is lost or run twice: what was added is what still
  waits, in the barrier queue or elsewhere, and what was resumed. A worker leaves its loop only after
  its own thread was asked to stop, which only the destructor does: \<open>finalize\<close> stops nobody.
\<close>

theorem pool_life_conserves:
  assumes "reach pool_life_start pool_life_step s"
  shows "pl_added s = waiting_tasks (pl_pool s) + mset (pl_resumed s) \<and> pl_left s \<subseteq> pl_stop s \<and>
    (pl_joining s = None \<longrightarrow> pl_left s = {})"
  using pool_runs.reach_inv [OF assms] by (auto simp: pool_life_inv_def joining_ok_def)

text \<open>
  C29. The destructor, once begun, can always go on until every thread is joined. From then on no task
  is resumed any more: those that wait are abandoned.
\<close>

theorem pool_destructor_returns:
  assumes "reach pool_life_start pool_life_step s" and "pl_joining s = Some k"
  shows "(\<exists>t. pool_life_step\<^sup>*\<^sup>* s t \<and> pl_joining t = Some (worker_count s)) \<and>
    (k = worker_count s \<and> pool_life_step\<^sup>*\<^sup>* s u \<longrightarrow> pl_resumed u = pl_resumed s)"
proof -
  have inv: "pool_life_inv s" by (rule pool_runs.reach_inv [OF assms(1)])
  have "{..<worker_count s} \<subseteq> pl_left s" if "k = worker_count s"
    using inv assms(2) that by (simp add: pool_life_inv_def joining_ok_def)
  then show ?thesis using destructor_ends [OF inv assms(2)] left_steps [of s u] inv by blast
qed

text \<open>A pool with two workers; the owner adds task 7 and destroys the pool.\<close>

definition fresh_life :: pool_life where
  "fresh_life = \<lparr>pl_pool = projr (pool_new 4 2), pl_stop = {}, pl_left = {}, pl_source = False, pl_joining = None,
     pl_resumed = [], pl_added = {#}\<rparr>"

definition busy_life :: pool_life where
  "busy_life = the (add_step None 7 fresh_life)"

lemma fresh_life_reach: "reach pool_life_start pool_life_step fresh_life"
proof (rule reach_init)
  have "pool_new 4 2 = Inr (projr (pool_new 4 2))" by (simp add: pool_new_def)
  then show "pool_life_start fresh_life" unfolding pool_life_start_def fresh_life_def by fastforce
qed

lemma busy_life_reach: "reach pool_life_start pool_life_step busy_life"
  and busy_life_facts: "pl_joining busy_life = None" "pl_added busy_life = {#7#}" "pl_resumed busy_life = []"
    "pl_left busy_life = {}" "barrier_q (pl_pool busy_life) = []"
  and busy_life_workers: "worker_count busy_life = worker_count fresh_life"
proof -
  have "pool_ok (pl_pool fresh_life)" using pool_runs.reach_inv [OF fresh_life_reach] by (simp add: pool_life_inv_def)
  then obtain p where p: "pool_add_task None 7 (pl_pool fresh_life) = Some p"
      "barrier_q p = barrier_q (pl_pool fresh_life)" "length (thread_queues p) = length (thread_queues (pl_pool fresh_life))"
    using pool_add_task_adds [of _ None 7] by blast
  then have b: "add_step None 7 fresh_life = Some (fresh_life\<lparr>pl_pool := p, pl_added := {#7#}\<rparr>)"
    by (simp add: add_step_def fresh_life_def)
  then show "pl_joining busy_life = None" "pl_added busy_life = {#7#}" "pl_resumed busy_life = []" "pl_left busy_life = {}"
    "barrier_q (pl_pool busy_life) = []" "worker_count busy_life = worker_count fresh_life"
    using p by (simp_all add: busy_life_def fresh_life_def worker_count_def) (simp add: pool_new_def)
  have "pool_life_step fresh_life busy_life" by (rule pool_adds [where me = None and h = 7]) (simp_all add: b busy_life_def)
  then show "reach pool_life_start pool_life_step busy_life" by (rule reach_step [OF fresh_life_reach])
qed

text \<open>A coroutine with handle 9 that worker 0 runs enters the barrier queue.\<close>

definition barrier_life :: pool_life where
  "barrier_life = enter_barrier_step (handle_to 9) 9 busy_life"

lemma barrier_life_reach: "reach pool_life_start pool_life_step barrier_life"
proof -
  have "worker_count busy_life = 2"
    using busy_life_workers by (simp add: fresh_life_def worker_count_def pool_new_def)
  then have "pool_life_step busy_life barrier_life"
    unfolding barrier_life_def by (intro pool_barrier [where i = 0]) (simp_all add: busy_life_facts)
  then show ?thesis by (rule reach_step [OF busy_life_reach])
qed

theorem pool_life_conserves_witness:
  "waiting_tasks (pl_pool barrier_life) = {#7, 9#} \<and> map be_handle (barrier_q (pl_pool barrier_life)) = [9] \<and> pl_left barrier_life = {}"
  using pool_life_conserves [OF barrier_life_reach]
  by (simp add: barrier_life_def enter_barrier_step_def barrier_emplace_back_def busy_life_facts add_mset_commute)

theorem pool_destructor_returns_witness:
  "\<exists>s t. pool_life_step busy_life s \<and> pool_life_step\<^sup>*\<^sup>* s t \<and> pl_joining t = Some (worker_count busy_life)"
proof -
  let ?s = "busy_life\<lparr>pl_source := True, pl_joining := Some 0\<rparr>"
  have step: "pool_life_step busy_life ?s" by (rule pool_destroy) (simp add: destroy_step_def busy_life_facts)
  from pool_destructor_returns [OF reach_step [OF busy_life_reach this], of 0]
  show ?thesis using step by (auto simp: worker_count_def)
qed

end
