(* ===== verification/Examples.thy ===== *)
theory Examples
  imports Prelude
begin

section \<open>The example programs (examples/fib.cpp, nqueens.cpp, skynet.cpp)\<close>

text \<open>
  The values the examples compute. The value of \<open>co_await task.get()\<close>, and of a synchronous
  dispatch, is what the child returned (theory Task_State), so a coroutine is a function of its
  arguments; children are dispatched in the order of the lists. \<open>size_t\<close> is a word.
\<close>

subsection \<open>\<open>fib\<close>\<close>

function fib :: "u64 \<Rightarrow> u64" where
  "fib n = (if n < 2 then n else let a = fib (n - 1); b = fib (n - 2) in a + b)"
  by auto

termination
proof (relation "measure unat")
  show "wf (measure unat)" by simp
next
  fix n :: u64 assume "\<not> n < 2"
  then have "2 \<le> unat n" by (simp add: word_less_nat_alt)
  then show "(n - 1, n) \<in> measure unat" "(n - 2, n) \<in> measure unat"
    by (auto simp: unat_sub word_le_nat_alt)
qed

text \<open>The Fibonacci numbers.\<close>

fun fibonacci :: "nat \<Rightarrow> nat" where
  "fibonacci 0 = 0" | "fibonacci (Suc 0) = 1" | "fibonacci (Suc (Suc n)) = fibonacci (Suc n) + fibonacci n"

theorem fib_is_fibonacci: "n < 2 ^ 64 \<Longrightarrow> fib (of_nat n) = of_nat (fibonacci n)"
proof (induction n rule: fibonacci.induct)
  case (3 n)
  have lt: "\<not> (of_nat (Suc (Suc n)) :: u64) < 2"
    using "3.prems" by (simp add: word_less_nat_alt unsigned_of_nat take_bit_nat_eq_self del: of_nat_Suc)
  have "fib (of_nat (Suc (Suc n))) = fib (of_nat (Suc (Suc n)) - 1) + fib (of_nat (Suc (Suc n)) - 2)"
    using lt by (subst fib.simps) (simp only: if_False Let_def)
  also have "(of_nat (Suc (Suc n)) :: u64) - 1 = of_nat (Suc n)" by simp
  also have "(of_nat (Suc (Suc n)) :: u64) - 2 = of_nat n" by simp
  finally show ?case using 3 by simp
qed (simp_all add: fib.simps)

subsection \<open>\<open>nqueens\<close>\<close>

text \<open>
  The test of a column \<open>y\<close> for the row \<open>xMax\<close>; it leaves \<open>y\<close> in the buffer, as a \<open>char\<close> (signed, 8
  bits). The differences are computed with \<open>int\<close>s.
\<close>

definition to_char :: "int \<Rightarrow> int" where
  "to_char y = signed_take_bit 7 y"

lemma to_char_small: "0 \<le> y \<Longrightarrow> y < 128 \<Longrightarrow> to_char y = y"
  unfolding to_char_def by (rule signed_take_bit_int_eq_self) simp_all

definition queen_fits :: "nat \<Rightarrow> int list \<Rightarrow> int \<Rightarrow> bool" where
  "queen_fits xMax buf q = list_all (\<lambda>x. \<not> (q = buf ! x \<or> q = buf ! x - int (xMax - x) \<or> q = buf ! x + int (xMax - x))) [0..<xMax]"

definition queen_test :: "nat \<Rightarrow> int \<Rightarrow> int list \<Rightarrow> bool \<times> int list" where
  "queen_test xMax y buf = (let q = to_char y; buf' = buf[xMax := q] in (queen_fits xMax buf' q, buf'))"

text \<open>The buffers that the children get, while the filtered range is gone through.\<close>

fun spawned :: "nat \<Rightarrow> int list \<Rightarrow> int list \<Rightarrow> int list list" where
  "spawned xMax [] buf = []"
| "spawned xMax (y # ys) buf =
     (case queen_test xMax y buf of
        (True, buf') \<Rightarrow> buf' # spawned xMax ys buf'
      | (False, buf') \<Rightarrow> spawned xMax ys buf')"

text \<open>
  A row behind the end of the board never occurs: it would be outside the buffer. The result is an
  \<open>int\<close> of 32 bits.
\<close>

function nqueens :: "nat \<Rightarrow> nat \<Rightarrow> int list \<Rightarrow> u32" where
  "nqueens n xMax buf =
     (if n = xMax then 1
      else if n < xMax then 0
      else sum_list (map (nqueens n (xMax + 1)) (spawned xMax (map int [0..<n]) buf)))"
  by auto

termination by (relation "measure (\<lambda>(n, xMax, buf). n - xMax)") auto

declare fib.simps [simp del] nqueens.simps [simp del]

definition answers :: "u32 list" where
  "answers = [0, 1, 0, 0, 2, 10, 4, 40, 92, 352, 724, 2680, 14200, 73712, 365596, 2279184, 14772512, 95815104, 666090624]
     @ replicate 9 0"

text \<open>What \<open>check_answer\<close> accepts.\<close>

definition check_answer :: "nat \<Rightarrow> u32 \<Rightarrow> bool" where
  "check_answer work result \<longleftrightarrow> result = answers ! work"

text \<open>The placements of queens in the first \<open>k\<close> rows that do not attack each other.\<close>

definition placement :: "nat \<Rightarrow> int list \<Rightarrow> bool" where
  "placement n qs \<longleftrightarrow> set qs \<subseteq> {0..<int n} \<and>
     (\<forall>j < length qs. \<forall>i < j. qs ! i \<noteq> qs ! j \<and> \<bar>qs ! i - qs ! j\<bar> \<noteq> int (j - i))"

definition placements :: "nat \<Rightarrow> nat \<Rightarrow> int list \<Rightarrow> int list set" where
  "placements n k pre = {qs. length qs = k \<and> placement n qs \<and> take (length pre) qs = pre}"

lemma queen_fits_iff:
  assumes "xMax < length buf"
  shows "queen_fits xMax (buf[xMax := y]) y \<longleftrightarrow>
    (\<forall>i < xMax. take xMax buf ! i \<noteq> y \<and> \<bar>take xMax buf ! i - y\<bar> \<noteq> int (xMax - i))"
proof -
  have "\<not> (y = v \<or> y = v - int d \<or> y = v + int d) \<longleftrightarrow> v \<noteq> y \<and> \<bar>v - y\<bar> \<noteq> int d" for v d by auto
  then show ?thesis using assms by (auto simp: queen_fits_def list_all_iff)
qed

lemma placement_snoc:
  "placement n (qs @ [y]) \<longleftrightarrow> placement n qs \<and> 0 \<le> y \<and> y < int n \<and>
     (\<forall>i < length qs. qs ! i \<noteq> y \<and> \<bar>qs ! i - y\<bar> \<noteq> int (length qs - i))"
  by (auto simp: placement_def nth_append less_Suc_eq)

lemma spawned_eq:
  "xMax < length buf \<Longrightarrow> \<forall>y \<in> set ys. 0 \<le> y \<and> y < 128 \<Longrightarrow>
   spawned xMax ys buf = map (\<lambda>y. buf[xMax := y]) (filter (\<lambda>y. queen_fits xMax (buf[xMax := y]) y) ys)"
proof (induction ys arbitrary: buf)
  case (Cons y ys)
  have "spawned xMax ys (buf[xMax := y]) = map (\<lambda>z. buf[xMax := z]) (filter (\<lambda>z. queen_fits xMax (buf[xMax := z]) z) ys)"
    using Cons by simp
  then show ?case using Cons.prems(2) by (simp add: queen_test_def to_char_small Let_def)
qed simp

lemma finite_placements: "finite (placements n k pre)"
proof -
  have "placements n k pre \<subseteq> {qs. set qs \<subseteq> {0..<int n} \<and> length qs = k}" by (auto simp: placements_def placement_def)
  then show ?thesis by (rule finite_subset) (simp add: finite_lists_length_eq)
qed

text \<open>The placements of all rows, by the queen of the next one.\<close>

lemma placements_split:
  assumes "x < n" and pre: "length pre = x" "placement n pre"
  shows "placements n n pre = (\<Union>y \<in> {y. placement n (pre @ [y])}. placements n n (pre @ [y]))"
proof -
  have "qs \<in> placements n n pre \<longleftrightarrow> (\<exists>y. placement n (pre @ [y]) \<and> qs \<in> placements n n (pre @ [y]))" for qs
  proof
    assume q: "qs \<in> placements n n pre"
    then have len: "length qs = n" "placement n qs" "take x qs = pre" using pre by (simp_all add: placements_def)
    then have t: "take (Suc x) qs = pre @ [qs ! x]" using assms(1) by (simp add: take_Suc_conv_app_nth)
    have "placement n (take (Suc x) qs)"
      using len(2) by (auto simp: placement_def dest: in_set_takeD)
    then show "\<exists>y. placement n (pre @ [y]) \<and> qs \<in> placements n n (pre @ [y])"
      using t len pre(1) by (intro exI [of _ "qs ! x"]) (simp add: placements_def)
  next
    assume "\<exists>y. placement n (pre @ [y]) \<and> qs \<in> placements n n (pre @ [y])"
    then obtain y where "length qs = n" "placement n qs" "take (Suc x) qs = pre @ [y]"
      using pre(1) by (auto simp: placements_def)
    moreover have "take x qs = take x (take (Suc x) qs)" by (simp add: min_def)
    ultimately show "qs \<in> placements n n pre" using pre(1) by (simp add: placements_def)
  qed
  then show ?thesis by blast
qed

lemma sint_of_nat_small: "k < 2 ^ 31 \<Longrightarrow> sint (of_nat k :: u32) = int k"
  by (simp add: signed_of_nat signed_take_bit_int_eq_self)

lemma nqueens_counts_from:
  "x \<le> n \<Longrightarrow> length buf = n \<Longrightarrow> n \<le> 128 \<Longrightarrow> placement n (take x buf) \<Longrightarrow>
   nqueens n x buf = of_nat (card (placements n n (take x buf)))"
proof (induction "n - x" arbitrary: x buf)
  case 0
  then have "placements n n (take x buf) = {buf}" by (auto simp: placements_def)
  then show ?case using 0 by (simp add: nqueens.simps)
next
  case (Suc k)
  then have x: "x < n" by simp
  let ?pre = "take x buf" and ?ys = "filter (\<lambda>y. queen_fits x (buf[x := y]) y) (map int [0..<n])"
  have pre: "length ?pre = x" "placement n ?pre" using Suc.prems x by simp_all
  have take: "take (Suc x) (buf[x := y]) = ?pre @ [y]" for y
    using x Suc.prems(2) by (simp add: take_Suc_conv_app_nth)
  have ys: "set ?ys = {y. placement n (?pre @ [y])}"
  proof -
    have "y \<in> set (map int [0..<n]) \<longleftrightarrow> 0 \<le> y \<and> y < int n" for y
      by (auto simp: image_iff intro!: bexI [of _ "nat y"])
    then show ?thesis
      using pre queen_fits_iff [of x buf] x Suc.prems(2) by (auto simp: placement_snoc)
  qed
  have "distinct (map int [0..<n])" by (simp add: distinct_map)
  then have d: "distinct ?ys" by simp
  have child: "nqueens n (x + 1) (buf[x := y]) = of_nat (card (placements n n (?pre @ [y])))" if "y \<in> set ?ys" for y
  proof -
    have "placement n (take (Suc x) (buf[x := y]))" using that unfolding ys take by simp
    then show ?thesis using Suc.hyps(1) [of "Suc x" "buf[x := y]"] Suc.hyps(2) x Suc.prems(2,3) by (simp add: take)
  qed
  have "nqueens n x buf = sum_list (map (\<lambda>y. nqueens n (x + 1) (buf[x := y])) ?ys)"
    using x Suc.prems(2,3) by (simp add: nqueens.simps [of n x] spawned_eq comp_def)
  also have "\<dots> = sum_list (map (\<lambda>y. of_nat (card (placements n n (?pre @ [y])))) ?ys)"
    by (intro arg_cong [of _ _ sum_list] map_cong refl child)
  also have "\<dots> = (\<Sum>y \<in> set ?ys. of_nat (card (placements n n (?pre @ [y]))))"
    using d by (simp add: sum_list_distinct_conv_sum_set)
  also have "\<dots> = of_nat (\<Sum>y \<in> set ?ys. card (placements n n (?pre @ [y])))" by simp
  also have "(\<Sum>y \<in> set ?ys. card (placements n n (?pre @ [y]))) = card (\<Union>y \<in> set ?ys. placements n n (?pre @ [y]))"
    by (rule card_UN_disjoint [symmetric]) (auto simp: finite_placements, auto simp: placements_def)
  also have "(\<Union>y \<in> set ?ys. placements n n (?pre @ [y])) = placements n n ?pre"
    using placements_split [OF x pre] ys by simp
  finally show ?case .
qed

text \<open>
  C40. \<open>nqueens\<close> returns the number of ways to place \<open>n\<close> queens on the board, whatever the buffer held,
  as long as columns fit into a \<open>char\<close> and the number into an \<open>int\<close>. For \<open>n = 0\<close> that is 1, the
  empty placement, which \<open>check_answer\<close> does not accept: its table has 0 there.
\<close>

theorem nqueens_counts:
  assumes "length buf = n" and "n \<le> 128" and "card {qs. length qs = n \<and> placement n qs} < 2 ^ 31"
  shows "sint (nqueens n 0 buf) = int (card {qs. length qs = n \<and> placement n qs}) \<and>
    nqueens 0 0 [] = 1 \<and> \<not> check_answer 0 (nqueens 0 0 [])"
  using nqueens_counts_from [of 0 n buf] assms
  by (simp add: placements_def placement_def sint_of_nat_small nqueens.simps [of 0] check_answer_def answers_def)

theorem nqueens_counts_witness:
  "sint (nqueens 4 0 [0, 0, 0, 0]) = int (card {qs. length qs = 4 \<and> placement 4 qs}) \<and> nqueens 4 0 [0, 0, 0, 0] = 2 \<and>
    \<not> check_answer 0 (nqueens 0 0 [])"
proof -
  have two: "nqueens 4 0 [0, 0, 0, 0] = 2" by code_simp
  have "finite {qs :: int list. set qs \<subseteq> {0..<4} \<and> length qs = 4}" by (rule finite_lists_length_eq) simp
  moreover have "{qs. length qs = 4 \<and> placement 4 qs} \<subseteq> {qs. set qs \<subseteq> {0..<4} \<and> length qs = 4}"
    by (auto simp: placement_def)
  ultimately have "card {qs. length qs = 4 \<and> placement 4 qs} \<le> card {qs :: int list. set qs \<subseteq> {0..<4} \<and> length qs = 4}"
    by (rule card_mono)
  also have "\<dots> = 4 ^ 4" by (subst card_lists_length_eq) simp_all
  finally show ?thesis using nqueens_counts [of "[0, 0, 0, 0]" 4] two by auto
qed

text \<open>The table of answers, where the kernel can count; \<open>nqueens_counts\<close> has the entry for 0.\<close>

lemma answers_right: "list_all (\<lambda>n. check_answer n (nqueens n 0 (replicate n 0))) [1, 2, 3, 4, 5, 6]"
  by code_simp

subsection \<open>\<open>skynet\<close>\<close>

text \<open>The loop that computes the distance of the children's numbers.\<close>

fun depth_offset :: "nat \<Rightarrow> u64" where
  "depth_offset 0 = 1" | "depth_offset (Suc i) = depth_offset i * 10"

text \<open>\<open>skynet_one\<close>; the depth never exceeds \<open>DepthMax\<close>.\<close>

function skynet_one :: "nat \<Rightarrow> u64 \<Rightarrow> nat \<Rightarrow> u64" where
  "skynet_one depth_max base depth =
     (if depth = depth_max then base
      else if depth_max < depth then 0
      else sum_list (map (\<lambda>idx. skynet_one depth_max (base + depth_offset (depth_max - depth - 1) * of_nat idx) (depth + 1)) [0..<10]))"
  by auto

termination by (relation "measure (\<lambda>(depth_max, base, depth). depth_max - depth)") auto

declare skynet_one.simps [simp del]

text \<open>\<open>skynet\<close>: whether it reports no error.\<close>

definition skynet :: "nat \<Rightarrow> bool" where
  "skynet depth_max \<longleftrightarrow> skynet_one depth_max 0 0 = 4999999950000000"

lemma depth_offset_power: "depth_offset i = 10 ^ i"
  by (induction i) (simp_all add: mult.commute)

lemma skynet_one_sum:
  "d \<le> m \<Longrightarrow> skynet_one m base d = (\<Sum>i < 10 ^ (m - d). base + of_nat i)"
proof (induction "m - d" arbitrary: d base)
  case 0
  then show ?case by (simp add: skynet_one.simps)
next
  case (Suc k)
  then have d: "d < m" "m - Suc d = k" by simp_all
  have child: "skynet_one m b (d + 1) = (\<Sum>i < 10 ^ k. b + of_nat i)" for b
    using Suc.hyps(1) [of "Suc d" b] d by simp
  have "skynet_one m base d = sum_list (map (\<lambda>idx. \<Sum>i < 10 ^ k. base + 10 ^ k * of_nat idx + of_nat i) [0..<10])"
    using d by (simp add: skynet_one.simps [of m base d] depth_offset_power child [simplified])
  also have "\<dots> = (\<Sum>idx < 10. \<Sum>i < 10 ^ k. base + of_nat (idx * 10 ^ k + i))"
    by (simp add: sum_list_distinct_conv_sum_set atLeast0LessThan add.assoc mult.commute)
  also have "\<dots> = (\<Sum>idx < 10. \<Sum>i = idx * 10 ^ k..<idx * 10 ^ k + 10 ^ k. base + of_nat i)"
    by (simp add: sum.atLeastLessThan_shift_0 [where m = "_ * 10 ^ k"] atLeast0LessThan comp_def)
  also have "\<dots> = (\<Sum>i < 10 * 10 ^ k. base + of_nat i)" by (rule sum.nat_group)
  finally show ?case using Suc.hyps(2) [symmetric] by (simp only: power_Suc)
qed

lemma skynet_count: "skynet_one m 0 0 = of_nat (10 ^ m * (10 ^ m - 1) div 2)"
proof -
  have "(\<Sum>i < n. of_nat i :: u64) = of_nat (n * (n - 1) div 2)" for n
  proof -
    have "(\<Sum>i < n. of_nat i :: u64) = of_nat (\<Sum>i < n. i)" by simp
    also have "(\<Sum>i < n. i) = n * (n - 1) div 2"
    proof (induction n)
      case (Suc n)
      have "n + n * (n - 1) div 2 = (2 * n + n * (n - 1)) div 2" by simp
      also have "2 * n + n * (n - 1) = Suc n * n" by (cases n) (simp_all add: algebra_simps)
      finally show ?case using Suc by simp
    qed simp
    finally show ?thesis .
  qed
  then show ?thesis using skynet_one_sum [of 0 m 0] by simp
qed

text \<open>
  The constant that \<open>skynet\<close> compares with is the sum for depth 8, for which the program calls it,
  and for no other depth up to 9; \<open>loop_skynet\<close> has 6 as its default.
\<close>

theorem skynet_expects_depth_8:
  assumes "m \<le> 9"
  shows "skynet m \<longleftrightarrow> m = 8"
proof -
  have small: "10 ^ m * (10 ^ m - 1) div 2 < (2 ^ 64 :: nat)"
  proof -
    have p: "(10::nat) ^ m \<le> 10 ^ 9" using assms by (intro power_increasing) simp_all
    then have "10 ^ m * (10 ^ m - 1) \<le> (10 ^ 9 * 10 ^ 9 :: nat)" by (intro mult_le_mono) linarith+
    also have "\<dots> < 2 ^ 64" by simp
    finally show ?thesis by linarith
  qed
  have "(of_nat a :: u64) = of_nat b \<longleftrightarrow> a = b" if "a < 2 ^ 64" "b < 2 ^ 64" for a b
    using that of_nat_inverse [of a "of_nat b :: u64"] of_nat_inverse [of b "of_nat b :: u64"] by auto
  from this [OF small, of 4999999950000000] have "skynet m \<longleftrightarrow> 10 ^ m * (10 ^ m - 1) div 2 = (4999999950000000 :: nat)"
    by (simp add: skynet_def skynet_count)
  also have "\<dots> \<longleftrightarrow> m = 8"
  proof -
    have "m \<in> {0, 1, 2, 3, 4, 5, 6, 7, 8, 9}" using assms by auto
    then show ?thesis by auto
  qed
  finally show ?thesis .
qed

theorem skynet_expects_depth_8_witness: "skynet 8 \<and> \<not> skynet 6"
  using skynet_expects_depth_8 [of 8] skynet_expects_depth_8 [of 6] by simp

end
