(* ===== verification/Xor_Shift.thy ===== *)
theory Xor_Shift
  imports Prelude
begin

section \<open>The random generator of the stealing loop (random.hpp)\<close>

text \<open>
  \<open>XorShift\<close> keeps one 32-bit word. The state must never become zero, since zero is a fixed
  point; the constructor replaces a zero seed.
\<close>

definition xorshift_new :: "u32 \<Rightarrow> u32" where
  "xorshift_new seed = (if seed = 0 then 0xdeadbeef else seed)"

text \<open>\<open>operator()\<close>: the number drawn is the new state.\<close>

definition xorshift_next :: "u32 \<Rightarrow> u32" where
  "xorshift_next state =
     (let x = state;
          x = x XOR push_bit 13 x;
          x = x XOR drop_bit 17 x;
          x = x XOR push_bit 5 x
      in x)"

fun xorshift_draws :: "nat \<Rightarrow> u32 \<Rightarrow> u32 list" where
  "xorshift_draws 0 state = []"
| "xorshift_draws (Suc n) state = xorshift_next state # xorshift_draws n (xorshift_next state)"

text \<open>Each of the three assignments is injective: a word that equals its own shift is zero.\<close>

lemma push_bit_fixed: 
  fixes d :: u32
  assumes "d = push_bit k d" and "0 < k"
  shows "d = 0"
proof (rule bit_eqI)
  fix n assume "possible_bit TYPE(u32) n"
  then show "bit d n \<longleftrightarrow> bit (0::u32) n"
  proof (induction n rule: less_induct)
    case (less n)
    have "bit d n \<longleftrightarrow> k \<le> n \<and> bit d (n - k)"
      using less.prems by (subst assms(1)) (simp add: bit_push_bit_iff possible_bit_def)
    also have "\<dots> \<longleftrightarrow> False"
      using less.IH [of "n - k"] less.prems assms(2) by (auto simp: possible_bit_def)
    finally show ?case by simp
  qed
qed

lemma drop_bit_fixed:
  fixes d :: u32
  assumes "d = drop_bit k d" and "0 < k"
  shows "d = 0"
proof (rule bit_eqI)
  have none: "\<not> bit d n" for n
  proof (induction "32 - n" arbitrary: n rule: less_induct)
    case less
    show ?case
    proof (cases "n < 32")
      case True
      then have "\<not> bit d (k + n)" using less [of "k + n"] assms(2) by auto
      then show ?thesis by (subst assms(1)) (simp add: bit_drop_bit_eq)
    next
      case False
      then show ?thesis using bit_imp_le_length [of d n] by auto
    qed
  qed
  show "bit d n \<longleftrightarrow> bit (0::u32) n" for n using none by simp
qed

lemma xor_cancel: "(a::u32) XOR b = c XOR d \<Longrightarrow> a XOR c = b XOR d"
  unfolding bit_eq_iff by (auto simp: bit_xor_iff)

lemma xor_zero_iff: "(x::u32) XOR y = 0 \<longleftrightarrow> x = y"
  unfolding bit_eq_iff by (auto simp: bit_xor_iff)

lemma shift_left_inj:
  assumes "0 < k" and "x XOR push_bit k x = y XOR push_bit k (y::u32)"
  shows "x = y"
proof -
  have "x XOR y = push_bit k (x XOR y)" unfolding push_bit_xor by (rule xor_cancel [OF assms(2)])
  then show ?thesis using push_bit_fixed assms(1) xor_zero_iff by blast
qed

lemma shift_right_inj:
  assumes "0 < k" and "x XOR drop_bit k x = y XOR drop_bit k (y::u32)"
  shows "x = y"
proof -
  have "x XOR y = drop_bit k (x XOR y)" unfolding drop_bit_xor by (rule xor_cancel [OF assms(2)])
  then show ?thesis using drop_bit_fixed assms(1) xor_zero_iff by blast
qed

lemma xorshift_inj: "xorshift_next x = xorshift_next y \<Longrightarrow> x = y"
  unfolding xorshift_next_def Let_def
  by (drule shift_left_inj [rotated], simp, drule shift_right_inj [rotated], simp,
      drule shift_left_inj [rotated], simp)

lemma xorshift_zero: "xorshift_next 0 = 0"
  by (simp add: xorshift_next_def)

text \<open>
  The generator never draws zero, whatever the seed: the zero state is never entered.
\<close>

theorem xorshift_never_zero: "0 \<notin> set (xorshift_draws n (xorshift_new seed))"
proof -
  have "0 \<notin> set (xorshift_draws n s)" if "s \<noteq> 0" for s
    using that
  proof (induction n arbitrary: s)
    case (Suc n)
    have "xorshift_next s \<noteq> 0" using xorshift_inj [of s 0] xorshift_zero Suc.prems by auto
    then show ?case using Suc.IH by simp
  qed simp
  then show ?thesis by (simp add: xorshift_new_def)
qed

text \<open>
  The state transition is a permutation of the 32-bit words: the generator loses no state,
  and every state other than the seed's successors has exactly one predecessor.
\<close>

theorem xorshift_permutes: "bij xorshift_next"
proof -
  have "inj xorshift_next" by (rule injI) (rule xorshift_inj)
  then show ?thesis using finite_UNIV_inj_surj [of xorshift_next] by (simp add: bij_def)
qed

end
